(* ===== verification/Irys_Prelude.thy ===== *)
theory Irys_Prelude
  imports Main "HOL-Library.Word" "HOL-Library.AList"
begin

text \<open>
  Shared vocabulary of the development.

  \<^item> Rust's \<open>Result\<close> is the sum type with \<open>Inl\<close> for \<open>Err\<close>; \<open>rbind\<close> is the \<open>?\<close> operator.
  \<^item> \<open>H256\<close> and \<open>U256\<close> are 256-bit words. The order of words is the order Rust uses for both (the
    byte order of an \<open>H256\<close> is big-endian).
  \<^item> A \<open>HashMap\<close> is an association list with the operations of the library theory AList, a
    \<open>HashSet\<close> a list without repetition, a \<open>BTreeMap\<close> an association list sorted by key and a
    \<open>BTreeSet\<close> a sorted list without repetition. The locale \<open>keyed_map\<close> states what both kinds of map
    promise and is interpreted on both.
  \<^item> \<open>index_insert\<close> and \<open>index_remove\<close> are the two idioms for an index from keys to sets of values
    that the block tree uses for its solution and height indices.
\<close>

named_theorems result_simps \<open>equations and inversion rules for the result type\<close>
named_theorems map_simps \<open>lookup laws of the map models\<close>

type_synonym h256 = "256 word"
type_synonym u256 = "256 word"
type_synonym address = "160 word"

section \<open>Results\<close>

definition rbind :: "'e + 'a \<Rightarrow> ('a \<Rightarrow> 'e + 'b) \<Rightarrow> 'e + 'b" where
  "rbind m f = (case m of Inl e \<Rightarrow> Inl e | Inr x \<Rightarrow> f x)"

definition ensure :: "bool \<Rightarrow> 'e \<Rightarrow> 'e + unit" where
  "ensure b e = (if b then Inr () else Inl e)"

definition ok_or :: "'a option \<Rightarrow> 'e \<Rightarrow> 'e + 'a" where
  "ok_or x e = (case x of None \<Rightarrow> Inl e | Some y \<Rightarrow> Inr y)"

definition unwrap_or :: "'e + 'a \<Rightarrow> 'a \<Rightarrow> 'a" where
  "unwrap_or m d = (case m of Inl _ \<Rightarrow> d | Inr x \<Rightarrow> x)"

fun is_ok :: "'e + 'a \<Rightarrow> bool" where
  "is_ok (Inl _) = False"
| "is_ok (Inr _) = True"

lemma rbind_simps [simp, result_simps]:
  "rbind (Inl e) f = Inl e"
  "rbind (Inr x) f = f x"
  by (simp_all add: rbind_def)

lemma rbind_Inr_iff [result_simps]:
  "rbind m f = Inr y \<longleftrightarrow> (\<exists>x. m = Inr x \<and> f x = Inr y)"
  by (cases m) auto

lemma rbind_Inl_iff [result_simps]:
  "rbind m f = Inl e \<longleftrightarrow> m = Inl e \<or> (\<exists>x. m = Inr x \<and> f x = Inl e)"
  by (cases m) auto

lemma rbind_cong [fundef_cong]:
  assumes "m = m'" and "\<And>x. m' = Inr x \<Longrightarrow> f x = g x"
  shows "rbind m f = rbind m' g"
  using assms by (cases m') simp_all

lemma rbind_assoc: "rbind (rbind m f) g = rbind m (\<lambda>x. rbind (f x) g)"
  by (cases m) simp_all

lemma ensure_iff [simp, result_simps]:
  "ensure b e = Inr u \<longleftrightarrow> b"
  "ensure b e = Inl e' \<longleftrightarrow> \<not> b \<and> e' = e"
  by (auto simp: ensure_def)

lemma ok_or_iff [simp, result_simps]:
  "ok_or x e = Inr y \<longleftrightarrow> x = Some y"
  "ok_or x e = Inl e' \<longleftrightarrow> x = None \<and> e' = e"
  by (auto simp: ok_or_def split: option.splits)

lemma unwrap_or_simps [simp]:
  "unwrap_or (Inl e) d = d"
  "unwrap_or (Inr x) d = x"
  by (simp_all add: unwrap_or_def)

lemma is_ok_iff: "is_ok m \<longleftrightarrow> (\<exists>x. m = Inr x)"
  by (cases m) auto

text \<open>A \<open>for\<close> loop whose body ends in \<open>?\<close>: it stops at the first error.\<close>

fun try_fold :: "('x \<Rightarrow> 's \<Rightarrow> 'e + 's) \<Rightarrow> 'x list \<Rightarrow> 's \<Rightarrow> 'e + 's" where
  "try_fold f [] s = Inr s"
| "try_fold f (x # xs) s = rbind (f x s) (try_fold f xs)"

lemma try_fold_append:
  "try_fold f (xs @ ys) s = rbind (try_fold f xs s) (try_fold f ys)"
  by (induction xs arbitrary: s) (auto simp: rbind_def split: sum.splits)

lemma try_fold_invariant:
  assumes "try_fold f xs s = Inr s'" and "P s"
    and "\<And>x s s'. x \<in> set xs \<Longrightarrow> P s \<Longrightarrow> f x s = Inr s' \<Longrightarrow> P s'"
  shows "P s'"
  using assms by (induction xs arbitrary: s) (auto simp: rbind_Inr_iff)

lemma try_fold_cong [fundef_cong]:
  assumes "xs = ys" and "s = t" and "\<And>x s. x \<in> set ys \<Longrightarrow> f x s = g x s"
  shows "try_fold f xs s = try_fold g ys t"
proof -
  have "try_fold f ys t = try_fold g ys t"
    using assms(3) by (induction ys arbitrary: t) (simp_all add: rbind_def split: sum.splits)
  then show ?thesis
    using assms(1,2) by simp
qed

text \<open>Mapping a fallible function over a list (\<open>iter().map(..).collect::<Result<Vec<_>, _>>()\<close>).\<close>

fun rmap :: "('a \<Rightarrow> 'e + 'b) \<Rightarrow> 'a list \<Rightarrow> 'e + 'b list" where
  "rmap f [] = Inr []"
| "rmap f (x # xs) = rbind (f x) (\<lambda>y. rbind (rmap f xs) (\<lambda>ys. Inr (y # ys)))"

lemma rmap_Inr_iff: "rmap f xs = Inr ys \<longleftrightarrow> list_all2 (\<lambda>x y. f x = Inr y) xs ys"
proof (induction xs arbitrary: ys)
  case Nil
  then show ?case by auto
next
  case (Cons x xs)
  then show ?case by (cases ys) (auto simp: rbind_Inr_iff)
qed

lemma rmap_total: "(\<And>x. x \<in> set xs \<Longrightarrow> f x = Inr (g x)) \<Longrightarrow> rmap f xs = Inr (map g xs)"
  by (induction xs) auto

section \<open>Methods that change their receiver and may fail\<close>

text \<open>
  A method with \<open>&mut self\<close> that returns a \<open>Result\<close> may change the state before it fails, so its
  model returns the state next to the result. \<open>sbind\<close> is \<open>?\<close> for such calls and \<open>st_fold\<close> a loop over
  them.
\<close>

definition sbind :: "('e + 'a) \<times> 's \<Rightarrow> ('a \<Rightarrow> 's \<Rightarrow> ('e + 'b) \<times> 's) \<Rightarrow> ('e + 'b) \<times> 's" where
  "sbind m f = (case m of (Inl e, s) \<Rightarrow> (Inl e, s) | (Inr x, s) \<Rightarrow> f x s)"

lemma sbind_simps [simp, result_simps]:
  "sbind (Inl e, s) f = (Inl e, s)"
  "sbind (Inr x, s) f = f x s"
  by (simp_all add: sbind_def)

lemma sbind_Inr_iff [result_simps]:
  "sbind m f = (Inr y, s') \<longleftrightarrow> (\<exists>x s. m = (Inr x, s) \<and> f x s = (Inr y, s'))"
  by (auto simp: sbind_def split: sum.splits prod.splits)

fun st_fold :: "('x \<Rightarrow> 's \<Rightarrow> ('e + unit) \<times> 's) \<Rightarrow> 'x list \<Rightarrow> 's \<Rightarrow> ('e + unit) \<times> 's" where
  "st_fold f [] s = (Inr (), s)"
| "st_fold f (x # xs) s = sbind (f x s) (\<lambda>_. st_fold f xs)"

lemma st_fold_ok:
  assumes "\<And>x s. x \<in> set xs \<Longrightarrow> P s \<Longrightarrow> \<exists>s'. f x s = (Inr (), s') \<and> P s'" and "P s"
  shows "\<exists>s'. st_fold f xs s = (Inr (), s') \<and> P s'"
  using assms
proof (induction xs arbitrary: s)
  case Nil
  then show ?case by simp
next
  case (Cons x xs)
  then obtain s1 where s1: "f x s = (Inr (), s1)" "P s1" by force
  moreover have "\<exists>s'. st_fold f xs s1 = (Inr (), s') \<and> P s'"
    using Cons.prems s1 by (intro Cons.IH) auto
  ultimately show ?case by simp
qed

section \<open>Maps\<close>

text \<open>
  What a client may rely on from a Rust map: reading after an insertion or a removal.
\<close>

locale keyed_map =
  fixes get :: "'m \<Rightarrow> 'k \<Rightarrow> 'v option"
    and ins :: "'k \<Rightarrow> 'v \<Rightarrow> 'm \<Rightarrow> 'm"
    and del :: "'k \<Rightarrow> 'm \<Rightarrow> 'm"
  assumes get_ins: "get (ins k v m) = (get m)(k \<mapsto> v)"
    and get_del: "get (del k m) = (get m)(k := None)"
begin

lemma dom_ins: "dom (get (ins k v m)) = insert k (dom (get m))"
  by (simp add: get_ins)

lemma dom_del: "dom (get (del k m)) = dom (get m) - {k}"
  by (simp add: get_del)

lemma del_ins: "get (del k (ins k v m)) = get (del k m)"
  by (simp add: get_ins get_del)

lemma get_ins_other: "k' \<noteq> k \<Longrightarrow> get (ins k v m) k' = get m k'"
  by (simp add: get_ins)

end

text \<open>A \<open>BTreeMap\<close>: insertion keeps the keys in ascending order and replaces an equal key.\<close>

fun bt_insert :: "'k::linorder \<Rightarrow> 'v \<Rightarrow> ('k \<times> 'v) list \<Rightarrow> ('k \<times> 'v) list" where
  "bt_insert k v [] = [(k, v)]"
| "bt_insert k v ((k', v') # m) =
     (if k = k' then (k, v) # m
      else if k < k' then (k, v) # (k', v') # m
      else (k', v') # bt_insert k v m)"

definition bt_remove :: "'k \<Rightarrow> ('k \<times> 'v) list \<Rightarrow> ('k \<times> 'v) list" where
  "bt_remove k m = filter (\<lambda>p. fst p \<noteq> k) m"

definition bt_sorted :: "('k::linorder \<times> 'v) list \<Rightarrow> bool" where
  "bt_sorted m \<longleftrightarrow> sorted_wrt (<) (map fst m)"

lemma map_of_bt_insert [simp, map_simps]:
  "map_of (bt_insert k v m) = (map_of m)(k \<mapsto> v)"
  by (induction k v m rule: bt_insert.induct) (auto simp: fun_eq_iff)

lemma map_of_bt_remove [simp, map_simps]:
  "map_of (bt_remove k m) = (map_of m)(k := None)"
  by (induction m) (auto simp: bt_remove_def fun_eq_iff)

lemma fst_set_bt_insert: "fst ` set (bt_insert k v m) = insert k (fst ` set m)"
  by (induction k v m rule: bt_insert.induct) auto

lemma bt_sorted_Nil [simp]: "bt_sorted []"
  by (simp add: bt_sorted_def)

lemma bt_sorted_Cons: "bt_sorted ((k, v) # m) \<longleftrightarrow> (\<forall>k' \<in> fst ` set m. k < k') \<and> bt_sorted m"
  by (auto simp: bt_sorted_def)

lemma bt_sorted_insert [simp, intro]: "bt_sorted m \<Longrightarrow> bt_sorted (bt_insert k v m)"
proof (induction k v m rule: bt_insert.induct)
  case (1 k v)
  show ?case by (simp add: bt_sorted_def)
next
  case (2 k v k' v' m)
  then show ?case
    by (auto simp: bt_sorted_Cons fst_set_bt_insert)
qed

lemma bt_sorted_remove [simp, intro]: "bt_sorted m \<Longrightarrow> bt_sorted (bt_remove k m)"
  by (induction m) (auto simp: bt_sorted_Cons bt_remove_def)

interpretation hash_map: keyed_map "map_of :: ('k \<times> 'v) list \<Rightarrow> 'k \<Rightarrow> 'v option"
    AList.update AList.delete
  by unfold_locales (simp_all add: AList.update_conv' AList.delete_conv')

interpretation btree_map: keyed_map "map_of :: ('k::linorder \<times> 'v) list \<Rightarrow> 'k \<Rightarrow> 'v option"
    bt_insert bt_remove
  by unfold_locales simp_all

lemmas [simp, map_simps] = AList.update_conv' AList.delete_conv'

text \<open>\<open>HashMap::get_mut\<close> followed by an assignment through the reference.\<close>

lemma map_of_map_entry_Some [simp, map_simps]:
  "map_of (AList.map_entry k f m) k' =
     (if k' = k then map_option f (map_of m k) else map_of m k')"
  by (simp add: AList.map_of_map_entry split: option.splits)

section \<open>Indices from keys to sets of values\<close>

text \<open>
  \<open>m.entry(k).or_default().insert(x)\<close> and
  \<open>if let Some(s) = m.get_mut(&k) { s.remove(x); if s.is_empty() { m.remove(&k) } }\<close>,
  with the set operations of the index as arguments. Both indices of the block tree are
  \<open>BTreeMap\<close>s; one holds ordered sets and the other unordered ones.
\<close>

definition index_insert ::
  "('x \<Rightarrow> 'x list \<Rightarrow> 'x list) \<Rightarrow> 'k::linorder \<Rightarrow> 'x \<Rightarrow> ('k \<times> 'x list) list \<Rightarrow> ('k \<times> 'x list) list"
where
  "index_insert add k x m =
     bt_insert k (add x (case map_of m k of None \<Rightarrow> [] | Some s \<Rightarrow> s)) m"

definition index_remove :: "'k::linorder \<Rightarrow> 'x \<Rightarrow> ('k \<times> 'x list) list \<Rightarrow> ('k \<times> 'x list) list" where
  "index_remove k x m =
     (case map_of m k of
        None \<Rightarrow> m
      | Some s \<Rightarrow> (let s' = removeAll x s in if s' = [] then bt_remove k m else bt_insert k s' m))"

definition index_get :: "('k \<times> 'x list) list \<Rightarrow> 'k \<Rightarrow> 'x set" where
  "index_get m k = (case map_of m k of None \<Rightarrow> {} | Some s \<Rightarrow> set s)"

text \<open>The invariant of an index: sorted keys, no empty set, and no repetition in a set.\<close>

definition index_ok :: "('k::linorder \<times> 'x list) list \<Rightarrow> bool" where
  "index_ok m \<longleftrightarrow> bt_sorted m \<and> (\<forall>k s. map_of m k = Some s \<longrightarrow> s \<noteq> [] \<and> distinct s)"

lemma index_ok_Nil [simp]: "index_ok []"
  by (simp add: index_ok_def)

text \<open>
  The contract of the set under an index: what inserting an element does to its members, and
  that no element is repeated.
\<close>

locale set_insert =
  fixes add :: "'x \<Rightarrow> 'x list \<Rightarrow> 'x list"
  assumes set_add: "set (add x s) = insert x (set s)"
    and distinct_add: "distinct s \<Longrightarrow> distinct (add x s)"
begin

lemma add_not_Nil: "add x s \<noteq> []"
proof
  assume "add x s = []"
  with set_add [of x s] show False by simp
qed

lemma index_get_insert:
  "index_get (index_insert add k x m) k' = (if k' = k then insert x (index_get m k) else index_get m k')"
  by (simp add: index_get_def index_insert_def set_add split: option.splits)

lemma index_ok_insert:
  assumes "index_ok m"
  shows "index_ok (index_insert add k x m)"
proof -
  have "distinct (add x (case map_of m k of None \<Rightarrow> [] | Some s \<Rightarrow> s))"
    using assms by (auto simp: index_ok_def intro: distinct_add split: option.splits)
  then show ?thesis
    using assms add_not_Nil by (auto simp: index_ok_def index_insert_def split: if_splits)
qed

end

interpretation hash_set: set_insert "List.insert :: 'x \<Rightarrow> 'x list \<Rightarrow> 'x list"
  by unfold_locales simp_all

interpretation btree_set: set_insert "insort_insert :: 'x::linorder \<Rightarrow> 'x list \<Rightarrow> 'x list"
  by unfold_locales (simp_all add: set_insort_insert distinct_insort_insert)

lemma removeAll_eq_Nil_iff: "removeAll x s = [] \<longleftrightarrow> set s \<subseteq> {x}"
  by (induction s) auto

lemma index_get_remove [simp]:
  "index_get (index_remove k x m) k' = (if k' = k then index_get m k - {x} else index_get m k')"
  by (auto simp: index_get_def index_remove_def Let_def removeAll_eq_Nil_iff split: option.splits)

lemma index_ok_remove [intro]: "index_ok m \<Longrightarrow> index_ok (index_remove k x m)"
  by (auto simp: index_ok_def index_remove_def Let_def removeAll_eq_Nil_iff distinct_removeAll
      split: option.splits if_splits)

lemma index_get_empty_iff:
  "index_ok m \<Longrightarrow> index_get m k = {} \<longleftrightarrow> map_of m k = None"
  by (auto simp: index_ok_def index_get_def split: option.splits)

section \<open>Bytes\<close>

text \<open>
  \<open>to_le_bytes\<close> and \<open>from_le_bytes\<close> at a width of \<open>n\<close> bytes, and the bytes of an \<open>H256\<close>, which are
  big-endian.
\<close>

type_synonym byte = "8 word"

fun le_bytes :: "nat \<Rightarrow> nat \<Rightarrow> byte list" where
  "le_bytes 0 x = []"
| "le_bytes (Suc n) x = of_nat x # le_bytes n (x div 256)"

fun le_value :: "byte list \<Rightarrow> nat" where
  "le_value [] = 0"
| "le_value (b # bs) = unat b + 256 * le_value bs"

definition be_bytes :: "nat \<Rightarrow> nat \<Rightarrow> byte list" where
  "be_bytes n x = rev (le_bytes n x)"

definition be_value :: "byte list \<Rightarrow> nat" where
  "be_value bs = le_value (rev bs)"

definition h256_bytes :: "h256 \<Rightarrow> byte list" where
  "h256_bytes w = be_bytes 32 (unat w)"

definition h256_of_bytes :: "byte list \<Rightarrow> h256" where
  "h256_of_bytes bs = of_nat (be_value bs)"

lemma length_le_bytes [simp]: "length (le_bytes n x) = n"
  by (induction n arbitrary: x) simp_all

lemma length_be_bytes [simp]: "length (be_bytes n x) = n"
  by (simp add: be_bytes_def)

lemma length_h256_bytes [simp]: "length (h256_bytes w) = 32"
  by (simp add: h256_bytes_def)

lemma le_value_le_bytes: "le_value (le_bytes n x) = x mod 256 ^ n"
proof (induction n arbitrary: x)
  case (Suc n)
  have "x mod 256 ^ Suc n = x mod 256 + 256 * (x div 256 mod 256 ^ n)"
    by (simp add: mod_mult2_eq)
  then show ?case using Suc [of "x div 256"] by (simp add: unat_of_nat take_bit_eq_mod)
qed simp

lemma le_value_le_bytes_id [simp]: "x < 256 ^ n \<Longrightarrow> le_value (le_bytes n x) = x"
  by (simp add: le_value_le_bytes)

lemma h256_of_bytes_h256_bytes [simp]: "h256_of_bytes (h256_bytes w) = w"
proof -
  have "unat w < 2 ^ LENGTH(256)" by (rule unsigned_less)
  then have "unat w < 256 ^ 32" by simp
  then show ?thesis
    by (simp add: h256_of_bytes_def h256_bytes_def be_value_def be_bytes_def)
qed

end
