(* ===== verification/Block_Types.thy ===== *)
theory Block_Types
  imports Irys_Prelude
begin

text \<open>
  The block header and the types it is made of (\<open>crates/types/src/block.rs\<close>), restricted to the
  fields the modelled components read: identity and ancestry, difficulty, epoch link, timestamps,
  the ledgers, the VDF record and the token prices. Heights, step numbers and chunk counts are
  \<open>u64\<close> in the source and natural numbers here; release builds of the source check for overflow, so
  a sum that leaves the width is a panic there and never a wrapped value.

  The theory also holds the height arithmetic of the EMA price intervals and the choice of VDF
  seeds, which are methods of the header types.
\<close>

section \<open>Ledger names\<close>

datatype data_ledger = Publish | Submit | OneYear | ThirtyDay

definition ledger_u32 :: "data_ledger \<Rightarrow> nat" where
  "ledger_u32 l = (case l of Publish \<Rightarrow> 0 | Submit \<Rightarrow> 1 | OneYear \<Rightarrow> 10 | ThirtyDay \<Rightarrow> 20)"

definition ledger_from_u32 :: "nat \<Rightarrow> data_ledger option" where
  "ledger_from_u32 v =
     (if v = 0 then Some Publish else if v = 1 then Some Submit
      else if v = 10 then Some OneYear else if v = 20 then Some ThirtyDay else None)"

lemma ledger_from_u32_iff [simp]: "ledger_from_u32 v = Some l \<longleftrightarrow> v = ledger_u32 l"
  by (cases l) (auto simp: ledger_from_u32_def ledger_u32_def)

lemma ledger_from_u32_ledger_u32 [simp]: "ledger_from_u32 (ledger_u32 l) = Some l"
  by simp

lemma ledger_u32_eq_iff [simp]: "ledger_u32 l = ledger_u32 l' \<longleftrightarrow> l = l'"
  by (cases l; cases l') (simp_all add: ledger_u32_def)

definition is_term_ledger :: "data_ledger \<Rightarrow> bool" where
  "is_term_ledger l = (case l of Publish \<Rightarrow> False | _ \<Rightarrow> True)"

text \<open>\<open>SystemLedger::Commitment\<close> is the only system ledger; its number is 0.\<close>

datatype system_ledger = Commitment

definition commitment_ledger_id :: nat where
  "commitment_ledger_id = 0"

section \<open>Headers\<close>

record data_transaction_ledger =
  dtl_ledger_id :: nat
  dtl_tx_root :: h256
  dtl_tx_ids :: "h256 list"
  dtl_total_chunks :: nat
  dtl_expires :: "nat option"
  dtl_required_proof_count :: "nat option"

record system_transaction_ledger =
  stl_ledger_id :: nat
  stl_tx_ids :: "h256 list"

record vdf_limiter_info =
  vdf_output :: h256
  vdf_global_step_number :: nat
  vdf_seed :: h256
  vdf_next_seed :: h256
  vdf_steps :: "h256 list"

record irys_block_header =
  bh_block_hash :: h256
  bh_height :: nat
  bh_diff :: u256
  bh_cumulative_diff :: u256
  bh_solution_hash :: h256
  bh_last_epoch_hash :: h256
  bh_previous_block_hash :: h256
  bh_previous_cumulative_diff :: u256
  bh_last_diff_timestamp :: nat
  bh_timestamp :: nat
  bh_system_ledgers :: "system_transaction_ledger list"
  bh_data_ledgers :: "data_transaction_ledger list"
  bh_vdf_limiter_info :: vdf_limiter_info
  bh_oracle_irys_price :: u256
  bh_ema_irys_price :: u256
  bh_poa_chunk :: "byte list option"

text \<open>
  The transactions of a block body, restricted to what the ledgers, the snapshots and the fee rules
  read, and the sealed block: a header with its transactions, whose type is an argument because the
  block tree never looks inside them. A commitment of version 1 is read through accessors that
  convert its type to the version 2 type, so one record stands for both versions. The bookkeeping
  heights that the Rust headers carry in memory are dropped when a header is stored and are not
  fields here.
\<close>

record data_transaction_header =
  dth_id :: h256
  dth_signer :: address
  dth_data_root :: h256
  dth_data_size :: nat
  dth_term_fee :: u256
  dth_perm_fee :: "u256 option"
  dth_ledger_id :: nat

datatype commitment_type =
    Stake
  | Pledge nat
  | Unpledge nat h256
  | Unstake
  | UpdateRewardAddress address

record commitment_transaction =
  ct_id :: h256
  ct_signer :: address
  ct_commitment_type :: commitment_type
  ct_fee :: nat
  ct_value :: u256

record block_transactions =
  btx_system_txs :: "(system_ledger \<times> commitment_transaction list) list"
  btx_data_txs :: "(data_ledger \<times> data_transaction_header list) list"

record 'b sealed_block =
  sb_header :: irys_block_header
  sb_transactions :: 'b

definition get_ledger_txs ::
  "block_transactions \<Rightarrow> data_ledger \<Rightarrow> data_transaction_header list"
where
  "get_ledger_txs txs l = (case map_of (btx_data_txs txs) l of None \<Rightarrow> [] | Some ts \<Rightarrow> ts)"

definition get_ledger_system_txs ::
  "block_transactions \<Rightarrow> system_ledger \<Rightarrow> commitment_transaction list"
where
  "get_ledger_system_txs txs l = (case map_of (btx_system_txs txs) l of None \<Rightarrow> [] | Some ts \<Rightarrow> ts)"

definition is_genesis :: "irys_block_header \<Rightarrow> bool" where
  "is_genesis b \<longleftrightarrow> bh_height b = 0"

text \<open>Timestamps are milliseconds; hardfork activation compares seconds.\<close>

definition timestamp_secs :: "irys_block_header \<Rightarrow> nat" where
  "timestamp_secs b = bh_timestamp b div 1000"

definition ledger_total_chunks :: "irys_block_header \<Rightarrow> data_ledger \<Rightarrow> nat" where
  "ledger_total_chunks b l =
     (case find (\<lambda>dl. dtl_ledger_id dl = ledger_u32 l) (bh_data_ledgers b) of
        None \<Rightarrow> 0 | Some dl \<Rightarrow> dtl_total_chunks dl)"

definition has_data_ledger :: "irys_block_header \<Rightarrow> data_ledger \<Rightarrow> bool" where
  "has_data_ledger b l \<longleftrightarrow> list_ex (\<lambda>dl. dtl_ledger_id dl = ledger_u32 l) (bh_data_ledgers b)"

definition commitment_tx_ids :: "irys_block_header \<Rightarrow> h256 list" where
  "commitment_tx_ids b =
     (case find (\<lambda>l. stl_ledger_id l = commitment_ledger_id) (bh_system_ledgers b) of
        None \<Rightarrow> [] | Some l \<Rightarrow> stl_tx_ids l)"

definition get_data_ledger_tx_ids_ordered :: "irys_block_header \<Rightarrow> data_ledger \<Rightarrow> h256 list option" where
  "get_data_ledger_tx_ids_ordered b l =
     map_option dtl_tx_ids (find (\<lambda>dl. dtl_ledger_id dl = ledger_u32 l) (bh_data_ledgers b))"

section \<open>Price interval heights\<close>

definition is_ema_recalculation_block :: "nat \<Rightarrow> nat \<Rightarrow> bool" where
  "is_ema_recalculation_block h n = (if h < n * 2 then True else n dvd (h + 1))"

definition prev_ema_ignore_genesis_rules :: "nat \<Rightarrow> nat \<Rightarrow> nat" where
  "prev_ema_ignore_genesis_rules h n =
     (let remainder = (h + 1) mod n in
      if remainder = 0 then h - n else h - remainder)"

definition block_height_to_use_for_price :: "nat \<Rightarrow> nat \<Rightarrow> nat" where
  "block_height_to_use_for_price h n =
     (if h < n * 2 then 0
      else prev_ema_ignore_genesis_rules (prev_ema_ignore_genesis_rules h n) n)"

definition previous_ema_recalculation_block_height :: "nat \<Rightarrow> nat \<Rightarrow> nat" where
  "previous_ema_recalculation_block_height h n =
     (if h < n * 2 then h - 1 else prev_ema_ignore_genesis_rules h n)"

section \<open>VDF seeds\<close>

definition first_step_number :: "vdf_limiter_info \<Rightarrow> nat" where
  "first_step_number v = (vdf_global_step_number v + 1) - length (vdf_steps v)"

definition vdf_reset_step :: "vdf_limiter_info \<Rightarrow> nat \<Rightarrow> nat option" where
  "vdf_reset_step v reset_frequency =
     find (\<lambda>s. s mod reset_frequency = 0)
       [first_step_number v ..< Suc (vdf_global_step_number v)]"

definition calculate_seeds :: "vdf_limiter_info \<Rightarrow> nat \<Rightarrow> irys_block_header \<Rightarrow> h256 \<times> h256" where
  "calculate_seeds v reset_frequency parent =
     (case vdf_reset_step v reset_frequency of
        Some _ \<Rightarrow> (bh_block_hash parent, vdf_next_seed (bh_vdf_limiter_info parent))
      | None \<Rightarrow> (vdf_next_seed (bh_vdf_limiter_info parent), vdf_seed (bh_vdf_limiter_info parent)))"

definition set_seeds :: "vdf_limiter_info \<Rightarrow> nat \<Rightarrow> irys_block_header \<Rightarrow> vdf_limiter_info" where
  "set_seeds v reset_frequency parent =
     (let (next_seed, seed) = calculate_seeds v reset_frequency parent in
      v\<lparr>vdf_next_seed := next_seed, vdf_seed := seed\<rparr>)"

end
