(* ===== verification/Consensus_Config.thy ===== *)
theory Consensus_Config
  imports Block_Types
begin

text \<open>
  The hardfork schedule (\<open>crates/types/src/hardfork_config.rs\<close>) and the parts of the consensus
  configuration the other components read (\<open>crates/types/src/config/consensus.rs\<close>). Timestamps here
  are in seconds. Amounts and percentages are values of \<open>U256\<close>, as natural numbers.
\<close>

section \<open>Hardforks\<close>

record frontier_params =
  fr_number_of_ingress_proofs_total :: nat
  fr_number_of_ingress_proofs_from_assignees :: nat

record aurora =
  au_activation_timestamp :: nat
  au_minimum_commitment_tx_version :: nat

record borealis =
  bo_activation_timestamp :: nat

record cascade =
  ca_activation_timestamp :: nat
  ca_one_year_epoch_length :: nat
  ca_thirty_day_epoch_length :: nat
  ca_annual_cost_per_gb :: nat

record delta =
  de_activation_timestamp :: nat
  de_initial_slots_per_new_ledger :: nat
  de_capacity_chunk_reward_percent :: nat
  de_ingress_proof_reward_pool_percent :: nat

record echo =
  ec_activation_height :: nat

record irys_hardfork_config =
  hf_frontier :: frontier_params
  hf_aurora :: "aurora option"
  hf_borealis :: "borealis option"
  hf_cascade :: "cascade option"
  hf_delta :: "delta option"
  hf_echo :: "echo option"

definition opt_filter :: "('a \<Rightarrow> bool) \<Rightarrow> 'a option \<Rightarrow> 'a option" where
  "opt_filter P x = (case x of None \<Rightarrow> None | Some y \<Rightarrow> if P y then Some y else None)"

lemma opt_filter_Some [simp]: "opt_filter P x = Some y \<longleftrightarrow> x = Some y \<and> P y"
  by (auto simp: opt_filter_def split: option.splits)

definition number_of_ingress_proofs_total_at :: "irys_hardfork_config \<Rightarrow> nat \<Rightarrow> nat" where
  "number_of_ingress_proofs_total_at c timestamp = fr_number_of_ingress_proofs_total (hf_frontier c)"

definition number_of_ingress_proofs_from_assignees_at :: "irys_hardfork_config \<Rightarrow> nat \<Rightarrow> nat" where
  "number_of_ingress_proofs_from_assignees_at c timestamp =
     fr_number_of_ingress_proofs_from_assignees (hf_frontier c)"

definition aurora_at :: "irys_hardfork_config \<Rightarrow> nat \<Rightarrow> aurora option" where
  "aurora_at c timestamp = opt_filter (\<lambda>f. au_activation_timestamp f \<le> timestamp) (hf_aurora c)"

definition cascade_at :: "irys_hardfork_config \<Rightarrow> nat \<Rightarrow> cascade option" where
  "cascade_at c timestamp = opt_filter (\<lambda>f. ca_activation_timestamp f \<le> timestamp) (hf_cascade c)"

definition is_cascade_active_at :: "irys_hardfork_config \<Rightarrow> nat \<Rightarrow> bool" where
  "is_cascade_active_at c timestamp \<longleftrightarrow> cascade_at c timestamp \<noteq> None"

definition is_echo_active_at_height :: "irys_hardfork_config \<Rightarrow> nat \<Rightarrow> bool" where
  "is_echo_active_at_height c height \<longleftrightarrow> opt_filter (\<lambda>f. ec_activation_height f \<le> height) (hf_echo c) \<noteq> None"

text \<open>\<open>Activation\<close> is an option: \<open>Active\<close> with the parameters of the fork, or \<open>Inactive\<close>.\<close>

definition delta_for_block :: "irys_hardfork_config \<Rightarrow> nat \<Rightarrow> delta option" where
  "delta_for_block c timestamp = opt_filter (\<lambda>f. de_activation_timestamp f \<le> timestamp) (hf_delta c)"

definition is_borealis_active_at :: "irys_hardfork_config \<Rightarrow> nat \<Rightarrow> bool" where
  "is_borealis_active_at c timestamp \<longleftrightarrow>
     opt_filter (\<lambda>f. bo_activation_timestamp f \<le> timestamp) (hf_borealis c) \<noteq> None"

definition ledger_absence_expected :: "irys_hardfork_config \<Rightarrow> nat \<Rightarrow> nat \<Rightarrow> bool" where
  "ledger_absence_expected c ledger_id timestamp \<longleftrightarrow>
     (ledger_from_u32 ledger_id = Some OneYear \<or> ledger_from_u32 ledger_id = Some ThirtyDay) \<and>
     \<not> is_cascade_active_at c timestamp"

datatype data_ledger_lookup =
    Present data_transaction_ledger
  | ExpectedAbsent
  | UnexpectedAbsent

definition classify_data_ledger ::
  "irys_hardfork_config \<Rightarrow> irys_block_header \<Rightarrow> nat \<Rightarrow> data_ledger_lookup"
where
  "classify_data_ledger c b ledger_id =
     (case find (\<lambda>dl. dtl_ledger_id dl = ledger_id) (bh_data_ledgers b) of
        Some dl \<Rightarrow> Present dl
      | None \<Rightarrow> if ledger_absence_expected c ledger_id (timestamp_secs b) then ExpectedAbsent
                else UnexpectedAbsent)"

definition is_commitment_version_valid :: "irys_hardfork_config \<Rightarrow> nat \<Rightarrow> nat \<Rightarrow> bool" where
  "is_commitment_version_valid c version timestamp =
     (case aurora_at c timestamp of
        None \<Rightarrow> True
      | Some a \<Rightarrow> au_minimum_commitment_tx_version a \<le> version)"

definition minimum_commitment_version_at :: "irys_hardfork_config \<Rightarrow> nat \<Rightarrow> nat option" where
  "minimum_commitment_version_at c timestamp =
     map_option au_minimum_commitment_tx_version (aurora_at c timestamp)"

definition is_near_commitment_version_change :: "irys_hardfork_config \<Rightarrow> nat \<Rightarrow> nat \<Rightarrow> bool" where
  "is_near_commitment_version_change c timestamp tolerance_millis =
     (case hf_aurora c of
        None \<Rightarrow> False
      | Some a \<Rightarrow>
          let distance_secs = (timestamp - au_activation_timestamp a) + (au_activation_timestamp a - timestamp)
          in distance_secs * 1000 \<le> tolerance_millis)"

definition retain_valid_commitment_versions ::
  "irys_hardfork_config \<Rightarrow> ('t \<Rightarrow> nat) \<Rightarrow> 't list \<Rightarrow> nat \<Rightarrow> 't list"
where
  "retain_valid_commitment_versions c version commitments timestamp =
     (case minimum_commitment_version_at c timestamp of
        None \<Rightarrow> commitments
      | Some min_version \<Rightarrow> filter (\<lambda>tx. min_version \<le> version tx) commitments)"

lemma retain_valid_eq:
  "retain_valid_commitment_versions c version txs ts =
     filter (\<lambda>tx. is_commitment_version_valid c (version tx) ts) txs"
  by (simp add: retain_valid_commitment_versions_def is_commitment_version_valid_def
      minimum_commitment_version_at_def split: option.splits)

lemma classify_present_iff:
  "classify_data_ledger c b i = Present dl \<Longrightarrow> dl \<in> set (bh_data_ledgers b) \<and> dtl_ledger_id dl = i"
  by (auto simp: classify_data_ledger_def find_Some_iff split: option.splits if_splits)

section \<open>Consensus parameters\<close>

record consensus_config =
  cc_chunk_size :: nat
  cc_block_time :: nat
  cc_num_blocks_in_epoch :: nat
  cc_submit_ledger_epoch_length :: nat
  cc_publish_ledger_epoch_length :: "nat option"
  cc_num_capacity_partitions :: "nat option"
  cc_num_chunks_in_partition :: nat
  cc_num_partitions_per_slot :: nat
  cc_capacity_scalar :: nat
  cc_price_adjustment_interval :: nat
  cc_annual_cost_per_gb :: nat
  cc_decay_rate :: nat
  cc_safe_minimum_number_of_years :: nat
  cc_minimum_term_fee_usd :: nat
  cc_immediate_tx_inclusion_reward_percent :: nat
  cc_hardforks :: irys_hardfork_config

definition SECONDS_PER_YEAR :: nat where
  "SECONDS_PER_YEAR = 365 * 24 * 60 * 60"

text \<open>
  \<open>None\<close> is the panic of the overflow check in the product, or of a division by zero, which
  \<open>Config::validate\<close> excludes.
\<close>

definition epochs_per_year :: "consensus_config \<Rightarrow> nat option" where
  "epochs_per_year c =
     (let seconds_per_epoch = cc_block_time c * cc_num_blocks_in_epoch c in
      if seconds_per_epoch < 2 ^ 64 \<and> seconds_per_epoch \<noteq> 0
      then Some (SECONDS_PER_YEAR div seconds_per_epoch) else None)"

definition effective_annual_cost_per_gb :: "consensus_config \<Rightarrow> nat \<Rightarrow> nat" where
  "effective_annual_cost_per_gb c timestamp =
     (case cascade_at (cc_hardforks c) timestamp of
        Some ca \<Rightarrow> ca_annual_cost_per_gb ca
      | None \<Rightarrow> cc_annual_cost_per_gb c)"

end
