(* ===== verification/Storage_Pricing.thy ===== *)
theory Storage_Pricing
  imports Consensus_Config
begin

text \<open>
  Fixed-point arithmetic and storage prices (\<open>crates/types/src/storage_pricing.rs\<close>). A \<open>U256\<close> is a
  natural number below \<open>2 ^ 256\<close> and every checked operation of the source is a test against that
  bound; the phantom type parameters of \<open>Amount\<close> carry no data. The cost per chunk and epoch is the
  result of a division of decimals in a library, so it is an argument of the fee functions.
\<close>

section \<open>Checked arithmetic\<close>

datatype math_error =
    AddOverflow
  | SubUnderflow
  | MulOverflow
  | DivisionByZero
  | AlphaOutOfRange
  | LnOfZero
  | LnBelowOne
  | TokenPriceNotPositive
  | DecimalNegative
  | DecimalScaleTooLarge
  | RustPanic
  | LoopDiverges

abbreviation U256_BOUND :: nat where
  "U256_BOUND \<equiv> 2 ^ 256"

definition safe_add :: "nat \<Rightarrow> nat \<Rightarrow> math_error + nat" where
  "safe_add a b = (if a + b < U256_BOUND then Inr (a + b) else Inl AddOverflow)"

definition safe_sub :: "nat \<Rightarrow> nat \<Rightarrow> math_error + nat" where
  "safe_sub a b = (if b \<le> a then Inr (a - b) else Inl SubUnderflow)"

definition safe_mul :: "nat \<Rightarrow> nat \<Rightarrow> math_error + nat" where
  "safe_mul a b = (if a * b < U256_BOUND then Inr (a * b) else Inl MulOverflow)"

definition safe_div :: "nat \<Rightarrow> nat \<Rightarrow> math_error + nat" where
  "safe_div a b = (if b = 0 then Inl DivisionByZero else Inr (a div b))"

definition safe_mod :: "nat \<Rightarrow> nat \<Rightarrow> math_error + nat" where
  "safe_mod a b = (if b = 0 then Inl DivisionByZero else Inr (a mod b))"

definition mul_div :: "nat \<Rightarrow> nat \<Rightarrow> nat \<Rightarrow> math_error + nat" where
  "mul_div a b c = rbind (safe_mul a b) (\<lambda>prod. safe_div prod c)"

definition saturating_add :: "nat \<Rightarrow> nat \<Rightarrow> nat" where
  "saturating_add a b = min (a + b) (U256_BOUND - 1)"

definition saturating_mul :: "nat \<Rightarrow> nat \<Rightarrow> nat" where
  "saturating_mul a b = min (a * b) (U256_BOUND - 1)"

lemma safe_simps:
  "a + b < U256_BOUND \<Longrightarrow> safe_add a b = Inr (a + b)"
  "b \<le> a \<Longrightarrow> safe_sub a b = Inr (a - b)"
  "a * b < U256_BOUND \<Longrightarrow> safe_mul a b = Inr (a * b)"
  "b \<noteq> 0 \<Longrightarrow> safe_div a b = Inr (a div b)"
  "a * b < U256_BOUND \<Longrightarrow> c \<noteq> 0 \<Longrightarrow> mul_div a b c = Inr (a * b div c)"
  by (simp_all add: safe_add_def safe_sub_def safe_mul_def safe_div_def mul_div_def)

lemma safe_iff [result_simps]:
  "safe_add a b = Inr c \<longleftrightarrow> c = a + b \<and> a + b < U256_BOUND"
  "safe_sub a b = Inr c \<longleftrightarrow> c = a - b \<and> b \<le> a"
  "safe_mul a b = Inr c \<longleftrightarrow> c = a * b \<and> a * b < U256_BOUND"
  "safe_div a b = Inr c \<longleftrightarrow> c = a div b \<and> b \<noteq> 0"
  "mul_div a b d = Inr c \<longleftrightarrow> c = a * b div d \<and> d \<noteq> 0 \<and> a * b < U256_BOUND"
  by (auto simp: safe_add_def safe_sub_def safe_mul_def safe_div_def mul_div_def)

section \<open>Scales and series\<close>

definition TOKEN_SCALE :: nat where "TOKEN_SCALE = 1000000000000000000"
definition PRECISION_SCALE :: nat where "PRECISION_SCALE = 1000000000000"
definition LN2_FP18 :: nat where "LN2_FP18 = 693147180559945309"
definition TAYLOR_TERMS :: nat where "TAYLOR_TERMS = 30"

text \<open>A \<open>Decimal\<close> is a mantissa and a number of decimal places; \<open>u128\<close> powers above 38 overflow.\<close>

definition decimal_to_u256 :: "int \<Rightarrow> nat \<Rightarrow> nat \<Rightarrow> math_error + nat" where
  "decimal_to_u256 mantissa dec_scale scale =
     rbind (ensure (0 \<le> mantissa) DecimalNegative) (\<lambda>_.
     let unscaled = nat \<bar>mantissa\<bar> in
     rbind (ensure (10 ^ dec_scale < (2 :: nat) ^ 128) DecimalScaleTooLarge) (\<lambda>_.
     let divisor = 10 ^ dec_scale in
     rbind (safe_div divisor 2) (\<lambda>half_divisor.
     rbind (safe_mul unscaled scale) (\<lambda>numerator.
     rbind (safe_add numerator half_divisor) (\<lambda>s. safe_div s divisor)))))"

fun precision_pow_loop :: "nat \<Rightarrow> nat \<Rightarrow> nat \<Rightarrow> math_error + nat" where
  "precision_pow_loop result base exp =
     (if exp = 0 then Inr result
      else rbind (if odd exp then mul_div result base PRECISION_SCALE else Inr result) (\<lambda>result'.
           rbind (mul_div base base PRECISION_SCALE) (\<lambda>base'.
           precision_pow_loop result' base' (exp div 2))))"

declare precision_pow_loop.simps [simp del]

definition precision_pow :: "nat \<Rightarrow> nat \<Rightarrow> math_error + nat" where
  "precision_pow base exp = precision_pow_loop PRECISION_SCALE base exp"

definition exp_fp18 :: "nat \<Rightarrow> math_error + nat" where
  "exp_fp18 x =
     rbind (try_fold (\<lambda>i (term, sum).
              rbind (mul_div term x TOKEN_SCALE) (\<lambda>t.
              rbind (safe_div t i) (\<lambda>t.
              rbind (safe_add sum t) (\<lambda>s. Inr (t, s)))))
            [1..<Suc TAYLOR_TERMS] (TOKEN_SCALE, TOKEN_SCALE)) (\<lambda>(_, sum). Inr sum)"

definition exp_neg_fp18 :: "nat \<Rightarrow> math_error + nat" where
  "exp_neg_fp18 x =
     rbind (try_fold (\<lambda>i (term, sum).
              rbind (mul_div term x TOKEN_SCALE) (\<lambda>t.
              rbind (safe_div t i) (\<lambda>t.
              rbind (if odd i then safe_sub sum t else safe_add sum t) (\<lambda>s. Inr (t, s)))))
            [1..<Suc TAYLOR_TERMS] (TOKEN_SCALE, TOKEN_SCALE)) (\<lambda>(_, sum). Inr sum)"

text \<open>
  The two normalisation loops of \<open>ln_fp18\<close>. The first halves; the second doubles and would not end
  for zero, so it has fuel for the 60 doublings that lead from 1 past the scale.
\<close>

function ln_halve :: "nat \<Rightarrow> nat \<Rightarrow> nat \<times> nat" where
  "ln_halve m k = (if 2 * TOKEN_SCALE \<le> m then ln_halve (m div 2) (k + 1) else (m, k))"
  by auto
termination
  by (relation "measure fst") (auto simp: TOKEN_SCALE_def)

declare ln_halve.simps [simp del]

fun ln_double :: "nat \<Rightarrow> nat \<Rightarrow> nat \<Rightarrow> math_error + nat \<times> nat" where
  "ln_double 0 m k = (if m < TOKEN_SCALE then Inl LoopDiverges else Inr (m, k))"
| "ln_double (Suc n) m k =
     (if m < TOKEN_SCALE then rbind (safe_mul m 2) (\<lambda>m'. ln_double n m' (k - 1)) else Inr (m, k))"

definition ln_fp18 :: "nat \<Rightarrow> math_error + nat" where
  "ln_fp18 x =
     rbind (ensure (x \<noteq> 0) LnOfZero) (\<lambda>_.
     rbind (ensure (TOKEN_SCALE \<le> x) LnBelowOne) (\<lambda>_.
     rbind (case ln_halve x 0 of (m, k) \<Rightarrow> ln_double 60 m k) (\<lambda>(m, k).
     rbind (safe_sub m TOKEN_SCALE) (\<lambda>y.
     rbind (try_fold (\<lambda>i (y_power, sum).
              rbind (safe_div y_power i) (\<lambda>t.
              rbind (if odd i then safe_add sum t else safe_sub sum t) (\<lambda>s.
              rbind (mul_div y_power y TOKEN_SCALE) (\<lambda>p. Inr (p, s)))))
            [1..<Suc TAYLOR_TERMS] (y, 0)) (\<lambda>(_, sum).
     rbind (safe_mul k LN2_FP18) (\<lambda>k_ln2. safe_add k_ln2 sum))))))"

section \<open>Prices\<close>

definition apply_pledge_decay :: "nat \<Rightarrow> nat \<Rightarrow> nat \<Rightarrow> math_error + nat" where
  "apply_pledge_decay base_fee current_pledge_count decay_rate =
     rbind (ensure (current_pledge_count + 1 < 2 ^ 64) RustPanic) (\<lambda>_.
     rbind (safe_mul (current_pledge_count + 1) TOKEN_SCALE) (\<lambda>count_fp18.
     rbind (ln_fp18 count_fp18) (\<lambda>ln_count.
     rbind (mul_div decay_rate TOKEN_SCALE PRECISION_SCALE) (\<lambda>decay_rate_fp18.
     rbind (mul_div decay_rate_fp18 ln_count TOKEN_SCALE) (\<lambda>exponent.
     rbind (exp_fp18 exponent) (\<lambda>divisor.
     mul_div base_fee TOKEN_SCALE divisor))))))"

definition cost_per_replica :: "nat \<Rightarrow> nat \<Rightarrow> nat \<Rightarrow> math_error + nat" where
  "cost_per_replica cost epochs decay_rate =
     (if decay_rate = 0 then safe_mul cost epochs
      else rbind (safe_sub PRECISION_SCALE decay_rate) (\<lambda>one_minus_r.
           rbind (precision_pow one_minus_r epochs) (\<lambda>pow_val.
           rbind (safe_sub PRECISION_SCALE pow_val) (\<lambda>numerator.
           rbind (mul_div numerator PRECISION_SCALE decay_rate) (\<lambda>fraction_ps.
           rbind (mul_div fraction_ps TOKEN_SCALE PRECISION_SCALE) (\<lambda>fraction_1e18.
           mul_div cost fraction_1e18 TOKEN_SCALE))))))"

definition replica_count :: "nat \<Rightarrow> nat \<Rightarrow> math_error + nat" where
  "replica_count cost replicas = safe_mul cost replicas"

definition base_network_fee :: "nat \<Rightarrow> nat \<Rightarrow> nat \<Rightarrow> nat \<Rightarrow> math_error + nat" where
  "base_network_fee cost bytes_to_store chunk_size irys_token_price =
     rbind (ensure (irys_token_price \<noteq> 0) TokenPriceNotPositive) (\<lambda>_.
     rbind (safe_sub chunk_size 1) (\<lambda>c1.
     rbind (safe_add bytes_to_store c1) (\<lambda>s.
     rbind (safe_div s chunk_size) (\<lambda>num_chunks.
     rbind (safe_mul cost num_chunks) (\<lambda>usd_fee.
     mul_div usd_fee TOKEN_SCALE irys_token_price)))))"

definition add_multiplier :: "nat \<Rightarrow> nat \<Rightarrow> math_error + nat" where
  "add_multiplier amount percentage =
     rbind (safe_add PRECISION_SCALE percentage) (\<lambda>one_plus. mul_div amount one_plus PRECISION_SCALE)"

definition sub_multiplier :: "nat \<Rightarrow> nat \<Rightarrow> math_error + nat" where
  "sub_multiplier amount percentage =
     rbind (safe_sub PRECISION_SCALE percentage) (\<lambda>one_minus. mul_div amount one_minus PRECISION_SCALE)"

definition calculate_ema :: "nat \<Rightarrow> nat \<Rightarrow> nat \<Rightarrow> math_error + nat" where
  "calculate_ema price total_past_blocks previous_ema =
     rbind (safe_add total_past_blocks 1) (\<lambda>denom.
     rbind (safe_mul 2 TOKEN_SCALE) (\<lambda>two_scale.
     rbind (safe_div two_scale denom) (\<lambda>alpha.
     rbind (ensure (0 < alpha \<and> alpha \<le> TOKEN_SCALE) AlphaOutOfRange) (\<lambda>_.
     rbind (safe_sub TOKEN_SCALE alpha) (\<lambda>one_minus_alpha.
     rbind (mul_div price alpha TOKEN_SCALE) (\<lambda>scaled_current.
     rbind (mul_div previous_ema one_minus_alpha TOKEN_SCALE) (\<lambda>scaled_last.
     safe_add scaled_current scaled_last)))))))"

definition calculate_term_fee ::
  "(nat \<Rightarrow> math_error + nat) \<Rightarrow> nat \<Rightarrow> nat \<Rightarrow> consensus_config \<Rightarrow> nat \<Rightarrow> nat \<Rightarrow> nat \<Rightarrow> math_error + nat"
where
  "calculate_term_fee cost_per_chunk_per_epoch_at bytes_to_store epochs_for_storage config replicas
     ema_price timestamp =
     rbind (cost_per_chunk_per_epoch_at timestamp) (\<lambda>cost_per_epoch.
     rbind (cost_per_replica cost_per_epoch epochs_for_storage 0) (\<lambda>cost_duration.
     rbind (replica_count cost_duration replicas) (\<lambda>cost_with_replicas.
     rbind (base_network_fee cost_with_replicas bytes_to_store (cc_chunk_size config) ema_price) (\<lambda>base_fee.
     rbind (base_network_fee (cc_minimum_term_fee_usd config) (cc_chunk_size config)
              (cc_chunk_size config) ema_price) (\<lambda>min_fee_irys.
     Inr (if base_fee < min_fee_irys then min_fee_irys else base_fee))))))"

definition calculate_term_fee_from_config ::
  "(nat \<Rightarrow> math_error + nat) \<Rightarrow> nat \<Rightarrow> consensus_config \<Rightarrow> nat \<Rightarrow> nat \<Rightarrow> nat \<Rightarrow> math_error + nat"
where
  "calculate_term_fee_from_config cost_per_chunk_per_epoch_at bytes_to_store config replicas ema_price timestamp =
     calculate_term_fee cost_per_chunk_per_epoch_at bytes_to_store (cc_submit_ledger_epoch_length config)
       config replicas ema_price timestamp"

definition calculate_perm_fee_from_config ::
  "(nat \<Rightarrow> math_error + nat) \<Rightarrow> nat \<Rightarrow> consensus_config \<Rightarrow> nat \<Rightarrow> nat \<Rightarrow> nat \<Rightarrow> nat \<Rightarrow> math_error + nat"
where
  "calculate_perm_fee_from_config cost_per_chunk_per_epoch_at bytes_to_store config replicas
     ingress_proof_reward ema_price timestamp =
     rbind (cost_per_chunk_per_epoch_at timestamp) (\<lambda>cost_per_epoch.
     rbind (ok_or (epochs_per_year config) RustPanic) (\<lambda>per_year.
     rbind (ensure (cc_safe_minimum_number_of_years config * per_year < 2 ^ 64) RustPanic) (\<lambda>_.
     let epochs_for_storage = cc_safe_minimum_number_of_years config * per_year in
     rbind (safe_div (cc_decay_rate config) per_year) (\<lambda>decay_rate_per_epoch.
     rbind (cost_per_replica cost_per_epoch epochs_for_storage decay_rate_per_epoch) (\<lambda>cost_duration.
     rbind (replica_count cost_duration replicas) (\<lambda>cost_adjusted.
     rbind (base_network_fee cost_adjusted bytes_to_store (cc_chunk_size config) ema_price) (\<lambda>fee.
     Inr (saturating_add fee ingress_proof_reward))))))))"

definition ingress_proof_reward_pool_at :: "consensus_config \<Rightarrow> nat \<Rightarrow> nat \<Rightarrow> math_error + nat" where
  "ingress_proof_reward_pool_at config timestamp term_fee =
     (case delta_for_block (cc_hardforks config) timestamp of
        Some delta \<Rightarrow> mul_div term_fee (de_ingress_proof_reward_pool_percent delta) PRECISION_SCALE
      | None \<Rightarrow>
          rbind (mul_div term_fee (cc_immediate_tx_inclusion_reward_percent config) PRECISION_SCALE) (\<lambda>share.
          Inr (saturating_mul share (number_of_ingress_proofs_total_at (cc_hardforks config) timestamp))))"

section \<open>Lemmas\<close>

lemma div_add_le: "(a :: nat) div c + b div c \<le> (a + b) div c"
  unfolding div_add1_eq [of a b c] by simp

lemma div_add_Suc_ge: "0 < c \<Longrightarrow> ((a :: nat) + b) div c \<le> a div c + b div c + 1"
proof -
  assume c: "0 < c"
  then have "a mod c + b mod c < 2 * c" using mod_less_divisor [of c a] mod_less_divisor [of c b] by linarith
  then have "(a mod c + b mod c) div c < 2" using c by (simp add: less_mult_imp_div_less)
  then show ?thesis unfolding div_add1_eq [of a b c] by simp
qed

lemma scale_pos [simp]: "0 < TOKEN_SCALE" "0 < PRECISION_SCALE" "TOKEN_SCALE \<noteq> 0" "PRECISION_SCALE \<noteq> 0"
  by (simp_all add: TOKEN_SCALE_def PRECISION_SCALE_def)

lemma precision_pow_loop_zero [simp]: "precision_pow_loop result base 0 = Inr result"
  by (simp add: precision_pow_loop.simps)

text \<open>
  The power never exceeds one, and never the true power: rounding is downwards in every step.
\<close>

lemma square_step:
  assumes "base' * s \<le> base * base" and "r * s ^ k \<le> result * base' ^ k"
  shows "r * s ^ (2 * k) \<le> result * (base :: nat) ^ (2 * k)"
proof -
  have "r * s ^ (2 * k) = (r * s ^ k) * s ^ k"
    by (simp add: mult_2 power_add mult.assoc)
  also have "\<dots> \<le> (result * base' ^ k) * s ^ k" using assms(2) by (rule mult_right_mono) simp
  also have "\<dots> = result * (base' * s) ^ k" by (simp add: power_mult_distrib)
  also have "\<dots> \<le> result * (base * base) ^ k"
    using power_mono [OF assms(1)] by (rule mult_left_mono) simp_all
  also have "(base * base) ^ k = base ^ (2 * k)" by (simp add: power_mult power2_eq_square)
  finally show ?thesis .
qed

lemma precision_pow_loop_ok:
  assumes "result \<le> PRECISION_SCALE" and "base \<le> PRECISION_SCALE"
  shows "\<exists>r. precision_pow_loop result base exp = Inr r \<and> r \<le> result \<and>
    r * PRECISION_SCALE ^ exp \<le> result * base ^ exp"
  using assms
proof (induction exp arbitrary: result base rule: less_induct)
  case (less exp)
  let ?s = "PRECISION_SCALE"
  show ?case
  proof (cases "exp = 0")
    case False
    define k where "k = exp div 2"
    define base' where "base' = base * base div ?s"
    define result' where "result' = (if odd exp then result * base div ?s else result)"
    have small: "x * y < U256_BOUND" if "x \<le> ?s" "y \<le> ?s" for x y
    proof -
      have "x * y \<le> ?s * ?s" using that by (rule mult_le_mono)
      then show ?thesis by (simp add: PRECISION_SCALE_def)
    qed
    have down: "x * y div ?s \<le> x" if "y \<le> ?s" for x y
    proof -
      have "x * y div ?s \<le> x * ?s div ?s" using that by (intro div_le_mono mult_le_mono) simp_all
      then show ?thesis by simp
    qed
    have b': "base' \<le> ?s" "base' * ?s \<le> base * base"
      using down [OF less.prems(2), of base] less.prems(2) unfolding base'_def by simp_all
    have r': "result' \<le> result" using down [OF less.prems(2), of result] by (simp add: result'_def)
    have step: "precision_pow_loop result base exp = precision_pow_loop result' base' k"
      using False small [OF less.prems] small [OF less.prems(2,2)]
      by (simp add: precision_pow_loop.simps [of result base exp] safe_simps result'_def base'_def k_def)
    have "k < exp" using False by (simp add: k_def)
    from less.IH [OF this _ b'(1), of result'] r' less.prems(1)
    obtain r where r: "precision_pow_loop result' base' k = Inr r" "r \<le> result'"
      and bound: "r * ?s ^ k \<le> result' * base' ^ k" by auto
    have "r * ?s ^ exp \<le> result * base ^ exp"
    proof (cases "odd exp")
      case True
      then have e: "exp = Suc (2 * k)" by (simp add: k_def)
      have "r * ?s ^ exp = r * ?s ^ (2 * k) * ?s" by (simp add: e)
      also have "\<dots> \<le> result' * base ^ (2 * k) * ?s"
        using square_step [OF b'(2) bound] by (rule mult_right_mono) simp
      also have "\<dots> = (result' * ?s) * base ^ (2 * k)" by simp
      also have "\<dots> \<le> (result * base) * base ^ (2 * k)"
        using True by (intro mult_right_mono) (simp_all add: result'_def)
      also have "\<dots> = result * base ^ exp" by (simp add: e)
      finally show ?thesis .
    next
      case False
      then have "exp = 2 * k" "result' = result" by (simp_all add: k_def result'_def)
      then show ?thesis using square_step [OF b'(2) bound] by simp
    qed
    then show ?thesis using step r r' by auto
  qed simp
qed

lemma precision_pow_ok:
  assumes "base \<le> PRECISION_SCALE"
  shows "\<exists>r. precision_pow base exp = Inr r \<and> r \<le> PRECISION_SCALE \<and>
    r * PRECISION_SCALE ^ exp \<le> PRECISION_SCALE * base ^ exp"
  unfolding precision_pow_def using precision_pow_loop_ok [OF order_refl assms] by blast

lemma mul_div_le: "mul_div a b c = Inr v \<Longrightarrow> v * c \<le> a * b"
  by (auto simp: safe_iff)

lemma base_network_fee_eq:
  assumes "base_network_fee cost bytes c price = Inr fee"
  shows "fee = cost * ((bytes + (c - 1)) div c) * TOKEN_SCALE div price" and "0 < c" and "0 < price"
  using assms by (auto simp: base_network_fee_def rbind_Inr_iff safe_iff)

lemma base_network_fee_mono:
  assumes "base_network_fee cost bytes c price = Inr fee" and "base_network_fee cost bytes' c price = Inr fee'"
    and "bytes \<le> bytes'"
  shows "fee \<le> fee'"
proof -
  have "(bytes + (c - 1)) div c \<le> (bytes' + (c - 1)) div c"
    using assms(3) by (intro div_le_mono) simp
  then have "cost * ((bytes + (c - 1)) div c) * TOKEN_SCALE \<le> cost * ((bytes' + (c - 1)) div c) * TOKEN_SCALE"
    by simp
  then show ?thesis
    unfolding base_network_fee_eq(1) [OF assms(1)] base_network_fee_eq(1) [OF assms(2)]
    by (rule div_le_mono)
qed

lemma cost_per_replica_ok:
  assumes r: "0 < r" "r \<le> PRECISION_SCALE" and cost: "cost < 2 ^ 156"
  shows "\<exists>v. cost_per_replica cost epochs r = Inr v \<and> v * r \<le> cost * PRECISION_SCALE"
proof -
  let ?P = PRECISION_SCALE and ?T = TOKEN_SCALE
  obtain pw where pw: "precision_pow (?P - r) epochs = Inr pw" "pw \<le> ?P"
    using precision_pow_ok [of "?P - r" epochs] by auto
  define f where "f = (?P - pw) * ?P div r"
  define f18 where "f18 = f * ?T div ?P"
  define v where "v = cost * f18 div ?T"
  have n: "(?P - pw) * ?P \<le> ?P * ?P" by simp
  have f: "f * r \<le> ?P * ?P" using n unfolding f_def by (rule order_trans [OF div_times_less_eq_dividend])
  have "f \<le> f * r" using r(1) by simp
  then have fP: "f \<le> ?P * ?P" using f by (rule order_trans)
  have f18: "f18 * ?P \<le> f * ?T" unfolding f18_def by (rule div_times_less_eq_dividend)
  have "f18 * ?P \<le> ?P * ?T * ?P" using order_trans [OF f18 mult_le_mono1 [OF fP]] by (simp add: ac_simps)
  then have f18P: "f18 \<le> ?P * ?T" by (simp only: mult_le_cancel2) simp
  have v: "v * ?T \<le> cost * f18" unfolding v_def by (rule div_times_less_eq_dividend)
  have bounds: "(?P - pw) * ?P < U256_BOUND" "f * ?T < U256_BOUND" "cost * f18 < U256_BOUND"
  proof -
    have "?P * ?P < U256_BOUND" by (simp add: PRECISION_SCALE_def)
    with n show "(?P - pw) * ?P < U256_BOUND" by (rule le_less_trans)
    have "?P * ?P * ?T < U256_BOUND" by (simp add: PRECISION_SCALE_def TOKEN_SCALE_def)
    with mult_le_mono1 [OF fP, of ?T] show "f * ?T < U256_BOUND" by (rule le_less_trans)
    have "cost * f18 \<le> 2 ^ 156 * (?P * ?T)" using cost f18P by (intro mult_le_mono) simp_all
    also have "\<dots> < U256_BOUND" by (simp add: PRECISION_SCALE_def TOKEN_SCALE_def)
    finally show "cost * f18 < U256_BOUND" .
  qed
  have "cost_per_replica cost epochs r = Inr v"
    using r pw bounds by (simp add: cost_per_replica_def safe_simps f_def f18_def v_def)
  moreover have "v * r \<le> cost * ?P"
  proof -
    have "(v * r) * (?T * ?P) = (v * ?T) * (?P * r)" by (simp add: ac_simps)
    also have "\<dots> \<le> (cost * f18) * (?P * r)" using v by (rule mult_le_mono1)
    also have "\<dots> = cost * r * (f18 * ?P)" by (simp add: ac_simps)
    also have "\<dots> \<le> cost * r * (f * ?T)" using f18 by (rule mult_le_mono2)
    also have "\<dots> = cost * ?T * (f * r)" by (simp add: ac_simps)
    also have "\<dots> \<le> cost * ?T * (?P * ?P)" using f by (rule mult_le_mono2)
    also have "\<dots> = (cost * ?P) * (?T * ?P)" by (simp add: ac_simps)
    finally show ?thesis by (simp only: mult_le_cancel2) simp
  qed
  ultimately show ?thesis by blast
qed

section \<open>Properties\<close>



text \<open>
  Exponentiation by squaring. For a base of at most one the power is always computed, is at
  most one and never exceeds the exact power: with everything scaled by \<open>PRECISION_SCALE\<close>, the
  rounding of every step is downwards.
\<close>

theorem precision_pow_below_exact:
  assumes "base \<le> PRECISION_SCALE"
  shows "\<exists>r. precision_pow base exp = Inr r \<and> r \<le> PRECISION_SCALE \<and>
    r * PRECISION_SCALE ^ exp \<le> PRECISION_SCALE * base ^ exp"
  using precision_pow_ok [OF assms] .

theorem precision_pow_below_exact_witness:
  "\<exists>r. precision_pow 990000000000 73 = Inr r \<and> r \<le> PRECISION_SCALE"
proof -
  have "990000000000 \<le> PRECISION_SCALE" by (simp add: PRECISION_SCALE_def)
  from precision_pow_below_exact [OF this, of 73] show ?thesis by blast
qed



text \<open>
  Term fees. A fee that is returned is at least the configured minimum converted at the same
  price, and storing more bytes for the same time never costs less.
\<close>

theorem term_fee_monotone:
  assumes fee: "calculate_term_fee cost_at bytes epochs config replicas price ts = Inr fee"
    and fee': "calculate_term_fee cost_at bytes' epochs config replicas price ts = Inr fee'"
    and le: "bytes \<le> bytes'"
  shows "fee \<le> fee' \<and>
    (\<exists>m. base_network_fee (cc_minimum_term_fee_usd config) (cc_chunk_size config) (cc_chunk_size config) price =
       Inr m \<and> m \<le> fee)"
proof -
  obtain cst m b where c: "base_network_fee cst bytes (cc_chunk_size config) price = Inr b"
    "base_network_fee (cc_minimum_term_fee_usd config) (cc_chunk_size config) (cc_chunk_size config) price = Inr m"
    "fee = (if b < m then m else b)"
    and cst: "\<And>cst'. rbind (cost_at ts) (\<lambda>c. rbind (cost_per_replica c epochs 0) (\<lambda>d. replica_count d replicas)) = Inr cst' \<Longrightarrow> cst' = cst"
    using fee by (auto simp: calculate_term_fee_def rbind_Inr_iff)
  obtain cst' m' b' where c': "base_network_fee cst' bytes' (cc_chunk_size config) price = Inr b'"
    "base_network_fee (cc_minimum_term_fee_usd config) (cc_chunk_size config) (cc_chunk_size config) price = Inr m'"
    "fee' = (if b' < m' then m' else b')"
    "rbind (cost_at ts) (\<lambda>c. rbind (cost_per_replica c epochs 0) (\<lambda>d. replica_count d replicas)) = Inr cst'"
    using fee' by (auto simp: calculate_term_fee_def rbind_Inr_iff)
  have "cst' = cst" by (rule cst [OF c'(4)])
  then have "b \<le> b'" using base_network_fee_mono [OF c(1) _ le] c'(1) by blast
  then show ?thesis using c c' by auto
qed

definition ex_config :: consensus_config where
  "ex_config =
     \<lparr>cc_chunk_size = 262144, cc_block_time = 12, cc_num_blocks_in_epoch = 7200,
      cc_submit_ledger_epoch_length = 5, cc_publish_ledger_epoch_length = None,
      cc_num_capacity_partitions = None, cc_num_chunks_in_partition = 75534400, cc_num_partitions_per_slot = 10,
      cc_capacity_scalar = 100, cc_price_adjustment_interval = 10,
      cc_annual_cost_per_gb = 10000000000000000,
      cc_decay_rate = 10000000000, cc_safe_minimum_number_of_years = 200,
      cc_minimum_term_fee_usd = 10000000000000000, cc_immediate_tx_inclusion_reward_percent = 50000000000,
      cc_hardforks = \<lparr>hf_frontier = \<lparr>fr_number_of_ingress_proofs_total = 10,
          fr_number_of_ingress_proofs_from_assignees = 0\<rparr>,
        hf_aurora = None, hf_borealis = None, hf_cascade = None, hf_delta = None, hf_echo = None\<rparr>\<rparr>"

theorem term_fee_monotone_witness:
  "calculate_term_fee (\<lambda>_. Inr 6700000000) 1000000 5 ex_config 10 1000000000000000000 0 =
     Inr 10000000000000000 \<and>
   calculate_term_fee (\<lambda>_. Inr 6700000000) 262144000000 5 ex_config 10 1000000000000000000 0 =
     Inr 335000000000000000 \<and> (10000000000000000 :: nat) \<le> 335000000000000000"
proof -
  have 1: "calculate_term_fee (\<lambda>_. Inr 6700000000) 1000000 5 ex_config 10 1000000000000000000 0 = Inr 10000000000000000"
    by (simp add: calculate_term_fee_def cost_per_replica_def replica_count_def base_network_fee_def
        ensure_def safe_simps ex_config_def TOKEN_SCALE_def)
  have 2: "calculate_term_fee (\<lambda>_. Inr 6700000000) 262144000000 5 ex_config 10 1000000000000000000 0 =
      Inr 335000000000000000"
    by (simp add: calculate_term_fee_def cost_per_replica_def replica_count_def base_network_fee_def
        ensure_def safe_simps ex_config_def TOKEN_SCALE_def)
  from term_fee_monotone [OF 1 2] 1 2 show ?thesis by simp
qed

end
