(* ===== verification/Block_Tree.thy ===== *)
theory Block_Tree
  imports Block_Types
begin

text \<open>
  The block tree (\<open>crates/domain/src/models/block_tree.rs\<close>): the in-memory forest of recent blocks
  from which the node derives its canonical chain. This theory holds the state and the operations;
  the theories that follow prove what they keep.

  The state is the record \<open>block_tree\<close>. \<open>blocks\<close> is the \<open>HashMap\<close> of block metadata, \<open>solutions\<close> and
  \<open>height_index\<close> are the two indices, \<open>longest_chain_cache\<close> is the cached canonical chain. The bodies
  of blocks and the three snapshots of a block are payload that the tree stores and returns; their
  types are parameters. Log output is not modelled, and with it the removal reason.

  A method that changes the tree and returns a \<open>Result\<close> is a function to a pair of the result and
  the tree, since the Rust method may have changed the tree before it fails.

  Loops along parent links end in Rust only when they leave the tree or meet a block that stops
  them. They are given as much fuel as the tree has blocks: a longer walk meets a block twice, and
  since each step depends only on the current block, such a walk never ends. Running out of fuel is
  the result \<open>Diverges\<close>, and \<open>Panic\<close> is a failed \<open>expect\<close>.
\<close>

section \<open>State\<close>

datatype block_state = Unknown | ValidationScheduled | ValidBlock

datatype chain_state = Onchain | Validated block_state | NotOnchain block_state

fun is_validated :: "chain_state \<Rightarrow> bool" where
  "is_validated (Validated _) = True"
| "is_validated _ = False"

record ('b, 'e, 'c, 'm) block_metadata =
  bm_block :: "'b sealed_block"
  bm_chain_state :: chain_state
  bm_timestamp :: nat
  bm_children :: "h256 list"
  bm_epoch_snapshot :: 'e
  bm_commitment_snapshot :: 'c
  bm_ema_snapshot :: 'm
  bm_insertion_sequence :: nat

record ('b, 'e, 'c, 'm) block_tree =
  blocks :: "(h256 \<times> ('b, 'e, 'c, 'm) block_metadata) list"
  solutions :: "(h256 \<times> h256 list) list"
  tip :: h256
  max_cumulative_difficulty :: "u256 \<times> h256"
  next_insertion_sequence :: nat
  height_index :: "(nat \<times> h256 list) list"
  longest_chain_cache :: "'b sealed_block list \<times> nat"
  block_tree_depth :: nat
  block_migration_depth :: nat

datatype bt_error =
    PreviousBlockNotFound
  | BlockNotFound
  | CannotRemoveOnchain h256
  | InvalidTip
  | UnableToMarkValid chain_state
  | TipNotInCache h256
  | NoCommonAncestor
  | DeepReorg nat nat
  | Panic
  | Diverges

type_synonym ('b, 'e, 'c, 'm) block_map = "(h256 \<times> ('b, 'e, 'c, 'm) block_metadata) list"

abbreviation header_of :: "('b, 'e, 'c, 'm) block_metadata \<Rightarrow> irys_block_header" where
  "header_of e \<equiv> sb_header (bm_block e)"

abbreviation parent_of :: "('b, 'e, 'c, 'm) block_metadata \<Rightarrow> h256" where
  "parent_of e \<equiv> bh_previous_block_hash (header_of e)"

abbreviation height_of :: "('b, 'e, 'c, 'm) block_metadata \<Rightarrow> nat" where
  "height_of e \<equiv> bh_height (header_of e)"

abbreviation diff_of :: "('b, 'e, 'c, 'm) block_metadata \<Rightarrow> u256" where
  "diff_of e \<equiv> bh_cumulative_diff (header_of e)"

abbreviation fuel_of :: "('b, 'e, 'c, 'm) block_map \<Rightarrow> nat" where
  "fuel_of bs \<equiv> Suc (length bs)"

text \<open>\<open>BlockTree::new\<close>: one block, on chain and the tip.\<close>

definition bt_new ::
  "nat \<Rightarrow> nat \<Rightarrow> nat \<Rightarrow> 'b sealed_block \<Rightarrow> 'c \<Rightarrow> 'e \<Rightarrow> 'm \<Rightarrow> ('b, 'e, 'c, 'm) block_tree"
where
  "bt_new now depth migration_depth genesis csnap esnap msnap =
     (let hdr = sb_header genesis; h = bh_block_hash hdr in
      \<lparr>blocks = [(h, \<lparr>bm_block = genesis, bm_chain_state = Onchain, bm_timestamp = now,
                        bm_children = [], bm_epoch_snapshot = esnap,
                        bm_commitment_snapshot = csnap, bm_ema_snapshot = msnap,
                        bm_insertion_sequence = 0\<rparr>)],
       solutions = [(bh_solution_hash hdr, [h])],
       tip = h,
       max_cumulative_difficulty = (bh_cumulative_diff hdr, h),
       next_insertion_sequence = 1,
       height_index = [(bh_height hdr, [h])],
       longest_chain_cache = ([genesis], 0),
       block_tree_depth = depth,
       block_migration_depth = migration_depth\<rparr>)"

section \<open>The canonical chain cache\<close>

text \<open>
  The loop of \<open>update_longest_chain_cache\<close>: the blocks from \<open>cur\<close> back through its ancestors, newest
  first, at most \<open>n + 1\<close> of them, and how many of them are not \<open>Onchain\<close>.
\<close>

fun collect_chain :: "('b, 'e, 'c, 'm) block_map \<Rightarrow> nat \<Rightarrow> h256 \<Rightarrow> 'b sealed_block list \<times> nat" where
  "collect_chain bs n cur =
     (case map_of bs cur of
        None \<Rightarrow> ([], 0)
      | Some e \<Rightarrow>
          let c = (if bm_chain_state e \<noteq> Onchain then 1 else 0) in
          (case n of
             0 \<Rightarrow> ([bm_block e], c)
           | Suc n' \<Rightarrow>
               if height_of e = 0 then ([bm_block e], c)
               else let (ps, k) = collect_chain bs n' (parent_of e) in (bm_block e # ps, c + k)))"

declare collect_chain.simps [simp del]

definition update_longest_chain_cache ::
  "('b, 'e, 'c, 'm) block_tree \<Rightarrow> ('b, 'e, 'c, 'm) block_tree"
where
  "update_longest_chain_cache t =
     (let (pairs, k) = collect_chain (blocks t) (block_tree_depth t) (tip t) in
      t\<lparr>longest_chain_cache := (rev pairs, k)\<rparr>)"

definition get_canonical_chain :: "('b, 'e, 'c, 'm) block_tree \<Rightarrow> 'b sealed_block list \<times> nat" where
  "get_canonical_chain t = longest_chain_cache t"

definition get_latest_canonical_entry ::
  "('b, 'e, 'c, 'm) block_tree \<Rightarrow> bt_error + 'b sealed_block"
where
  "get_latest_canonical_entry t =
     (case rev (fst (longest_chain_cache t)) of [] \<Rightarrow> Inl Panic | b # _ \<Rightarrow> Inr b)"

text \<open>
  \<open>partition_point\<close> of the standard library counts the leading elements that satisfy the predicate;
  its contract covers slices in which those elements come first.
\<close>

definition global_step :: "'b sealed_block \<Rightarrow> nat" where
  "global_step b = vdf_global_step_number (bh_vdf_limiter_info (sb_header b))"

definition canonical_entry_at_or_below_step ::
  "('b, 'e, 'c, 'm) block_tree \<Rightarrow> nat \<Rightarrow> 'b sealed_block option"
where
  "canonical_entry_at_or_below_step t step =
     (let chain = fst (longest_chain_cache t);
          idx = length (takeWhile (\<lambda>b. global_step b \<le> step) chain)
      in if idx = 0 then None else Some (chain ! (idx - 1)))"

definition confirmed_canonical_step :: "('b, 'e, 'c, 'm) block_tree \<Rightarrow> nat \<Rightarrow> nat" where
  "confirmed_canonical_step t depth =
     (let (chain, not_onchain_count) = longest_chain_cache t;
          skip = max not_onchain_count depth;
          idx = length chain - (skip + 1)
      in if idx < length chain then global_step (chain ! idx) else 0)"

section \<open>Adding a block\<close>

definition add_common ::
  "nat \<Rightarrow> h256 \<Rightarrow> 'b sealed_block \<Rightarrow> 'c \<Rightarrow> 'e \<Rightarrow> 'm \<Rightarrow> chain_state \<Rightarrow> ('b, 'e, 'c, 'm) block_tree \<Rightarrow>
   (bt_error + unit) \<times> ('b, 'e, 'c, 'm) block_tree"
where
  "add_common now hash block csnap esnap msnap state t =
     (let hdr = sb_header block; prev = bh_previous_block_hash hdr in
      case map_of (blocks t) prev of
        None \<Rightarrow> (Inl PreviousBlockNotFound, t)
      | Some _ \<Rightarrow>
          let bs = AList.map_entry prev
                     (\<lambda>e. e\<lparr>bm_children := List.insert hash (bm_children e)\<rparr>) (blocks t);
              mx = (if bh_cumulative_diff hdr > fst (max_cumulative_difficulty t)
                    then (bh_cumulative_diff hdr, hash) else max_cumulative_difficulty t);
              (sequence, next_sequence) =
                (case map_of bs hash of
                   Some existing \<Rightarrow> (bm_insertion_sequence existing, next_insertion_sequence t)
                 | None \<Rightarrow> (next_insertion_sequence t, next_insertion_sequence t + 1));
              entry = \<lparr>bm_block = block, bm_chain_state = state, bm_timestamp = now,
                       bm_children = [], bm_epoch_snapshot = esnap,
                       bm_commitment_snapshot = csnap, bm_ema_snapshot = msnap,
                       bm_insertion_sequence = sequence\<rparr>
          in (Inr (), update_longest_chain_cache
                (t\<lparr>blocks := AList.update hash entry bs,
                   solutions := index_insert insort_insert (bh_solution_hash hdr) hash (solutions t),
                   height_index := index_insert List.insert (bh_height hdr) hash (height_index t),
                   max_cumulative_difficulty := mx,
                   next_insertion_sequence := next_sequence\<rparr>)))"

definition add_block ::
  "nat \<Rightarrow> 'b sealed_block \<Rightarrow> 'c \<Rightarrow> 'e \<Rightarrow> 'm \<Rightarrow> ('b, 'e, 'c, 'm) block_tree \<Rightarrow>
   (bt_error + unit) \<times> ('b, 'e, 'c, 'm) block_tree"
where
  "add_block now block csnap esnap msnap t =
     (let hash = bh_block_hash (sb_header block) in
      if map_option bm_chain_state (map_of (blocks t) hash) = Some Onchain then (Inr (), t)
      else add_common now hash block csnap esnap msnap (NotOnchain Unknown) t)"

section \<open>The block with the highest cumulative difficulty\<close>

text \<open>
  \<open>canonical_fork_height\<close>: the height of the first \<open>Onchain\<close> block on the ancestry of an entry, the
  entry included, or nothing when the walk leaves the tree.
\<close>

fun canonical_fork_height_loop ::
  "nat \<Rightarrow> ('b, 'e, 'c, 'm) block_map \<Rightarrow> ('b, 'e, 'c, 'm) block_metadata \<Rightarrow> bt_error + nat option"
where
  "canonical_fork_height_loop 0 bs current = Inl Diverges"
| "canonical_fork_height_loop (Suc n) bs current =
     (if bm_chain_state current = Onchain then Inr (Some (height_of current))
      else (case map_of bs (parent_of current) of
              None \<Rightarrow> Inr None
            | Some e \<Rightarrow> canonical_fork_height_loop n bs e))"

definition canonical_fork_height ::
  "('b, 'e, 'c, 'm) block_tree \<Rightarrow> ('b, 'e, 'c, 'm) block_metadata \<Rightarrow> bt_error + nat option"
where
  "canonical_fork_height t e = canonical_fork_height_loop (fuel_of (blocks t)) (blocks t) e"

text \<open>
  The order of the keys \<open>(insertion_sequence, Reverse(fork height), hash)\<close>. \<open>None\<close> is below every
  \<open>Some\<close> for \<open>Option\<close>, and \<open>Reverse\<close> turns that around.
\<close>

fun fork_height_before :: "nat option \<Rightarrow> nat option \<Rightarrow> bool" where
  "fork_height_before (Some a) (Some b) = (b < a)"
| "fork_height_before (Some a) None = True"
| "fork_height_before None f = False"

fun max_key_le :: "nat \<times> nat option \<times> h256 \<Rightarrow> nat \<times> nat option \<times> h256 \<Rightarrow> bool" where
  "max_key_le (s1, f1, h1) (s2, f2, h2) =
     (s1 < s2 \<or> s1 = s2 \<and> (fork_height_before f1 f2 \<or> f1 = f2 \<and> h1 \<le> h2))"

text \<open>\<open>min_by_key\<close> on a non-empty list: the first of the least elements.\<close>

fun min_by :: "('k \<Rightarrow> 'k \<Rightarrow> bool) \<Rightarrow> 'k \<Rightarrow> 'k list \<Rightarrow> 'k" where
  "min_by le x [] = x"
| "min_by le x (y # ys) = min_by le (if le x y then x else y) ys"

definition find_max_difficulty :: "('b, 'e, 'c, 'm) block_tree \<Rightarrow> bt_error + (u256 \<times> h256)" where
  "find_max_difficulty t =
     (case map (\<lambda>(_, e). diff_of e) (blocks t) of
        [] \<Rightarrow> Inr (0, 0)
      | d # ds \<Rightarrow>
          let max_diff = fold max ds d;
              candidates = filter (\<lambda>(_, e). diff_of e = max_diff) (blocks t)
          in rbind (rmap (\<lambda>(h, e). rbind (canonical_fork_height t e)
                            (\<lambda>f. Inr (bm_insertion_sequence e, f, h))) candidates)
               (\<lambda>keys. case keys of
                  [] \<Rightarrow> Inl Panic
                | k # ks \<Rightarrow> Inr (max_diff, snd (snd (min_by max_key_le k ks)))))"

section \<open>Removing blocks\<close>

definition delete_block ::
  "h256 \<Rightarrow> ('b, 'e, 'c, 'm) block_tree \<Rightarrow> (bt_error + unit) \<times> ('b, 'e, 'c, 'm) block_tree"
where
  "delete_block hash t =
     (case map_of (blocks t) hash of
        None \<Rightarrow> (Inl BlockNotFound, t)
      | Some entry \<Rightarrow>
          let bs = AList.map_entry (parent_of entry)
                     (\<lambda>e. e\<lparr>bm_children := removeAll hash (bm_children e)\<rparr>) (blocks t);
              t1 = t\<lparr>blocks := AList.delete hash bs,
                     height_index := index_remove (height_of entry) hash (height_index t),
                     solutions :=
                       index_remove (bh_solution_hash (header_of entry)) hash (solutions t)\<rparr>
          in if snd (max_cumulative_difficulty t) = hash
             then (case find_max_difficulty t1 of
                     Inl e \<Rightarrow> (Inl e, t1)
                   | Inr mx \<Rightarrow>
                       (Inr (), update_longest_chain_cache (t1\<lparr>max_cumulative_difficulty := mx\<rparr>)))
             else (Inr (), update_longest_chain_cache t1))"

primrec remove_block_fuel ::
  "nat \<Rightarrow> h256 \<Rightarrow> ('b, 'e, 'c, 'm) block_tree \<Rightarrow> (bt_error + unit) \<times> ('b, 'e, 'c, 'm) block_tree"
where
  "remove_block_fuel 0 hash t = (Inl Diverges, t)"
| "remove_block_fuel (Suc n) hash t =
     (case map_of (blocks t) hash of
        None \<Rightarrow> (Inl BlockNotFound, t)
      | Some entry \<Rightarrow>
          if bm_chain_state entry = Onchain then (Inl (CannotRemoveOnchain hash), t)
          else sbind (st_fold (remove_block_fuel n) (bm_children entry) t)
                 (\<lambda>_. delete_block hash))"

definition remove_block ::
  "h256 \<Rightarrow> ('b, 'e, 'c, 'm) block_tree \<Rightarrow> (bt_error + unit) \<times> ('b, 'e, 'c, 'm) block_tree"
where
  "remove_block hash t = remove_block_fuel (fuel_of (blocks t)) hash t"

section \<open>Pruning\<close>

text \<open>
  \<open>if let Err(err) = .. { log }\<close>: an error value is dropped and the changed tree kept; a panic or a
  call that does not return is not an error value.
\<close>

definition log_error :: "(bt_error + unit) \<times> 's \<Rightarrow> (bt_error + unit) \<times> 's" where
  "log_error m =
     (case m of
        (Inr u, s) \<Rightarrow> (Inr u, s)
      | (Inl e, s) \<Rightarrow> if e = Panic \<or> e = Diverges then (Inl e, s) else (Inr (), s))"

definition prune_child ::
  "h256 \<Rightarrow> ('b, 'e, 'c, 'm) block_tree \<Rightarrow> (bt_error + unit) \<times> ('b, 'e, 'c, 'm) block_tree"
where
  "prune_child child t =
     (case map_of (blocks t) child of
        None \<Rightarrow> (Inr (), t)
      | Some e \<Rightarrow>
          if bm_chain_state e \<noteq> Onchain then log_error (remove_block child t) else (Inr (), t))"

definition prune_hash ::
  "h256 \<Rightarrow> ('b, 'e, 'c, 'm) block_tree \<Rightarrow> (bt_error + unit) \<times> ('b, 'e, 'c, 'm) block_tree"
where
  "prune_hash hash t =
     (case map_of (blocks t) hash of
        None \<Rightarrow> (Inr (), t)
      | Some entry \<Rightarrow>
          if bm_chain_state entry = Onchain
          then sbind (st_fold prune_child (bm_children entry) t)
                 (\<lambda>_ t'. log_error (delete_block hash t'))
          else (Inr (), t))"

definition prune_height ::
  "nat \<Rightarrow> ('b, 'e, 'c, 'm) block_tree \<Rightarrow> (bt_error + unit) \<times> ('b, 'e, 'c, 'm) block_tree"
where
  "prune_height h t =
     (case map_of (height_index t) h of
        None \<Rightarrow> (Inr (), t)
      | Some hashes \<Rightarrow> st_fold prune_hash hashes t)"

definition prune ::
  "nat \<Rightarrow> ('b, 'e, 'c, 'm) block_tree \<Rightarrow> (bt_error + unit) \<times> ('b, 'e, 'c, 'm) block_tree"
where
  "prune depth t =
     (case map_of (blocks t) (tip t) of
        None \<Rightarrow> (Inl Panic, t)
      | Some tip_entry \<Rightarrow>
          let min_keep_height = height_of tip_entry - depth in
          (case map fst (height_index t) of
             [] \<Rightarrow> (Inr (), t)
           | h # hs \<Rightarrow> st_fold prune_height [fold min hs h ..< min_keep_height] t))"

section \<open>Moving the tip\<close>

text \<open>
  \<open>mark_off_chain\<close> visits the children depth first; a block it changes is followed by that block's
  own children and then by the rest. The list of blocks still to visit is the recursion stack of the
  Rust function. It ends because every block it enters stops being \<open>Onchain\<close>.
\<close>

definition set_state :: "h256 \<Rightarrow> chain_state \<Rightarrow> ('b, 'e, 'c, 'm) block_map \<Rightarrow> ('b, 'e, 'c, 'm) block_map" where
  "set_state h st bs = AList.map_entry h (\<lambda>e. e\<lparr>bm_chain_state := st\<rparr>) bs"

definition count_onchain :: "('b, 'e, 'c, 'm) block_map \<Rightarrow> nat" where
  "count_onchain bs = length (filter (\<lambda>(_, e). bm_chain_state e = Onchain) bs)"

lemma length_map_entry [simp]: "length (AList.map_entry h f bs) = length bs"
  by (induction bs) auto

lemma map_of_set_state [simp]:
  "map_of (set_state h st bs) h' =
     (if h' = h then map_option (\<lambda>e. e\<lparr>bm_chain_state := st\<rparr>) (map_of bs h) else map_of bs h')"
  by (simp add: set_state_def)

lemma length_set_state [simp]: "length (set_state h st bs) = length bs"
  by (simp add: set_state_def)

lemma count_set_state_off:
  assumes "map_of bs h = Some e" and "bm_chain_state e = Onchain" and "st \<noteq> Onchain"
  shows "Suc (count_onchain (set_state h st bs)) = count_onchain bs"
  using assms by (induction bs) (auto simp: count_onchain_def set_state_def split: if_splits)

lemma count_set_state_on:
  assumes "map_of bs h = Some e" and "bm_chain_state e \<noteq> Onchain"
  shows "count_onchain (set_state h Onchain bs) = Suc (count_onchain bs)"
  using assms by (induction bs) (auto simp: count_onchain_def set_state_def split: if_splits)

lemma count_onchain_le: "count_onchain bs \<le> length bs"
  by (simp add: count_onchain_def)

function mark_off_chain ::
  "h256 \<Rightarrow> h256 list \<Rightarrow> ('b, 'e, 'c, 'm) block_map \<Rightarrow> ('b, 'e, 'c, 'm) block_map"
where
  "mark_off_chain current [] bs = bs"
| "mark_off_chain current (child # rest) bs =
     (if child = current then mark_off_chain current rest bs
      else (case map_of bs child of
              None \<Rightarrow> mark_off_chain current rest bs
            | Some entry \<Rightarrow>
                if bm_chain_state entry = Onchain
                then mark_off_chain current (bm_children entry @ rest)
                       (set_state child (Validated ValidBlock) bs)
                else mark_off_chain current rest bs))"
  by pat_completeness auto
termination
  by (relation "measures [\<lambda>(_, _, bs). count_onchain bs, \<lambda>(_, ws, _). length ws]")
    (auto dest: count_set_state_off [where st = "Validated ValidBlock"])

text \<open>\<open>mark_on_chain\<close> ends because every block it passes becomes \<open>Onchain\<close>.\<close>

function mark_on_chain ::
  "irys_block_header \<Rightarrow> ('b, 'e, 'c, 'm) block_map \<Rightarrow> (bt_error + unit) \<times> ('b, 'e, 'c, 'm) block_map"
where
  "mark_on_chain hdr bs =
     (case map_of bs (bh_previous_block_hash hdr) of
        None \<Rightarrow> (Inr (), bs)
      | Some prev_entry \<Rightarrow>
          if bm_chain_state prev_entry = Onchain
          then (Inr (), mark_off_chain (bh_block_hash hdr) (bm_children prev_entry) bs)
          else if bm_chain_state prev_entry = NotOnchain ValidBlock \<or>
                  is_validated (bm_chain_state prev_entry)
          then mark_on_chain (header_of prev_entry) (set_state (bh_previous_block_hash hdr) Onchain bs)
          else (Inl InvalidTip, bs))"
  by pat_completeness auto
termination
proof (relation "measure (\<lambda>(_, bs). length bs - count_onchain bs)", goal_cases)
  case 1
  show ?case by simp
next
  case (2 hdr bs prev_entry)
  then show ?case
    using count_set_state_on [of bs "bh_previous_block_hash hdr" prev_entry]
      count_onchain_le [of "set_state (bh_previous_block_hash hdr) Onchain bs"] by simp
qed

declare mark_on_chain.simps [simp del]

definition mark_tip ::
  "h256 \<Rightarrow> ('b, 'e, 'c, 'm) block_tree \<Rightarrow> (bt_error + bool) \<times> ('b, 'e, 'c, 'm) block_tree"
where
  "mark_tip hash t =
     (case map_of (blocks t) hash of
        None \<Rightarrow> (Inl BlockNotFound, t)
      | Some entry \<Rightarrow>
          let (canonical_diff, canonical_hash) = max_cumulative_difficulty t in
          if diff_of entry = canonical_diff \<and> canonical_hash \<noteq> hash then (Inr False, t)
          else (case mark_on_chain (header_of entry) (blocks t) of
                  (Inl e, bs) \<Rightarrow> (Inl e, t\<lparr>blocks := bs\<rparr>)
                | (Inr _, bs) \<Rightarrow>
                    (Inr (tip t \<noteq> hash),
                     update_longest_chain_cache
                       (t\<lparr>blocks := set_state hash Onchain bs, tip := hash\<rparr>))))"

definition mark_block_as_validation_scheduled ::
  "h256 \<Rightarrow> ('b, 'e, 'c, 'm) block_tree \<Rightarrow> ('b, 'e, 'c, 'm) block_tree"
where
  "mark_block_as_validation_scheduled hash t =
     (case map_of (blocks t) hash of
        None \<Rightarrow> t
      | Some e \<Rightarrow>
          if bm_chain_state e = NotOnchain Unknown
          then update_longest_chain_cache
                 (t\<lparr>blocks := set_state hash (NotOnchain ValidationScheduled) (blocks t)\<rparr>)
          else if bm_chain_state e = Validated Unknown
          then update_longest_chain_cache
                 (t\<lparr>blocks := set_state hash (Validated ValidationScheduled) (blocks t)\<rparr>)
          else t)"

definition mark_block_as_valid ::
  "h256 \<Rightarrow> ('b, 'e, 'c, 'm) block_tree \<Rightarrow> (bt_error + unit) \<times> ('b, 'e, 'c, 'm) block_tree"
where
  "mark_block_as_valid hash t =
     (case map_of (blocks t) hash of
        None \<Rightarrow> (Inl BlockNotFound, t)
      | Some e \<Rightarrow>
          (case bm_chain_state e of
             NotOnchain ValidationScheduled \<Rightarrow>
               (Inr (), update_longest_chain_cache
                  (t\<lparr>blocks := set_state hash (NotOnchain ValidBlock) (blocks t)\<rparr>))
           | Validated ValidationScheduled \<Rightarrow>
               (Inr (), update_longest_chain_cache
                  (t\<lparr>blocks := set_state hash (Validated ValidBlock) (blocks t)\<rparr>))
           | st \<Rightarrow> (Inl (UnableToMarkValid st), t)))"

section \<open>The point where two chains part\<close>

record 'b reorg_split =
  rs_lca :: "'b sealed_block"
  rs_old_divergent :: "'b sealed_block list"
  rs_new_divergent :: "'b sealed_block list"

text \<open>The walk from the new tip, newest first, with the key each block was found under.\<close>

fun new_walk ::
  "nat \<Rightarrow> ('b, 'e, 'c, 'm) block_map \<Rightarrow> h256 \<Rightarrow> bt_error + (h256 \<times> 'b sealed_block) list"
where
  "new_walk 0 bs cursor = Inl Diverges"
| "new_walk (Suc n) bs cursor =
     (case map_of bs cursor of
        None \<Rightarrow> Inr []
      | Some e \<Rightarrow>
          if height_of e = 0 then Inr [(cursor, bm_block e)]
          else rbind (new_walk n bs (parent_of e)) (\<lambda>ws. Inr ((cursor, bm_block e) # ws)))"

text \<open>
  The walk from the old tip to the first block of the other walk. \<open>acc\<close> holds the blocks passed so
  far, oldest first, which is the order the result is returned in.
\<close>

fun old_walk ::
  "nat \<Rightarrow> ('b, 'e, 'c, 'm) block_map \<Rightarrow> h256 set \<Rightarrow> h256 \<Rightarrow> h256 \<Rightarrow> 'b sealed_block list \<Rightarrow>
   bt_error + 'b sealed_block \<times> 'b sealed_block list"
where
  "old_walk 0 bs new_hashes old_tip cursor acc = Inl Diverges"
| "old_walk (Suc n) bs new_hashes old_tip cursor acc =
     (case map_of bs cursor of
        None \<Rightarrow> Inl (if acc = [] then TipNotInCache old_tip else NoCommonAncestor)
      | Some e \<Rightarrow>
          if cursor \<in> new_hashes then Inr (bm_block e, acc)
          else if height_of e = 0 then Inl NoCommonAncestor
          else old_walk n bs new_hashes old_tip (parent_of e) (bm_block e # acc))"

definition find_reorg_split ::
  "h256 \<Rightarrow> h256 \<Rightarrow> ('b, 'e, 'c, 'm) block_tree \<Rightarrow> bt_error + 'b reorg_split"
where
  "find_reorg_split new_tip old_tip t =
     rbind (new_walk (fuel_of (blocks t)) (blocks t) new_tip) (\<lambda>ws.
     if ws = [] then Inl (TipNotInCache new_tip)
     else rbind (old_walk (fuel_of (blocks t)) (blocks t) (set (map fst ws)) old_tip old_tip [])
       (\<lambda>(lca, old_divergent).
          let lca_hash = bh_block_hash (sb_header lca);
              lca_idx = length (takeWhile (\<lambda>(_, b). bh_block_hash (sb_header b) \<noteq> lca_hash) ws)
          in if lca_idx = length ws then Inl Panic
             else Inr \<lparr>rs_lca = lca, rs_old_divergent = old_divergent,
                       rs_new_divergent = rev (map snd (take lca_idx ws))\<rparr>))"

section \<open>Queries\<close>

definition get_block :: "h256 \<Rightarrow> ('b, 'e, 'c, 'm) block_tree \<Rightarrow> irys_block_header option" where
  "get_block h t = map_option header_of (map_of (blocks t) h)"

definition get_sealed_block :: "h256 \<Rightarrow> ('b, 'e, 'c, 'm) block_tree \<Rightarrow> 'b sealed_block option" where
  "get_sealed_block h t = map_option bm_block (map_of (blocks t) h)"

definition get_block_and_status ::
  "h256 \<Rightarrow> ('b, 'e, 'c, 'm) block_tree \<Rightarrow> (irys_block_header \<times> chain_state) option"
where
  "get_block_and_status h t =
     map_option (\<lambda>e. (header_of e, bm_chain_state e)) (map_of (blocks t) h)"

definition canonical_commitment_snapshot :: "('b, 'e, 'c, 'm) block_tree \<Rightarrow> bt_error + 'c" where
  "canonical_commitment_snapshot t =
     rbind (get_latest_canonical_entry t) (\<lambda>b.
     rbind (ok_or (map_of (blocks t) (bh_block_hash (sb_header b))) Panic) (\<lambda>e.
     Inr (bm_commitment_snapshot e)))"

definition canonical_epoch_snapshot :: "('b, 'e, 'c, 'm) block_tree \<Rightarrow> bt_error + 'e" where
  "canonical_epoch_snapshot t =
     rbind (get_latest_canonical_entry t) (\<lambda>b.
     rbind (ok_or (map_of (blocks t) (bh_block_hash (sb_header b))) Panic) (\<lambda>e.
     Inr (bm_epoch_snapshot e)))"

definition get_hashes_for_height :: "nat \<Rightarrow> ('b, 'e, 'c, 'm) block_tree \<Rightarrow> h256 list option" where
  "get_hashes_for_height h t = map_of (height_index t) h"

definition is_known_solution_hash :: "h256 \<Rightarrow> ('b, 'e, 'c, 'm) block_tree \<Rightarrow> bool" where
  "is_known_solution_hash s t \<longleftrightarrow> map_of (solutions t) s \<noteq> None"

definition can_be_built_upon :: "h256 \<Rightarrow> ('b, 'e, 'c, 'm) block_tree \<Rightarrow> bool" where
  "can_be_built_upon h t =
     (case map_of (blocks t) h of
        None \<Rightarrow> False
      | Some e \<Rightarrow> bm_chain_state e = Onchain \<or> bm_chain_state e = Validated ValidBlock)"

definition get_max_block_info :: "('b, 'e, 'c, 'm) block_tree \<Rightarrow> bt_error + h256 \<times> nat \<times> bool" where
  "get_max_block_info t =
     (let hash = snd (max_cumulative_difficulty t) in
      rbind (ok_or (map_of (blocks t) hash) Panic)
        (\<lambda>e. Inr (hash, height_of e, can_be_built_upon hash t)))"

fun validated_head_loop ::
  "nat \<Rightarrow> ('b, 'e, 'c, 'm) block_map \<Rightarrow> h256 option \<Rightarrow> h256 \<Rightarrow> bt_error + h256 option"
where
  "validated_head_loop 0 bs validated_head current = Inl Diverges"
| "validated_head_loop (Suc n) bs validated_head current =
     (case map_of bs current of
        None \<Rightarrow> Inr None
      | Some e \<Rightarrow>
          (case bm_chain_state e of
             Onchain \<Rightarrow> Inr (Some (case validated_head of None \<Rightarrow> current | Some h \<Rightarrow> h))
           | NotOnchain ValidBlock \<Rightarrow>
               validated_head_loop n bs
                 (case validated_head of None \<Rightarrow> Some current | Some h \<Rightarrow> Some h) (parent_of e)
           | Validated ValidBlock \<Rightarrow>
               validated_head_loop n bs
                 (case validated_head of None \<Rightarrow> Some current | Some h \<Rightarrow> Some h) (parent_of e)
           | _ \<Rightarrow> validated_head_loop n bs None (parent_of e)))"

definition get_max_chain_validated_head ::
  "('b, 'e, 'c, 'm) block_tree \<Rightarrow> bt_error + h256 option"
where
  "get_max_chain_validated_head t =
     validated_head_loop (fuel_of (blocks t)) (blocks t) None (snd (max_cumulative_difficulty t))"

fun validation_status_loop ::
  "nat \<Rightarrow> ('b, 'e, 'c, 'm) block_map \<Rightarrow> nat \<Rightarrow> h256 option \<Rightarrow> h256 \<Rightarrow> bt_error + nat \<times> h256 option"
where
  "validation_status_loop 0 bs awaiting last_validated current = Inl Diverges"
| "validation_status_loop (Suc n) bs awaiting last_validated current =
     (case map_of bs current of
        None \<Rightarrow> Inr (awaiting, last_validated)
      | Some e \<Rightarrow>
          let (awaiting', last_validated') =
                (case bm_chain_state e of
                   Onchain \<Rightarrow>
                     (awaiting, case last_validated of None \<Rightarrow> Some current | Some h \<Rightarrow> Some h)
                 | Validated ValidBlock \<Rightarrow>
                     (awaiting, case last_validated of None \<Rightarrow> Some current | Some h \<Rightarrow> Some h)
                 | NotOnchain ValidBlock \<Rightarrow>
                     (if last_validated = None then awaiting + 1 else awaiting, last_validated)
                 | _ \<Rightarrow> (awaiting + 1, last_validated))
          in if height_of e = 0 then Inr (awaiting', last_validated')
             else validation_status_loop n bs awaiting' last_validated' (parent_of e))"

definition get_validation_chain_status ::
  "h256 \<Rightarrow> ('b, 'e, 'c, 'm) block_tree \<Rightarrow> bt_error + nat \<times> h256 option"
where
  "get_validation_chain_status h t =
     validation_status_loop (fuel_of (blocks t)) (blocks t) 0 None h"

text \<open>\<open>get_fork_blocks\<close>, oldest first: \<open>acc\<close> collects in the order of the reversed vector.\<close>

fun fork_blocks_loop ::
  "nat \<Rightarrow> ('b, 'e, 'c, 'm) block_map \<Rightarrow> 'b sealed_block list \<Rightarrow> h256 \<Rightarrow> bt_error + 'b sealed_block list"
where
  "fork_blocks_loop 0 bs acc h = Inl Diverges"
| "fork_blocks_loop (Suc n) bs acc h =
     (case map_of bs h of
        None \<Rightarrow> Inr acc
      | Some e \<Rightarrow>
          if bm_chain_state e = Onchain then Inr (bm_block e # acc)
          else fork_blocks_loop n bs (bm_block e # acc) (parent_of e))"

definition get_fork_blocks ::
  "h256 \<Rightarrow> ('b, 'e, 'c, 'm) block_tree \<Rightarrow> bt_error + 'b sealed_block list"
where
  "get_fork_blocks h t = fork_blocks_loop (fuel_of (blocks t)) (blocks t) [] h"

text \<open>\<open>n\<close> counts down from \<open>block_tree_depth\<close>, as \<open>depth_count\<close> counts up to it.\<close>

fun get_earliest_not_onchain ::
  "nat \<Rightarrow> ('b, 'e, 'c, 'm) block_tree \<Rightarrow> ('b, 'e, 'c, 'm) block_metadata \<Rightarrow>
   bt_error + (('b, 'e, 'c, 'm) block_metadata \<times> 'b sealed_block list \<times> nat) option"
where
  "get_earliest_not_onchain 0 t current = Inr None"
| "get_earliest_not_onchain (Suc n) t current =
     (if height_of current = 0 then Inr None
      else (case map_of (blocks t) (parent_of current) of
              None \<Rightarrow> Inr None
            | Some prev_entry \<Rightarrow>
                if bm_chain_state prev_entry = Validated ValidBlock \<or>
                   bm_chain_state prev_entry = Onchain
                then rbind (get_fork_blocks (parent_of current) t)
                       (\<lambda>fs. Inr (Some (current, fs, bm_timestamp current)))
                else get_earliest_not_onchain n t prev_entry))"

definition get_earliest_not_onchain_in_longest_chain ::
  "('b, 'e, 'c, 'm) block_tree \<Rightarrow>
   bt_error + (('b, 'e, 'c, 'm) block_metadata \<times> 'b sealed_block list \<times> nat) option"
where
  "get_earliest_not_onchain_in_longest_chain t =
     (case map_of (blocks t) (tip t) of
        None \<Rightarrow> Inr None
      | Some tip_entry \<Rightarrow>
          if diff_of tip_entry \<ge> fst (max_cumulative_difficulty t) then Inr None
          else (case map_of (blocks t) (snd (max_cumulative_difficulty t)) of
                  None \<Rightarrow> Inr None
                | Some e \<Rightarrow>
                    if bm_chain_state e = Onchain then Inr None
                    else get_earliest_not_onchain (block_tree_depth t) t e))"

definition get_earliest_unvalidated_block_height ::
  "('b, 'e, 'c, 'm) block_tree \<Rightarrow> bt_error + nat option"
where
  "get_earliest_unvalidated_block_height t =
     rbind (get_earliest_not_onchain_in_longest_chain t) (\<lambda>r.
     case r of
       None \<Rightarrow> Inr None
     | Some (_, bs, _) \<Rightarrow>
         (case map (\<lambda>b. bh_height (sb_header b)) bs of
            [] \<Rightarrow> Inr None
          | h # hs \<Rightarrow> Inr (Some (fold min hs h))))"

definition can_process_height :: "nat \<Rightarrow> ('b, 'e, 'c, 'm) block_tree \<Rightarrow> bt_error + bool" where
  "can_process_height h t =
     (let max_tree_depth = block_migration_depth t in
      if h < max_tree_depth then Inr True
      else rbind (get_earliest_unvalidated_block_height t) (\<lambda>r.
           case r of
             None \<Rightarrow> Inr True
           | Some earliest \<Rightarrow> Inr (h \<le> earliest + max_tree_depth div 2)))"

text \<open>\<open>get_by_solution_hash\<close> visits the ordered set of hashes; \<open>best\<close> is the fallback seen so far.\<close>

fun solution_loop ::
  "('b, 'e, 'c, 'm) block_map \<Rightarrow> h256 \<Rightarrow> u256 \<Rightarrow> u256 \<Rightarrow> irys_block_header option \<Rightarrow> h256 list \<Rightarrow>
   irys_block_header option"
where
  "solution_loop bs excluding cdiff prev_cdiff best [] = best"
| "solution_loop bs excluding cdiff prev_cdiff best (hash # hashes) =
     (if hash = excluding then solution_loop bs excluding cdiff prev_cdiff best hashes
      else (case map_of bs hash of
              None \<Rightarrow> solution_loop bs excluding cdiff prev_cdiff best hashes
            | Some e \<Rightarrow>
                if diff_of e = cdiff then Some (header_of e)
                else if diff_of e > prev_cdiff \<and> cdiff > bh_previous_cumulative_diff (header_of e)
                then Some (header_of e)
                else solution_loop bs excluding cdiff prev_cdiff
                       (case best of None \<Rightarrow> Some (header_of e) | Some b \<Rightarrow> Some b) hashes))"

definition get_by_solution_hash ::
  "h256 \<Rightarrow> h256 \<Rightarrow> u256 \<Rightarrow> u256 \<Rightarrow> ('b, 'e, 'c, 'm) block_tree \<Rightarrow> irys_block_header option"
where
  "get_by_solution_hash solution excluding cdiff prev_cdiff t =
     (case map_of (solutions t) solution of
        None \<Rightarrow> None
      | Some hashes \<Rightarrow> solution_loop (blocks t) excluding cdiff prev_cdiff None hashes)"

text \<open>\<open>get_optimistic_chain\<close>: the chain of the block with the highest difficulty, oldest first.\<close>

fun optimistic_loop :: "('b, 'e, 'c, 'm) block_map \<Rightarrow> nat \<Rightarrow> h256 \<Rightarrow> (h256 \<times> nat) list" where
  "optimistic_loop bs n current =
     (case map_of bs current of
        None \<Rightarrow> []
      | Some e \<Rightarrow>
          (current, height_of e) #
          (case n of
             0 \<Rightarrow> []
           | Suc n' \<Rightarrow> if height_of e = 0 then [] else optimistic_loop bs n' (parent_of e)))"

declare optimistic_loop.simps [simp del]

definition get_optimistic_chain :: "('b, 'e, 'c, 'm) block_tree \<Rightarrow> (h256 \<times> nat) list" where
  "get_optimistic_chain t =
     rev (optimistic_loop (blocks t) (block_tree_depth t) (snd (max_cumulative_difficulty t)))"

end
