(* ===== verification/Block_Forest.thy ===== *)
theory Block_Forest
  imports Main
begin

text \<open>
  Forests given by parent links and heights, the abstract picture of a block tree. \<open>nodes\<close> is the
  set of blocks at hand, \<open>par\<close> the parent link (which may point outside the set), \<open>ht\<close> the height.
  The locale \<open>forest\<close> asks for one law only, that a parent in the set is one lower than its child;
  it follows that ancestry is a partial order in which the ancestors of a node form a chain.
\<close>

inductive anc :: "'h set \<Rightarrow> ('h \<Rightarrow> 'h) \<Rightarrow> 'h \<Rightarrow> 'h \<Rightarrow> bool" for nodes par where
  anc_refl: "h \<in> nodes \<Longrightarrow> anc nodes par h h"
| anc_step: "h \<in> nodes \<Longrightarrow> anc nodes par a (par h) \<Longrightarrow> anc nodes par a h"

inductive_cases anc_cases: "anc nodes par a h"

lemma anc_nodes:
  assumes "anc nodes par a h"
  shows "a \<in> nodes" and "h \<in> nodes"
  using assms by (induction rule: anc.induct) auto

lemma anc_trans:
  assumes "anc nodes par b c" and "anc nodes par a b"
  shows "anc nodes par a c"
  using assms by (induction rule: anc.induct) (simp_all add: anc_step)

lemma anc_par_iff:
  "anc nodes par a h \<longleftrightarrow> a = h \<and> h \<in> nodes \<or> h \<in> nodes \<and> anc nodes par a (par h)"
  by (blast elim: anc_cases intro: anc_refl anc_step)

lemma anc_cong:
  assumes "\<And>h. h \<in> nodes \<Longrightarrow> par h = par' h"
  shows "anc nodes par = anc nodes par'"
proof (intro ext iffI)
  fix a h
  assume "anc nodes par a h"
  then show "anc nodes par' a h"
    by (induction rule: anc.induct) (simp_all add: anc_refl anc_step assms)
next
  fix a h
  assume "anc nodes par' a h"
  then show "anc nodes par a h"
    by (induction rule: anc.induct) (simp_all add: anc_refl anc_step assms)
qed

text \<open>Adding a node changes no ancestry among the old ones, and removing a leaf none among the rest.\<close>

lemma anc_mono:
  assumes "anc nodes par a h" and "nodes \<subseteq> nodes'" and "\<And>x. x \<in> nodes \<Longrightarrow> par' x = par x"
  shows "anc nodes' par' a h"
  using assms(1)
proof (induction rule: anc.induct)
  case (anc_refl h)
  then show ?case using assms(2) by (blast intro: anc.anc_refl)
next
  case (anc_step h a)
  then have "h \<in> nodes'" "par' h = par h" using assms(2,3) by auto
  with anc_step.IH show ?case by (simp add: anc.anc_step)
qed

lemma anc_restrict:
  assumes "anc nodes par a h" and "\<And>x. anc nodes par a x \<Longrightarrow> anc nodes par x h \<Longrightarrow> x \<in> nodes'"
  shows "anc nodes' par a h"
  using assms
proof (induction rule: anc.induct)
  case (anc_refl h)
  then show ?case by (simp add: anc.anc_refl)
next
  case (anc_step h a)
  have a: "anc nodes par a h" and h: "anc nodes par h h"
    using anc_step.hyps by (blast intro: anc.intros)+
  have "anc nodes' par a (par h)"
  proof (rule anc_step.IH)
    fix x
    assume "anc nodes par a x" and "anc nodes par x (par h)"
    then show "x \<in> nodes'"
      using anc_step.prems anc.anc_step [OF anc_step.hyps(1)] by blast
  qed
  with anc_step.prems [OF a h] show ?case by (rule anc.anc_step)
qed

locale forest =
  fixes nodes :: "'h set" and par :: "'h \<Rightarrow> 'h" and ht :: "'h \<Rightarrow> nat"
  assumes ht_par: "h \<in> nodes \<Longrightarrow> par h \<in> nodes \<Longrightarrow> ht h = Suc (ht (par h))"
begin

abbreviation ancestor :: "'h \<Rightarrow> 'h \<Rightarrow> bool" where
  "ancestor \<equiv> anc nodes par"

lemma ancestor_ht: "ancestor a h \<Longrightarrow> ht a \<le> ht h \<and> (ht a = ht h \<longrightarrow> a = h)"
proof (induction rule: anc.induct)
  case (anc_refl h)
  then show ?case by simp
next
  case (anc_step h a)
  then have "ht h = Suc (ht (par h))" by (blast intro: ht_par dest: anc_nodes)
  with anc_step.IH show ?case by simp
qed

lemma ancestor_le: "ancestor a h \<Longrightarrow> ht a \<le> ht h"
  by (simp add: ancestor_ht)

lemma ancestor_antisym: "ancestor a b \<Longrightarrow> ancestor b a \<Longrightarrow> a = b"
  using ancestor_ht [of a b] ancestor_ht [of b a] by simp

lemma not_ancestor_par: "h \<in> nodes \<Longrightarrow> \<not> ancestor h (par h)"
proof
  assume h: "h \<in> nodes" and a: "ancestor h (par h)"
  then have "ht h = Suc (ht (par h))" by (blast intro: ht_par dest: anc_nodes)
  with ancestor_le [OF a] show False by simp
qed

lemma ancestor_linear: "ancestor a h \<Longrightarrow> ancestor b h \<Longrightarrow> ancestor a b \<or> ancestor b a"
proof (induction rule: anc.induct)
  case (anc_refl h)
  then show ?case by simp
next
  case (anc_step h a)
  have "b = h \<or> ancestor b (par h)"
    using anc_step.prems by (simp add: anc_par_iff [of nodes par b h]) blast
  moreover have "ancestor a h"
    using anc_step.hyps by (rule anc.anc_step)
  ultimately show ?case
    using anc_step.IH by blast
qed

lemma ancestor_same_height: "ancestor a h \<Longrightarrow> ancestor b h \<Longrightarrow> ht a = ht b \<Longrightarrow> a = b"
  using ancestor_linear [of a h b] ancestor_ht [of a b] ancestor_ht [of b a] by auto

lemma ancestor_below:
  "ancestor a h \<Longrightarrow> ancestor b h \<Longrightarrow> ht a \<le> ht b \<Longrightarrow> ancestor a b"
  using ancestor_linear [of a h b] ancestor_ht [of b a] by auto

text \<open>The child of \<open>a\<close> through which \<open>h\<close> descends from \<open>a\<close>.\<close>

lemma ancestor_child:
  "ancestor a h \<Longrightarrow> a \<noteq> h \<Longrightarrow> \<exists>c. ancestor c h \<and> par c = a"
proof (induction rule: anc.induct)
  case (anc_refl h)
  then show ?case by simp
next
  case (anc_step h a)
  show ?case
  proof (cases "a = par h")
    case True
    with anc_step.hyps show ?thesis by (blast intro: anc.anc_refl)
  next
    case False
    with anc_step.IH obtain c where "ancestor c (par h)" "par c = a" by blast
    with anc_step.hyps show ?thesis by (blast intro: anc.anc_step)
  qed
qed

lemma proper_ancestor_par: "ancestor a h \<Longrightarrow> a \<noteq> h \<Longrightarrow> ancestor a (par h)"
  by (auto elim: anc_cases)

text \<open>Between an ancestor and a node there is a node at every height.\<close>

lemma ancestor_at_height:
  assumes "ancestor a h" and "ht a \<le> n" and "n \<le> ht h"
  shows "\<exists>b. ancestor a b \<and> ancestor b h \<and> ht b = n"
  using assms
proof (induction rule: anc.induct)
  case (anc_refl h)
  then show ?case by (auto intro: anc.anc_refl)
next
  case (anc_step h a)
  show ?case
  proof (cases "n = ht h")
    case True
    moreover have "ancestor a h" "ancestor h h"
      using anc_step.hyps by (auto intro: anc.intros)
    ultimately show ?thesis by blast
  next
    case False
    have "ht h = Suc (ht (par h))"
      using anc_step.hyps by (blast intro: ht_par dest: anc_nodes)
    with anc_step.prems False have "n \<le> ht (par h)" by simp
    with anc_step show ?thesis by (blast intro: anc.anc_step)
  qed
qed

text \<open>Every node has a root: an ancestor whose own parent is outside the forest.\<close>

lemma has_root: "h \<in> nodes \<Longrightarrow> \<exists>r. r \<in> nodes \<and> par r \<notin> nodes \<and> ancestor r h"
proof (induction "ht h" arbitrary: h rule: less_induct)
  case less
  show ?case
  proof (cases "par h \<in> nodes")
    case True
    with less.prems have "ht (par h) < ht h" using ht_par [of h] by simp
    with less.hyps True obtain r where "r \<in> nodes" "par r \<notin> nodes" "ancestor r (par h)" by blast
    with less.prems show ?thesis by (blast intro: anc_step)
  next
    case False
    with less.prems show ?thesis by (blast intro: anc_refl)
  qed
qed

lemma root_ancestor: "r \<in> nodes \<Longrightarrow> par r \<notin> nodes \<Longrightarrow> ancestor a r \<longleftrightarrow> a = r"
  by (auto elim: anc_cases dest: anc_nodes intro: anc_refl)

lemma root_unique:
  "r \<in> nodes \<Longrightarrow> par r \<notin> nodes \<Longrightarrow> s \<in> nodes \<Longrightarrow> par s \<notin> nodes \<Longrightarrow>
   ancestor r h \<Longrightarrow> ancestor s h \<Longrightarrow> r = s"
  using ancestor_linear [of r h s] by (auto simp: root_ancestor)

end

end
