(* ===== verification/Block_Tree_Inv.thy ===== *)
theory Block_Tree_Inv
  imports Block_Tree Block_Forest
begin

text \<open>
  The shape of the block map. \<open>bs_wf\<close> says that the map is a forest: keys are block hashes, the
  children set of a block is exactly the set of blocks that name it as parent, and a parent has
  height one less and a smaller cumulative difficulty. The facts of the locale \<open>forest\<close> then hold of
  the ancestor relation \<open>banc\<close> of every such map. \<open>restate\<close> relates two maps that differ only in the
  chain states of their blocks, and \<open>depth\<close> bounds the walks along parent links.
\<close>

section \<open>The forest of a block map\<close>

definition bpar :: "('b, 'e, 'c, 'm) block_map \<Rightarrow> h256 \<Rightarrow> h256" where
  "bpar bs h = (case map_of bs h of None \<Rightarrow> 0 | Some e \<Rightarrow> parent_of e)"

definition bht :: "('b, 'e, 'c, 'm) block_map \<Rightarrow> h256 \<Rightarrow> nat" where
  "bht bs h = (case map_of bs h of None \<Rightarrow> 0 | Some e \<Rightarrow> height_of e)"

abbreviation bdom :: "('b, 'e, 'c, 'm) block_map \<Rightarrow> h256 set" where
  "bdom bs \<equiv> dom (map_of bs)"

abbreviation banc :: "('b, 'e, 'c, 'm) block_map \<Rightarrow> h256 \<Rightarrow> h256 \<Rightarrow> bool" where
  "banc bs \<equiv> anc (bdom bs) (bpar bs)"

definition onchain :: "('b, 'e, 'c, 'm) block_map \<Rightarrow> h256 \<Rightarrow> bool" where
  "onchain bs h \<longleftrightarrow> (\<exists>e. map_of bs h = Some e \<and> bm_chain_state e = Onchain)"

definition entry_wf ::
  "('b, 'e, 'c, 'm) block_map \<Rightarrow> h256 \<Rightarrow> ('b, 'e, 'c, 'm) block_metadata \<Rightarrow> bool"
where
  "entry_wf bs h e \<longleftrightarrow>
     bh_block_hash (header_of e) = h \<and> distinct (bm_children e) \<and>
     (\<forall>c. c \<in> set (bm_children e) \<longleftrightarrow> (\<exists>ce. map_of bs c = Some ce \<and> parent_of ce = h)) \<and>
     (\<forall>pe. map_of bs (parent_of e) = Some pe \<longrightarrow>
        height_of e = Suc (height_of pe) \<and> diff_of pe < diff_of e)"

definition bs_wf :: "('b, 'e, 'c, 'm) block_map \<Rightarrow> bool" where
  "bs_wf bs \<longleftrightarrow> distinct (map fst bs) \<and> (\<forall>h e. map_of bs h = Some e \<longrightarrow> entry_wf bs h e)"

lemma bpar_Some [simp]: "map_of bs h = Some e \<Longrightarrow> bpar bs h = parent_of e"
  by (simp add: bpar_def)

lemma bht_Some [simp]: "map_of bs h = Some e \<Longrightarrow> bht bs h = height_of e"
  by (simp add: bht_def)

lemma bs_wf_entry: "bs_wf bs \<Longrightarrow> map_of bs h = Some e \<Longrightarrow> entry_wf bs h e"
  by (simp add: bs_wf_def)

lemma bs_wf_hash: "bs_wf bs \<Longrightarrow> map_of bs h = Some e \<Longrightarrow> bh_block_hash (header_of e) = h"
  by (simp add: bs_wf_def entry_wf_def)

lemma bs_wf_children:
  "bs_wf bs \<Longrightarrow> map_of bs h = Some e \<Longrightarrow>
   c \<in> set (bm_children e) \<longleftrightarrow> (\<exists>ce. map_of bs c = Some ce \<and> parent_of ce = h)"
  by (simp add: bs_wf_def entry_wf_def)

lemma bs_wf_parent:
  "bs_wf bs \<Longrightarrow> map_of bs h = Some e \<Longrightarrow> map_of bs (parent_of e) = Some pe \<Longrightarrow>
   height_of e = Suc (height_of pe) \<and> diff_of pe < diff_of e"
  by (simp add: bs_wf_def entry_wf_def)

text \<open>
  The forest of a block map: its keys when the map keeps the invariant. The laws of the locale
  \<open>forest\<close> are then laws of every well-formed block map.
\<close>

definition tree_nodes :: "('b, 'e, 'c, 'm) block_map \<Rightarrow> h256 set" where
  "tree_nodes bs = (if bs_wf bs then bdom bs else {})"

lemma tree_nodes_wf [simp]: "bs_wf bs \<Longrightarrow> tree_nodes bs = bdom bs"
  by (simp add: tree_nodes_def)

interpretation block_forest: forest "tree_nodes bs" "bpar bs" "bht bs"
  for bs :: "('b, 'e, 'c, 'm) block_map"
proof
  fix h
  assume "h \<in> tree_nodes bs" and "bpar bs h \<in> tree_nodes bs"
  then show "bht bs h = Suc (bht bs (bpar bs h))"
    by (auto simp: tree_nodes_def dest: bs_wf_parent split: if_splits)
qed

lemma banc_ht: "bs_wf bs \<Longrightarrow> banc bs a h \<Longrightarrow> bht bs a \<le> bht bs h"
  using block_forest.ancestor_le [of bs a h] by simp

lemma banc_eq: "bs_wf bs \<Longrightarrow> banc bs a h \<Longrightarrow> bht bs a = bht bs h \<Longrightarrow> a = h"
  using block_forest.ancestor_ht [of bs a h] by simp

lemma banc_antisym: "bs_wf bs \<Longrightarrow> banc bs a b \<Longrightarrow> banc bs b a \<Longrightarrow> a = b"
  using block_forest.ancestor_antisym [of bs a b] by simp

lemma banc_linear: "bs_wf bs \<Longrightarrow> banc bs a h \<Longrightarrow> banc bs b h \<Longrightarrow> banc bs a b \<or> banc bs b a"
  using block_forest.ancestor_linear [of bs a h b] by simp

lemma banc_same_height:
  "bs_wf bs \<Longrightarrow> banc bs a h \<Longrightarrow> banc bs b h \<Longrightarrow> bht bs a = bht bs b \<Longrightarrow> a = b"
  using block_forest.ancestor_same_height [of bs a h b] by simp

lemma banc_below:
  "bs_wf bs \<Longrightarrow> banc bs a h \<Longrightarrow> banc bs b h \<Longrightarrow> bht bs a \<le> bht bs b \<Longrightarrow> banc bs a b"
  using block_forest.ancestor_below [of bs a h b] by simp

lemma banc_at_height:
  "bs_wf bs \<Longrightarrow> banc bs a h \<Longrightarrow> bht bs a \<le> n \<Longrightarrow> n \<le> bht bs h \<Longrightarrow>
   \<exists>b. banc bs a b \<and> banc bs b h \<and> bht bs b = n"
  using block_forest.ancestor_at_height [of bs a h n] by simp

lemma banc_root: "bs_wf bs \<Longrightarrow> h \<in> bdom bs \<Longrightarrow> \<exists>r. r \<in> bdom bs \<and> bpar bs r \<notin> bdom bs \<and> banc bs r h"
  using block_forest.has_root [of h bs] by simp

lemma banc_refl: "map_of bs h = Some e \<Longrightarrow> banc bs h h"
  by (auto intro: anc_refl)

lemma banc_parent:
  assumes "map_of bs h = Some e" and "map_of bs (parent_of e) = Some pe"
  shows "banc bs (parent_of e) h"
proof (rule anc_step)
  show "h \<in> bdom bs" using assms by auto
  show "banc bs (parent_of e) (bpar bs h)" using assms by (auto intro: anc_refl)
qed

lemma banc_proper: "map_of bs h = Some e \<Longrightarrow> banc bs a h \<Longrightarrow> a \<noteq> h \<Longrightarrow> banc bs a (parent_of e)"
  by (auto elim: anc_cases)

lemma bs_wf_parent_ht:
  "bs_wf bs \<Longrightarrow> map_of bs h = Some e \<Longrightarrow> map_of bs (parent_of e) = Some pe \<Longrightarrow>
   bht bs h = Suc (bht bs (parent_of e))"
  using bs_wf_parent by auto

lemma not_banc_parent: "bs_wf bs \<Longrightarrow> map_of bs h = Some e \<Longrightarrow> \<not> banc bs h (parent_of e)"
  using block_forest.not_ancestor_par [of h bs] by auto

text \<open>The child of a block through which another block descends from it.\<close>

lemma banc_child:
  assumes wf: "bs_wf bs" and a: "map_of bs a = Some e" and "banc bs a h" and "a \<noteq> h"
  shows "\<exists>c \<in> set (bm_children e). banc bs c h"
proof -
  obtain c where c: "banc bs c h" "bpar bs c = a"
    using block_forest.ancestor_child [of bs a h] assms by auto
  then obtain ce where "map_of bs c = Some ce"
    using anc_nodes(1) by fastforce
  with c show ?thesis
    using bs_wf_children [OF wf a] by auto
qed

lemma children_entry:
  assumes wf: "bs_wf bs" and "map_of bs h = Some e" and "c \<in> set (bm_children e)"
  shows "\<exists>ce. map_of bs c = Some ce \<and> parent_of ce = h \<and> bht bs c = Suc (bht bs h)"
  using assms bs_wf_children [OF wf] bs_wf_parent_ht [OF wf] by fastforce

lemma children_banc:
  assumes wf: "bs_wf bs" and h: "map_of bs h = Some e" and c: "c \<in> set (bm_children e)"
  shows "banc bs h c"
proof -
  obtain ce where "map_of bs c = Some ce" "parent_of ce = h"
    using children_entry [OF assms] by blast
  with banc_parent [of bs c ce] h show ?thesis by auto
qed

text \<open>Two different children of one block have no common descendant.\<close>

lemma children_apart:
  assumes wf: "bs_wf bs" and "map_of bs h = Some e"
    and "c \<in> set (bm_children e)" and "d \<in> set (bm_children e)" and "banc bs c x" and "banc bs d x"
  shows "c = d"
proof -
  have "bht bs c = bht bs d"
    using children_entry [OF assms(1-3)] children_entry [OF assms(1,2,4)] by auto
  with assms show ?thesis by (blast intro: banc_same_height)
qed

section \<open>Changing chain states only\<close>

definition restate :: "('b, 'e, 'c, 'm) block_map \<Rightarrow> ('b, 'e, 'c, 'm) block_map \<Rightarrow> bool" where
  "restate bs r \<longleftrightarrow>
     map fst r = map fst bs \<and>
     (\<forall>h e. map_of bs h = Some e \<longrightarrow> (\<exists>st. map_of r h = Some (e\<lparr>bm_chain_state := st\<rparr>)))"

lemma restate_entry:
  "restate bs r \<Longrightarrow> map_of bs h = Some e \<Longrightarrow> \<exists>st. map_of r h = Some (e\<lparr>bm_chain_state := st\<rparr>)"
  by (simp add: restate_def)

lemma map_fst_map_entry [simp]: "map fst (AList.map_entry k f m) = map fst m"
  by (induction m) auto

lemma state_update_ex [simp]: "\<exists>st. e = e\<lparr>bm_chain_state := st\<rparr>"
  by (rule exI [of _ "bm_chain_state e"]) simp

lemma state_update_ex2 [simp]: "\<exists>st'. e\<lparr>bm_chain_state := st\<rparr> = e\<lparr>bm_chain_state := st'\<rparr>"
  by (rule exI [of _ st]) simp

lemma restate_refl [simp, intro]: "restate bs bs"
  by (simp add: restate_def)

lemma restate_set_state [simp, intro]: "restate bs (set_state h st bs)"
  by (simp add: restate_def set_state_def)

lemma restate_trans [trans]:
  assumes "restate a b" and "restate b c"
  shows "restate a c"
proof -
  have "\<exists>st. map_of c h = Some (e\<lparr>bm_chain_state := st\<rparr>)" if a: "map_of a h = Some e" for h e
  proof -
    obtain st where "map_of b h = Some (e\<lparr>bm_chain_state := st\<rparr>)"
      using restate_entry [OF assms(1) a] by blast
    from restate_entry [OF assms(2) this] show ?thesis by simp
  qed
  with assms show ?thesis by (simp add: restate_def)
qed

lemma restate_dom: "restate bs r \<Longrightarrow> bdom r = bdom bs"
  unfolding restate_def by (metis dom_map_of_conv_image_fst list.set_map)

lemma restate_None: "restate bs r \<Longrightarrow> map_of r h = None \<longleftrightarrow> map_of bs h = None"
  by (metis domIff restate_dom)

lemma restate_sym:
  assumes "restate bs r"
  shows "restate r bs"
proof -
  have "\<exists>st. map_of bs h = Some (e\<lparr>bm_chain_state := st\<rparr>)" if r: "map_of r h = Some e" for h e
  proof -
    obtain e0 where e0: "map_of bs h = Some e0"
      using r restate_None [OF assms, of h] by fastforce
    then obtain st where "e = e0\<lparr>bm_chain_state := st\<rparr>"
      using restate_entry [OF assms e0] r by auto
    with e0 have "map_of bs h = Some (e\<lparr>bm_chain_state := bm_chain_state e0\<rparr>)" by simp
    then show ?thesis by blast
  qed
  then show ?thesis using assms by (simp add: restate_def)
qed

lemma restate_bpar: "restate bs r \<Longrightarrow> bpar r h = bpar bs h"
  using restate_None [of bs r h] restate_entry [of bs r h]
  by (cases "map_of bs h") (auto simp: bpar_def)

lemma restate_bht: "restate bs r \<Longrightarrow> bht r h = bht bs h"
  using restate_None [of bs r h] restate_entry [of bs r h]
  by (cases "map_of bs h") (auto simp: bht_def)

lemma restate_banc: "restate bs r \<Longrightarrow> banc r = banc bs"
  using restate_dom [of bs r] anc_cong [of "bdom bs" "bpar r" "bpar bs"] restate_bpar [of bs r]
  by simp

lemma restate_children:
  assumes "restate bs r"
  shows "(\<exists>ce. map_of r c = Some ce \<and> parent_of ce = h) \<longleftrightarrow> (\<exists>ce. map_of bs c = Some ce \<and> parent_of ce = h)"
  using restate_entry [OF assms, of c] restate_None [OF assms, of c] by (cases "map_of bs c") auto

lemma restate_wf:
  assumes "restate bs r" and "bs_wf bs"
  shows "bs_wf r"
proof -
  have "entry_wf r h e" if rh: "map_of r h = Some e" for h e
  proof -
    obtain st where bh: "map_of bs h = Some (e\<lparr>bm_chain_state := st\<rparr>)"
      using restate_entry [OF restate_sym [OF assms(1)] rh] by blast
    have parents: "\<exists>pe0. map_of bs p = Some pe0 \<and> bm_block pe = bm_block pe0"
      if "map_of r p = Some pe" for p pe
      using restate_entry [OF restate_sym [OF assms(1)] that] by fastforce
    have "entry_wf bs h (e\<lparr>bm_chain_state := st\<rparr>)"
      using bs_wf_entry [OF assms(2) bh] .
    then show ?thesis
      using parents by (fastforce simp: entry_wf_def restate_children [OF assms(1)])
  qed
  then show ?thesis
    using assms by (simp add: bs_wf_def restate_def)
qed

section \<open>The length of walks along parent links\<close>

text \<open>
  The number of blocks on the ancestry of a block, the block included. A walk to the parent lowers
  it by one, so a walk that starts with as much fuel as the tree has blocks never runs out.
\<close>

definition depth :: "('b, 'e, 'c, 'm) block_map \<Rightarrow> h256 \<Rightarrow> nat" where
  "depth bs h = card {a. banc bs a h}"

lemma finite_banc [simp]: "finite {a. banc bs a h}"
  by (rule finite_subset [of _ "bdom bs"]) (auto dest: anc_nodes(1) simp: finite_dom_map_of)

lemma depth_None: "map_of bs h = None \<Longrightarrow> depth bs h = 0"
  using anc_nodes(2) [of "bdom bs" "bpar bs" _ h] by (auto simp: depth_def)

lemma depth_Some:
  assumes "bs_wf bs" and h: "map_of bs h = Some e"
  shows "depth bs h = Suc (depth bs (parent_of e))"
proof -
  have "{a. banc bs a h} = insert h {a. banc bs a (parent_of e)}"
    using h by (auto intro: banc_refl banc_proper anc_step dest: anc_nodes(2))
  moreover have "h \<notin> {a. banc bs a (parent_of e)}"
    using not_banc_parent [OF assms] by simp
  ultimately show ?thesis by (simp add: depth_def)
qed

lemma depth_le: "depth bs h \<le> length bs"
proof -
  have "depth bs h \<le> card (bdom bs)"
    unfolding depth_def by (rule card_mono) (auto dest: anc_nodes(1) simp: finite_dom_map_of)
  also have "\<dots> \<le> length bs"
    by (metis card_length dom_map_of_conv_image_fst length_map list.set_map)
  finally show ?thesis .
qed

lemma depth_banc:
  assumes wf: "bs_wf bs" and "banc bs a h"
  shows "depth bs h + bht bs a = depth bs a + bht bs h"
  using assms(2)
proof (induction rule: anc.induct)
  case (anc_refl h)
  show ?case by simp
next
  case (anc_step h a)
  then obtain e where e: "map_of bs h = Some e" by auto
  moreover obtain pe where "map_of bs (parent_of e) = Some pe"
    using anc_nodes(2) [OF anc_step(2)] e by auto
  ultimately show ?case
    using anc_step depth_Some [OF wf e] bs_wf_parent_ht [OF wf e] by simp
qed

text \<open>The fuel of a tree covers every path down from a block.\<close>

lemma banc_height_bound:
  assumes wf: "bs_wf bs" and "banc bs a h"
  shows "bht bs h < bht bs a + length bs"
proof -
  obtain e where "map_of bs a = Some e" using anc_nodes(1) [OF assms(2)] by auto
  then have "0 < depth bs a" using depth_Some [OF wf] by simp
  with depth_banc [OF assms] depth_le [of bs h] show ?thesis by linarith
qed

end
