(* ===== verification/Block_Tree_Marks.thy ===== *)
theory Block_Tree_Marks
  imports Block_Tree_Inv
begin

text \<open>
  What the two walks of \<open>mark_tip\<close> compute on a well-formed block map: \<open>mark_off_chain\<close> turns the
  \<open>Onchain\<close> blocks below its worklist into validated ones and touches nothing else, and
  \<open>mark_on_chain\<close> makes the ancestors of the new tip the \<open>Onchain\<close> blocks.
\<close>

section \<open>What the helpers of \<open>mark_tip\<close> compute\<close>

lemma banc_trans: "banc bs a b \<Longrightarrow> banc bs b c \<Longrightarrow> banc bs a c"
  by (rule anc_trans)

lemma onchain_set_state:
  "map_of bs h = Some e \<Longrightarrow>
   onchain (set_state h st bs) x \<longleftrightarrow> (if x = h then st = Onchain else onchain bs x)"
  by (auto simp: onchain_def)

lemma onchain_entry: "map_of bs h = Some e \<Longrightarrow> onchain bs h \<longleftrightarrow> bm_chain_state e = Onchain"
  by (simp add: onchain_def)

text \<open>
  The blocks still to visit are pairwise unrelated, and below each of them the \<open>Onchain\<close> blocks are
  closed under ancestors and avoid the block to spare. Both hold for the children of a block.
\<close>

definition unrelated :: "('b, 'e, 'c, 'm) block_map \<Rightarrow> h256 list \<Rightarrow> bool" where
  "unrelated bs ws \<longleftrightarrow> sorted_wrt (\<lambda>a b. \<not> banc bs a b \<and> \<not> banc bs b a) ws"

definition flip_ok :: "('b, 'e, 'c, 'm) block_map \<Rightarrow> h256 \<Rightarrow> h256 \<Rightarrow> bool" where
  "flip_ok bs cur w \<longleftrightarrow>
     (\<forall>x y. w \<noteq> cur \<longrightarrow> onchain bs x \<longrightarrow> banc bs w y \<longrightarrow> banc bs y x \<longrightarrow> onchain bs y \<and> y \<noteq> cur)"

definition flippable :: "('b, 'e, 'c, 'm) block_map \<Rightarrow> h256 \<Rightarrow> h256 list \<Rightarrow> bool" where
  "flippable bs cur ws \<longleftrightarrow> (\<forall>w \<in> set ws. flip_ok bs cur w)"

definition below :: "('b, 'e, 'c, 'm) block_map \<Rightarrow> h256 \<Rightarrow> h256 list \<Rightarrow> h256 \<Rightarrow> bool" where
  "below bs cur ws x \<longleftrightarrow> (\<exists>w \<in> set ws. w \<noteq> cur \<and> banc bs w x)"

lemma sorted_wrt_distinct:
  "distinct xs \<Longrightarrow> (\<And>a b. a \<in> set xs \<Longrightarrow> b \<in> set xs \<Longrightarrow> a \<noteq> b \<Longrightarrow> P a b) \<Longrightarrow> sorted_wrt P xs"
  by (induction xs) auto

lemma unrelated_children:
  assumes wf: "bs_wf bs" and h: "map_of bs h = Some e"
  shows "unrelated bs (bm_children e)"
proof -
  have "distinct (bm_children e)"
    using bs_wf_entry [OF wf h] by (simp add: entry_wf_def)
  moreover have "a = b" if ab: "a \<in> set (bm_children e)" "b \<in> set (bm_children e)" "banc bs a b" for a b
  proof -
    obtain be where "map_of bs b = Some be"
      using children_entry [OF wf h ab(2)] by blast
    then show ?thesis
      using children_apart [OF wf h ab] banc_refl by blast
  qed
  ultimately show ?thesis
    unfolding unrelated_def by (intro sorted_wrt_distinct) blast+
qed

lemma unrelated_push:
  assumes wf: "bs_wf bs" and h: "map_of bs h = Some e" and un: "unrelated bs (h # ws)"
  shows "unrelated bs (bm_children e @ ws)"
proof -
  have "\<not> banc bs c w \<and> \<not> banc bs w c" if c: "c \<in> set (bm_children e)" and w: "w \<in> set ws" for c w
  proof -
    have hw: "\<not> banc bs h w" "\<not> banc bs w h" using un w by (auto simp: unrelated_def)
    obtain ce where ce: "map_of bs c = Some ce" "parent_of ce = h"
      using children_entry [OF wf h c] by blast
    have "banc bs h c" using children_banc [OF wf h c] .
    then have "\<not> banc bs c w" using hw(1) by (blast intro: banc_trans)
    moreover have "\<not> banc bs w c"
      using hw banc_proper [OF ce(1), of w] ce \<open>banc bs h c\<close> by auto
    ultimately show ?thesis by simp
  qed
  then show ?thesis
    using unrelated_children [OF wf h] un by (simp add: unrelated_def sorted_wrt_append)
qed

text \<open>The effect of \<open>mark_off_chain\<close>: the \<open>Onchain\<close> blocks below the worklist become validated.\<close>

definition marked_off ::
  "('b, 'e, 'c, 'm) block_map \<Rightarrow> h256 \<Rightarrow> h256 list \<Rightarrow> ('b, 'e, 'c, 'm) block_map \<Rightarrow> bool"
where
  "marked_off bs cur ws r \<longleftrightarrow>
     restate bs r \<and>
     (\<forall>x e. map_of bs x = Some e \<longrightarrow>
        map_of r x = Some (if onchain bs x \<and> below bs cur ws x
                           then e\<lparr>bm_chain_state := Validated ValidBlock\<rparr> else e))"

lemma unrelated_tl: "unrelated bs (w # ws) \<Longrightarrow> unrelated bs ws"
  by (simp add: unrelated_def)

lemma flippable_tl: "flippable bs cur (w # ws) \<Longrightarrow> flippable bs cur ws"
  by (simp add: flippable_def)

lemma flip_okD:
  "flip_ok bs cur w \<Longrightarrow> w \<noteq> cur \<Longrightarrow> onchain bs x \<Longrightarrow> banc bs w y \<Longrightarrow> banc bs y x \<Longrightarrow>
   onchain bs y \<and> y \<noteq> cur"
  unfolding flip_ok_def by blast

lemma flippable_hd: "flippable bs cur (w # ws) \<Longrightarrow> flip_ok bs cur w"
  by (simp add: flippable_def)

lemma below_Cons: "below bs cur (w # ws) x \<longleftrightarrow> (w \<noteq> cur \<and> banc bs w x) \<or> below bs cur ws x"
  by (auto simp: below_def)

lemma below_append: "below bs cur (ws @ vs) x \<longleftrightarrow> below bs cur ws x \<or> below bs cur vs x"
  by (auto simp: below_def)

lemma marked_off_skip:
  assumes fl: "flippable bs cur (w # ws)" and w: "w = cur \<or> \<not> onchain bs w"
    and r: "marked_off bs cur ws r"
  shows "marked_off bs cur (w # ws) r"
proof -
  have "\<not> (w \<noteq> cur \<and> banc bs w x)" if x: "onchain bs x" for x
  proof
    assume a: "w \<noteq> cur \<and> banc bs w x"
    then have "banc bs w w" using anc_nodes(1) anc_refl by meson
    with flip_okD [OF flippable_hd [OF fl] _ x] a w show False by blast
  qed
  then have "onchain bs x \<and> below bs cur (w # ws) x \<longleftrightarrow> onchain bs x \<and> below bs cur ws x" for x
    unfolding below_Cons by blast
  with r show ?thesis unfolding marked_off_def by presburger
qed

lemma flippable_push:
  assumes wf: "bs_wf bs" and e: "map_of bs w = Some e" and cur: "w \<noteq> cur"
    and un: "unrelated bs (w # ws)" and fl: "flippable bs cur (w # ws)"
  shows "flippable (set_state w (Validated ValidBlock) bs) cur (bm_children e @ ws)"
proof -
  have anc1: "banc (set_state w st bs) = banc bs" for st using restate_banc by blast
  show ?thesis
    unfolding flippable_def flip_ok_def anc1 onchain_set_state [OF e]
  proof (intro ballI allI impI)
    fix v x y
    assume v: "v \<in> set (bm_children e @ ws)" "v \<noteq> cur" and y: "banc bs v y" "banc bs y x"
      and x0: "if x = w then Validated ValidBlock = Onchain else onchain bs x"
    have x: "x \<noteq> w" "onchain bs x" using x0 by (auto split: if_splits)
    have "y \<noteq> w \<and> onchain bs y \<and> y \<noteq> cur"
    proof (cases "v \<in> set ws")
      case True
      then have "\<not> banc bs v w" using un by (auto simp: unrelated_def)
      with y have "y \<noteq> w" by blast
      moreover have "onchain bs y \<and> y \<noteq> cur"
        using flip_okD [OF _ v(2) x(2) y] fl True by (simp add: flippable_def)
      ultimately show ?thesis by blast
    next
      case False
      with v have c: "v \<in> set (bm_children e)" by simp
      have wv: "banc bs w v" using children_banc [OF wf e c] .
      have "y \<noteq> w"
      proof
        assume "y = w"
        with y(1) wv have "w = v" using banc_antisym [OF wf] by blast
        then show False using children_entry [OF wf e c] by auto
      qed
      with flip_okD [OF flippable_hd [OF fl] cur x(2) banc_trans [OF wv y(1)] y(2)] show ?thesis by blast
    qed
    then show "(if y = w then Validated ValidBlock = Onchain else onchain bs y) \<and> y \<noteq> cur" by simp
  qed
qed

lemma below_push:
  assumes wf: "bs_wf bs" and e: "map_of bs w = Some e" and cur: "w \<noteq> cur"
    and fl: "flippable bs cur (w # ws)" and x: "onchain bs x" "x \<noteq> w"
  shows "below bs cur (bm_children e @ ws) x \<longleftrightarrow> below bs cur (w # ws) x"
proof -
  have "below bs cur (bm_children e) x \<longleftrightarrow> banc bs w x"
  proof
    assume "below bs cur (bm_children e) x"
    then show "banc bs w x"
      unfolding below_def using children_banc [OF wf e] banc_trans by blast
  next
    assume wx: "banc bs w x"
    then obtain c where c: "c \<in> set (bm_children e)" "banc bs c x"
      using banc_child [OF wf e] x(2) by blast
    then have "c \<noteq> cur"
      using flip_okD [OF flippable_hd [OF fl] cur x(1) children_banc [OF wf e c(1)]] by blast
    with c show "below bs cur (bm_children e) x" unfolding below_def by blast
  qed
  then show ?thesis using cur by (simp add: below_append below_Cons)
qed

lemma marked_off_push:
  assumes wf: "bs_wf bs" and e: "map_of bs w = Some e" and on: "bm_chain_state e = Onchain"
    and cur: "w \<noteq> cur" and fl: "flippable bs cur (w # ws)"
    and r: "marked_off (set_state w (Validated ValidBlock) bs) cur (bm_children e @ ws) r"
  shows "marked_off bs cur (w # ws) r"
proof -
  let ?bs1 = "set_state w (Validated ValidBlock) bs"
  have re: "restate bs ?bs1" by blast
  have "below ?bs1 = below bs" unfolding below_def restate_banc [OF re] by simp
  moreover have "below bs cur (w # ws) w" using banc_refl [OF e] cur by (simp add: below_Cons)
  ultimately have "map_of r x = Some (if onchain bs x \<and> below bs cur (w # ws) x
      then e'\<lparr>bm_chain_state := Validated ValidBlock\<rparr> else e')" if "map_of bs x = Some e'" for x e'
    using r that e on below_push [OF wf e cur fl, of x]
    unfolding marked_off_def onchain_set_state [OF e] by (cases "x = w") (auto simp: onchain_def)
  moreover have "restate bs r" using r re restate_trans unfolding marked_off_def by blast
  ultimately show ?thesis unfolding marked_off_def by blast
qed

lemma mark_off_chain_spec:
  assumes "bs_wf bs" and "unrelated bs ws" and "flippable bs cur ws"
  shows "marked_off bs cur ws (mark_off_chain cur ws bs)"
  using assms
proof (induction cur ws bs rule: mark_off_chain.induct)
  case (1 cur bs)
  then show ?case by (simp add: below_def marked_off_def)
next
  case (2 cur w ws bs)
  note wf = "2.prems"(1) and un = "2.prems"(2) and fl = "2.prems"(3)
  note skip = marked_off_skip [OF fl] and rest = wf unrelated_tl [OF un] flippable_tl [OF fl]
  show ?case
  proof (cases "w = cur")
    case True
    with skip "2.IH"(1) [OF True rest] show ?thesis by simp
  next
    case cur: False
    show ?thesis
    proof (cases "map_of bs w")
      case None
      with skip "2.IH"(2) [OF cur None rest] cur show ?thesis by (simp add: onchain_def)
    next
      case e: (Some e)
      show ?thesis
      proof (cases "bm_chain_state e = Onchain")
        case True
        have re: "restate bs (set_state w (Validated ValidBlock) bs)" by blast
        have "unrelated (set_state w (Validated ValidBlock) bs) (bm_children e @ ws)"
          using unrelated_push [OF wf e un] by (simp add: unrelated_def restate_banc [OF re])
        then have "marked_off (set_state w (Validated ValidBlock) bs) cur (bm_children e @ ws)
            (mark_off_chain cur (bm_children e @ ws) (set_state w (Validated ValidBlock) bs))"
          using "2.IH"(3) [OF cur e True restate_wf [OF re wf]] flippable_push [OF wf e cur un fl] by blast
        from marked_off_push [OF wf e True cur fl this] show ?thesis using e True cur by simp
      next
        case False
        with skip "2.IH"(4) [OF cur e False rest] cur e show ?thesis by (simp add: onchain_def)
      qed
    qed
  qed
qed

lemma mark_off_chain_id:
  "(\<And>w. w \<in> set ws \<Longrightarrow> w \<noteq> cur \<Longrightarrow> \<not> onchain bs w) \<Longrightarrow> mark_off_chain cur ws bs = bs"
  by (induction ws) (auto simp: onchain_def split: option.splits)

text \<open>
  \<open>mark_on_chain\<close> climbs from a block \<open>c\<close> off the old chain. \<open>M\<close> are the blocks it has marked so far,
  all of them at or below \<open>c\<close>; at the end the \<open>Onchain\<close> blocks are \<open>M\<close> and the proper ancestors of
  \<open>c\<close>, and the blocks that left the chain are validated.
\<close>

definition markable :: "chain_state \<Rightarrow> bool" where
  "markable st \<longleftrightarrow> st = Onchain \<or> st = NotOnchain ValidBlock \<or> is_validated st"

definition new_state :: "bool \<Rightarrow> chain_state \<Rightarrow> chain_state" where
  "new_state target st = (if target then Onchain else if st = Onchain then Validated ValidBlock else st)"

definition remarked ::
  "('b, 'e, 'c, 'm) block_map \<Rightarrow> (h256 \<Rightarrow> bool) \<Rightarrow> ('b, 'e, 'c, 'm) block_map \<Rightarrow> bool"
where
  "remarked bs T r \<longleftrightarrow>
     map fst r = map fst bs \<and>
     (\<forall>x e. map_of bs x = Some e \<longrightarrow>
        map_of r x = Some (e\<lparr>bm_chain_state := new_state (T x) (bm_chain_state e)\<rparr>))"

lemma remarked_restate: "remarked bs T r \<Longrightarrow> restate bs r"
  by (auto simp: remarked_def restate_def)

lemma remarked_onchain: "remarked bs T r \<Longrightarrow> onchain r x \<longleftrightarrow> T x \<and> x \<in> bdom bs"
  using restate_None [OF remarked_restate, of bs T r x]
  by (cases "map_of bs x") (auto simp: remarked_def onchain_def new_state_def)

lemma remarked_off:
  assumes r: "marked_off bs cur ws r"
    and T: "\<And>x. onchain bs x \<Longrightarrow> T x \<longleftrightarrow> \<not> below bs cur ws x" "\<And>x. T x \<Longrightarrow> onchain bs x"
  shows "remarked bs T r"
  unfolding remarked_def
proof (intro conjI allI impI)
  show "map fst r = map fst bs" using r by (simp add: marked_off_def restate_def)
next
  fix x e
  assume e: "map_of bs x = Some e"
  then have "map_of r x = Some (if onchain bs x \<and> below bs cur ws x
      then e\<lparr>bm_chain_state := Validated ValidBlock\<rparr> else e)"
    using r by (simp add: marked_off_def)
  then show "map_of r x = Some (e\<lparr>bm_chain_state := new_state (T x) (bm_chain_state e)\<rparr>)"
    using T [of x] e by (cases "onchain bs x") (auto simp: new_state_def onchain_entry)
qed

lemma remarked_set_state:
  assumes p: "map_of bs p = Some pe" and r: "remarked (set_state p Onchain bs) T r" and T: "T p"
  shows "remarked bs T r"
  unfolding remarked_def
proof (intro conjI allI impI)
  show "map fst r = map fst bs" using r by (simp add: remarked_def set_state_def)
next
  fix x e
  assume x: "map_of bs x = Some e"
  define e1 where "e1 = (if x = p then e\<lparr>bm_chain_state := Onchain\<rparr> else e)"
  have "map_of (set_state p Onchain bs) x = Some e1" using x by (auto simp: e1_def)
  then have "map_of r x = Some (e1\<lparr>bm_chain_state := new_state (T x) (bm_chain_state e1)\<rparr>)"
    using r by (simp add: remarked_def)
  then show "map_of r x = Some (e\<lparr>bm_chain_state := new_state (T x) (bm_chain_state e)\<rparr>)"
    using T by (simp add: e1_def new_state_def split: if_splits)
qed

text \<open>The last step of the climb: the parent of \<open>c\<close> is on the old chain.\<close>

lemma remarked_fork:
  assumes wf: "bs_wf bs" and c: "map_of bs c = Some ce" and p: "map_of bs (parent_of ce) = Some pe"
    and off: "\<not> banc bs c tp" and on: "\<And>x. onchain bs x \<longleftrightarrow> banc bs x tp \<or> x \<in> M"
    and M: "\<And>x. x \<in> M \<Longrightarrow> banc bs c x" and pon: "onchain bs (parent_of ce)"
  shows "remarked bs (\<lambda>x. (banc bs x c \<and> x \<noteq> c) \<or> x \<in> M) (mark_off_chain c (bm_children pe) bs)"
proof (rule remarked_off)
  let ?p = "parent_of ce"
  have cc: "c \<in> set (bm_children pe)" using bs_wf_children [OF wf p] c by blast
  have ptp: "banc bs ?p tp" using pon on M not_banc_parent [OF wf c] by blast
  have apart: "w = c" if "w \<in> set (bm_children pe)" "banc bs w x" "banc bs c x" for w x
    using children_apart [OF wf p that(1) cc that(2,3)] .
  have "flip_ok bs c w" if w: "w \<in> set (bm_children pe)" for w
    unfolding flip_ok_def
  proof (intro allI impI)
    fix x y
    assume a: "w \<noteq> c" "onchain bs x" "banc bs w y" "banc bs y x"
    then have "banc bs w x" by (blast intro: banc_trans)
    with a apart [OF w] M have "banc bs x tp" using on by blast
    then have "banc bs y tp" using a by (blast intro: banc_trans)
    then show "onchain bs y \<and> y \<noteq> c" using on off by blast
  qed
  then show "marked_off bs c (bm_children pe) (mark_off_chain c (bm_children pe) bs)"
    using mark_off_chain_spec [OF wf unrelated_children [OF wf p]] by (simp add: flippable_def)
  have up: "banc bs x c \<and> x \<noteq> c \<longleftrightarrow> banc bs x ?p" for x
    using banc_proper [OF c, of x] banc_parent [OF c p] banc_trans [of bs x ?p c] not_banc_parent [OF wf c]
    by blast
  fix x
  show "onchain bs x" if "banc bs x c \<and> x \<noteq> c \<or> x \<in> M"
    using that up on banc_trans [OF _ ptp] by blast
  assume x: "onchain bs x"
  show "(banc bs x c \<and> x \<noteq> c \<or> x \<in> M) \<longleftrightarrow> \<not> below bs c (bm_children pe) x"
  proof
    assume T: "banc bs x c \<and> x \<noteq> c \<or> x \<in> M"
    show "\<not> below bs c (bm_children pe) x"
    proof
      assume "below bs c (bm_children pe) x"
      then obtain w where w: "w \<in> set (bm_children pe)" "w \<noteq> c" "banc bs w x" by (auto simp: below_def)
      then have "x \<notin> M" using apart M by blast
      with T up have "banc bs x ?p" by blast
      then have "banc bs w ?p" using w(3) by (blast intro: banc_trans)
      moreover obtain we where "map_of bs w = Some we" "parent_of we = ?p"
        using children_entry [OF wf p w(1)] by blast
      ultimately show False using not_banc_parent [OF wf, of w we] by simp
    qed
  next
    assume nb: "\<not> below bs c (bm_children pe) x"
    show "banc bs x c \<and> x \<noteq> c \<or> x \<in> M"
    proof (rule ccontr)
      assume n: "\<not> ?thesis"
      then have xt: "banc bs x tp" using x on by blast
      then have "banc bs ?p x" "?p \<noteq> x"
        using banc_linear [OF wf xt ptp] n up banc_refl [OF p] by blast+
      then obtain w where w: "w \<in> set (bm_children pe)" "banc bs w x" using banc_child [OF wf p] by blast
      moreover have "w \<noteq> c" using w(2) xt off banc_trans by blast
      ultimately show False using nb by (auto simp: below_def)
    qed
  qed
qed

lemma mark_on_chain_spec:
  assumes "bs_wf bs" and "map_of bs c = Some ce" and "header_of ce = hdr"
    and "\<not> banc bs c tp" and "\<exists>a. banc bs a c \<and> banc bs a tp"
    and "\<And>x. onchain bs x \<longleftrightarrow> banc bs x tp \<or> x \<in> M" and "\<And>x. x \<in> M \<Longrightarrow> banc bs c x"
    and "\<And>x e. banc bs x c \<Longrightarrow> x \<noteq> c \<Longrightarrow> map_of bs x = Some e \<Longrightarrow> markable (bm_chain_state e)"
  shows "\<exists>r. mark_on_chain hdr bs = (Inr (), r) \<and>
    remarked bs (\<lambda>x. (banc bs x c \<and> x \<noteq> c) \<or> x \<in> M) r"
  using assms
proof (induction hdr bs arbitrary: c ce M rule: mark_on_chain.induct)
  case (1 hdr bs)
  note wf = "1.prems"(1) and c = "1.prems"(2) and hdr = "1.prems"(3) and off = "1.prems"(4)
    and on = "1.prems"(6) and M = "1.prems"(7) and ok = "1.prems"(8)
  let ?p = "parent_of ce"
  have hash: "bh_block_hash hdr = c" using bs_wf_hash [OF wf c] hdr by simp
  have prev: "bh_previous_block_hash hdr = ?p" using hdr by simp
  obtain a where a: "banc bs a ?p" "banc bs a tp"
    using "1.prems"(5) off banc_proper [OF c] by blast
  then obtain pe where p: "map_of bs ?p = Some pe" using anc_nodes(2) by fastforce
  have up: "banc bs x c \<and> x \<noteq> c \<longleftrightarrow> banc bs x ?p" for x
    using banc_proper [OF c, of x] banc_parent [OF c p] banc_trans [of bs x ?p c] not_banc_parent [OF wf c]
    by blast
  have mp: "markable (bm_chain_state pe)" using ok [of ?p pe] up banc_refl [OF p] p by blast
  show ?case
  proof (cases "bm_chain_state pe = Onchain")
    case True
    then have "onchain bs ?p" using p by (simp add: onchain_def)
    from remarked_fork [OF wf c p off on M this] show ?thesis
      using True p by (simp add: mark_on_chain.simps [of hdr] prev hash)
  next
    case False
    define bs1 where "bs1 = set_state ?p Onchain bs"
    have re: "restate bs bs1" unfolding bs1_def by blast
    have anc1: "banc bs1 = banc bs" using restate_banc [OF re] .
    have p1: "map_of bs1 ?p = Some (pe\<lparr>bm_chain_state := Onchain\<rparr>)" using p by (simp add: bs1_def)
    have poff: "\<not> banc bs ?p tp" using False on [of ?p] onchain_entry [OF p] by blast
    have step: "mark_on_chain hdr bs = mark_on_chain (header_of pe) bs1"
      using p False mp by (simp add: mark_on_chain.simps [of hdr] prev markable_def bs1_def)
    have "\<exists>r. mark_on_chain (header_of pe) bs1 = (Inr (), r) \<and>
        remarked bs1 (\<lambda>x. (banc bs1 x ?p \<and> x \<noteq> ?p) \<or> x \<in> insert ?p M) r"
    proof (rule "1.IH" [of pe, unfolded prev, folded bs1_def])
      show "map_of bs ?p = Some pe" by (rule p)
      show "bm_chain_state pe \<noteq> Onchain" by (rule False)
      show "bm_chain_state pe = NotOnchain ValidBlock \<or> is_validated (bm_chain_state pe)"
        using mp False by (simp add: markable_def)
      show "bs_wf bs1" by (rule restate_wf [OF re wf])
      show "map_of bs1 ?p = Some (pe\<lparr>bm_chain_state := Onchain\<rparr>)" by (rule p1)
      show "header_of (pe\<lparr>bm_chain_state := Onchain\<rparr>) = header_of pe" by simp
      show "\<not> banc bs1 ?p tp" "\<exists>a. banc bs1 a ?p \<and> banc bs1 a tp" using poff a anc1 by auto
      show "onchain bs1 x \<longleftrightarrow> banc bs1 x tp \<or> x \<in> insert ?p M" for x
        using on [of x] onchain_set_state [OF p, of Onchain x, folded bs1_def] unfolding anc1 by auto
      show "banc bs1 ?p x" if "x \<in> insert ?p M" for x
        using that M banc_refl [OF p] banc_parent [OF c p] banc_trans unfolding anc1 by blast
      show "markable (bm_chain_state e)" if "banc bs1 x ?p" "x \<noteq> ?p" "map_of bs1 x = Some e" for x e
        using ok [of x e] that up [of x] unfolding anc1 by (auto simp: bs1_def)
    qed
    then obtain r where r: "mark_on_chain hdr bs = (Inr (), r)"
      and re1: "remarked bs1 (\<lambda>x. (banc bs x ?p \<and> x \<noteq> ?p) \<or> x \<in> insert ?p M) r"
      by (auto simp: step anc1)
    have T: "((banc bs x ?p \<and> x \<noteq> ?p) \<or> x \<in> insert ?p M) = ((banc bs x c \<and> x \<noteq> c) \<or> x \<in> M)" for x
      using up [of x] banc_refl [OF p] by auto
    have "remarked bs (\<lambda>x. (banc bs x c \<and> x \<noteq> c) \<or> x \<in> M) r"
      using remarked_set_state [OF p re1 [unfolded bs1_def T]] up banc_refl [OF p] by blast
    with r show ?thesis by blast
  qed
qed

end
