(* ===== verification/Block_Tree_Tip.thy ===== *)
theory Block_Tree_Tip
  imports Block_Tree_Marks
begin

text \<open>
  The invariant \<open>tree_inv\<close> of the block tree and the operations that change chain states.

  \<^item> \<open>bs_wf\<close>: the block map is a forest.
  \<^item> \<open>chain_inv\<close>: the \<open>Onchain\<close> blocks are exactly the tip and its ancestors, and every block shares
    an ancestor with the tip.
  \<^item> \<open>seq_inv\<close>: insertion sequence numbers are below the counter and identify a block.
  \<^item> \<open>max_inv\<close>: the recorded maximum is the highest cumulative difficulty, and the recorded block is
    the first of the blocks that reach it to have been inserted.
  \<^item> \<open>index_inv\<close>: the two indices list exactly the blocks of the map.
  \<^item> \<open>cache_inv\<close>: the cached canonical chain is the one a recomputation gives.
\<close>

section \<open>The parts of the invariant\<close>

definition chain_inv :: "('b, 'e, 'c, 'm) block_map \<Rightarrow> h256 \<Rightarrow> bool" where
  "chain_inv bs tp \<longleftrightarrow>
     tp \<in> bdom bs \<and> (\<forall>h. onchain bs h \<longleftrightarrow> banc bs h tp) \<and>
     (\<forall>h \<in> bdom bs. \<exists>a. banc bs a h \<and> banc bs a tp)"

definition seq_inv :: "('b, 'e, 'c, 'm) block_map \<Rightarrow> nat \<Rightarrow> bool" where
  "seq_inv bs n \<longleftrightarrow>
     (\<forall>h e. map_of bs h = Some e \<longrightarrow> bm_insertion_sequence e < n) \<and>
     (\<forall>h e h' e'. map_of bs h = Some e \<longrightarrow> map_of bs h' = Some e' \<longrightarrow>
        bm_insertion_sequence e = bm_insertion_sequence e' \<longrightarrow> h = h')"

definition max_inv :: "('b, 'e, 'c, 'm) block_map \<Rightarrow> u256 \<times> h256 \<Rightarrow> bool" where
  "max_inv bs mx \<longleftrightarrow>
     (\<exists>e. map_of bs (snd mx) = Some e \<and> diff_of e = fst mx \<and>
        (\<forall>h' e'. map_of bs h' = Some e' \<longrightarrow>
           diff_of e' < fst mx \<or>
           diff_of e' = fst mx \<and> bm_insertion_sequence e \<le> bm_insertion_sequence e'))"

definition index_inv ::
  "('b, 'e, 'c, 'm) block_map \<Rightarrow> (h256 \<times> h256 list) list \<Rightarrow> (nat \<times> h256 list) list \<Rightarrow> bool"
where
  "index_inv bs sols hs \<longleftrightarrow>
     index_ok sols \<and> index_ok hs \<and>
     (\<forall>s. index_get sols s = {h. \<exists>e. map_of bs h = Some e \<and> bh_solution_hash (header_of e) = s}) \<and>
     (\<forall>n. index_get hs n = {h. \<exists>e. map_of bs h = Some e \<and> height_of e = n})"

definition cache_inv :: "('b, 'e, 'c, 'm) block_tree \<Rightarrow> bool" where
  "cache_inv t \<longleftrightarrow> update_longest_chain_cache t = t"

definition tree_inv :: "('b, 'e, 'c, 'm) block_tree \<Rightarrow> bool" where
  "tree_inv t \<longleftrightarrow>
     bs_wf (blocks t) \<and> chain_inv (blocks t) (tip t) \<and>
     seq_inv (blocks t) (next_insertion_sequence t) \<and>
     max_inv (blocks t) (max_cumulative_difficulty t) \<and>
     index_inv (blocks t) (solutions t) (height_index t) \<and> cache_inv t"

lemma tree_invD:
  assumes "tree_inv t"
  shows "bs_wf (blocks t)" "chain_inv (blocks t) (tip t)"
    "seq_inv (blocks t) (next_insertion_sequence t)"
    "max_inv (blocks t) (max_cumulative_difficulty t)"
    "index_inv (blocks t) (solutions t) (height_index t)" "cache_inv t"
  using assms by (simp_all add: tree_inv_def)

lemma update_cache_fields [simp]:
  "blocks (update_longest_chain_cache t) = blocks t"
  "solutions (update_longest_chain_cache t) = solutions t"
  "tip (update_longest_chain_cache t) = tip t"
  "max_cumulative_difficulty (update_longest_chain_cache t) = max_cumulative_difficulty t"
  "next_insertion_sequence (update_longest_chain_cache t) = next_insertion_sequence t"
  "height_index (update_longest_chain_cache t) = height_index t"
  "block_tree_depth (update_longest_chain_cache t) = block_tree_depth t"
  "block_migration_depth (update_longest_chain_cache t) = block_migration_depth t"
  by (simp_all add: update_longest_chain_cache_def split: prod.splits)

lemma cache_inv_update [simp, intro]: "cache_inv (update_longest_chain_cache t)"
  by (simp add: cache_inv_def update_longest_chain_cache_def split: prod.splits)

lemma tree_inv_update:
  "tree_inv (update_longest_chain_cache t) \<longleftrightarrow>
     bs_wf (blocks t) \<and> chain_inv (blocks t) (tip t) \<and>
     seq_inv (blocks t) (next_insertion_sequence t) \<and>
     max_inv (blocks t) (max_cumulative_difficulty t) \<and>
     index_inv (blocks t) (solutions t) (height_index t)"
  by (simp add: tree_inv_def)

lemma chain_inv_onchain: "chain_inv bs tp \<Longrightarrow> onchain bs h \<longleftrightarrow> banc bs h tp"
  by (simp add: chain_inv_def)

lemma chain_inv_common: "chain_inv bs tp \<Longrightarrow> map_of bs h = Some e \<Longrightarrow> \<exists>a. banc bs a h \<and> banc bs a tp"
  unfolding chain_inv_def by blast

lemma chain_inv_tip: "chain_inv bs tp \<Longrightarrow> \<exists>e. map_of bs tp = Some e \<and> bm_chain_state e = Onchain"
  using chain_inv_onchain [of bs tp tp] by (auto simp: chain_inv_def onchain_def intro: anc_refl)

text \<open>What a map gives up when only chain states change.\<close>

lemma restate_payload:
  assumes "restate bs r"
  shows "(\<exists>e. map_of r h = Some e \<and> P (bm_block e) (bm_insertion_sequence e)) \<longleftrightarrow>
         (\<exists>e. map_of bs h = Some e \<and> P (bm_block e) (bm_insertion_sequence e))"
  using restate_entry [OF assms, of h] restate_None [OF assms, of h] by (cases "map_of bs h") auto

lemma restate_lookup:
  assumes "restate bs r" and "map_of r h = Some e"
  shows "\<exists>e0. map_of bs h = Some e0 \<and> bm_block e0 = bm_block e \<and>
    bm_insertion_sequence e0 = bm_insertion_sequence e"
  using restate_entry [OF restate_sym [OF assms(1)] assms(2)] by auto

lemma restate_seq_inv: "restate bs r \<Longrightarrow> seq_inv bs n \<Longrightarrow> seq_inv r n"
  unfolding seq_inv_def by (metis restate_lookup)

lemma restate_max_inv:
  assumes re: "restate bs r" and "max_inv bs mx"
  shows "max_inv r mx"
proof -
  obtain e where e: "map_of bs (snd mx) = Some e" "diff_of e = fst mx"
    and mx: "\<And>h' e'. map_of bs h' = Some e' \<Longrightarrow> diff_of e' < fst mx \<or>
           diff_of e' = fst mx \<and> bm_insertion_sequence e \<le> bm_insertion_sequence e'"
    using assms(2) unfolding max_inv_def by blast
  obtain st where "map_of r (snd mx) = Some (e\<lparr>bm_chain_state := st\<rparr>)"
    using restate_entry [OF re e(1)] by blast
  moreover have "diff_of e' < fst mx \<or>
      diff_of e' = fst mx \<and> bm_insertion_sequence e \<le> bm_insertion_sequence e'"
    if r: "map_of r h' = Some e'" for h' e'
    using restate_lookup [OF re r] mx [of h'] by auto
  ultimately show ?thesis using e(2) unfolding max_inv_def by auto
qed

lemma restate_index_inv: "restate bs r \<Longrightarrow> index_inv bs s hs \<Longrightarrow> index_inv r s hs"
  unfolding index_inv_def
  using restate_payload [of bs r _ "\<lambda>b _. bh_solution_hash (sb_header b) = _"]
    restate_payload [of bs r _ "\<lambda>b _. bh_height (sb_header b) = _"] by simp

text \<open>Changing the state of blocks without touching who is on chain keeps the invariant.\<close>

lemma tree_inv_restate:
  assumes inv: "tree_inv t" and re: "restate (blocks t) r"
    and on: "\<And>h. onchain r h \<longleftrightarrow> banc r h tp" and tp: "tp \<in> bdom (blocks t)"
    and common: "\<And>h. h \<in> bdom (blocks t) \<Longrightarrow> \<exists>a. banc (blocks t) a h \<and> banc (blocks t) a tp"
  shows "tree_inv (update_longest_chain_cache (t\<lparr>blocks := r, tip := tp\<rparr>))"
proof -
  note I = tree_invD [OF inv]
  have "chain_inv r tp"
    using on tp common unfolding chain_inv_def restate_banc [OF re] unfolding restate_dom [OF re] by blast
  then show ?thesis
    using I restate_wf [OF re] restate_seq_inv [OF re] restate_max_inv [OF re] restate_index_inv [OF re]
    by (simp add: tree_inv_update)
qed

section \<open>A new tree\<close>

lemma collect_chain_None: "map_of bs cur = None \<Longrightarrow> collect_chain bs n cur = ([], 0)"
  by (simp add: collect_chain.simps [of bs n cur])

lemma collect_chain_0:
  "map_of bs cur = Some e \<Longrightarrow>
   collect_chain bs 0 cur = ([bm_block e], if bm_chain_state e \<noteq> Onchain then 1 else 0)"
  by (simp add: collect_chain.simps [of bs 0 cur])

lemma collect_chain_Suc:
  "map_of bs cur = Some e \<Longrightarrow>
   collect_chain bs (Suc n) cur =
     (if height_of e = 0 then ([bm_block e], if bm_chain_state e \<noteq> Onchain then 1 else 0)
      else (bm_block e # fst (collect_chain bs n (parent_of e)),
            (if bm_chain_state e \<noteq> Onchain then 1 else 0) + snd (collect_chain bs n (parent_of e))))"
  by (simp add: collect_chain.simps [of bs "Suc n" cur] split: prod.splits)

lemma banc_single: "banc [(h, e)] a b \<longleftrightarrow> a = h \<and> b = h"
proof
  assume "banc [(h, e)] a b"
  from anc_nodes [OF this] show "a = h \<and> b = h" by (auto split: if_splits)
next
  assume "a = h \<and> b = h"
  then show "banc [(h, e)] a b" using banc_refl [of "[(h, e)]" h e] by simp
qed

lemma tree_inv_new:
  assumes g: "bh_previous_block_hash (sb_header g) \<noteq> bh_block_hash (sb_header g)"
  shows "tree_inv (bt_new now d m g cs es ms)"
proof -
  let ?t = "bt_new now d m g cs es ms" and ?h = "bh_block_hash (sb_header g)"
  obtain e where bs: "blocks ?t = [(?h, e)]" and e: "bm_block e = g" "bm_chain_state e = Onchain"
    "bm_children e = []" "bm_insertion_sequence e = 0"
    by (simp add: bt_new_def Let_def)
  note anc = banc_single [of ?h e]
  have "bs_wf [(?h, e)]"
    using e g by (auto simp: bs_wf_def entry_wf_def)
  moreover have "chain_inv [(?h, e)] ?h"
    unfolding chain_inv_def anc using e(2) by (auto simp: onchain_def)
  moreover have "seq_inv [(?h, e)] 1"
    using e by (simp add: seq_inv_def)
  moreover have "max_inv [(?h, e)] (bh_cumulative_diff (sb_header g), ?h)"
    using e by (simp add: max_inv_def)
  moreover have "index_inv [(?h, e)] [(bh_solution_hash (sb_header g), [?h])] [(bh_height (sb_header g), [?h])]"
    using e by (auto simp: index_inv_def index_ok_def index_get_def bt_sorted_def split: if_splits)
  moreover have "cache_inv ?t"
    using g by (cases d) (simp_all add: cache_inv_def update_longest_chain_cache_def bt_new_def Let_def
        collect_chain_None collect_chain_0 collect_chain_Suc)
  ultimately show ?thesis
    unfolding tree_inv_def bs by (simp add: bt_new_def Let_def)
qed

section \<open>Marking a block\<close>

lemma map_entry_id:
  "distinct (map fst m) \<Longrightarrow> map_of m k = Some v \<Longrightarrow> f v = v \<Longrightarrow> AList.map_entry k f m = m"
  by (induction m) (auto split: if_splits)


lemma tree_inv_set_state:
  assumes inv: "tree_inv t" and h: "map_of (blocks t) h = Some e"
    and st: "bm_chain_state e \<noteq> Onchain" "st \<noteq> Onchain"
  shows "tree_inv (update_longest_chain_cache (t\<lparr>blocks := set_state h st (blocks t)\<rparr>))"
proof -
  note C = tree_invD(2) [OF inv]
  have re: "restate (blocks t) (set_state h st (blocks t))" by blast
  have "onchain (set_state h st (blocks t)) x \<longleftrightarrow> banc (set_state h st (blocks t)) x (tip t)" for x
    unfolding onchain_set_state [OF h] restate_banc [OF re]
    using st chain_inv_onchain [OF C, of x] onchain_entry [OF h] by auto
  from tree_inv_restate [OF inv re this] C show ?thesis
    by (simp add: chain_inv_def)
qed

lemma mark_block_as_valid_inv:
  assumes "tree_inv t"
  shows "tree_inv (snd (mark_block_as_valid h t))"
  using assms
  by (auto simp: mark_block_as_valid_def intro: tree_inv_set_state
      split: option.splits chain_state.splits block_state.splits)

lemma mark_block_as_validation_scheduled_inv:
  assumes "tree_inv t"
  shows "tree_inv (mark_block_as_validation_scheduled h t)"
  using assms
  by (auto simp: mark_block_as_validation_scheduled_def intro: tree_inv_set_state split: option.splits)

section \<open>Moving the tip\<close>

text \<open>The blocks that \<open>mark_tip\<close> leaves on chain are the ancestors of the new tip.\<close>

lemma mark_tip_fork:
  assumes inv: "tree_inv t" and h: "map_of (blocks t) h = Some e"
    and mx: "diff_of e \<noteq> fst (max_cumulative_difficulty t) \<or> snd (max_cumulative_difficulty t) = h"
    and off: "\<not> banc (blocks t) h (tip t)"
    and ok: "\<And>x xe. banc (blocks t) x h \<Longrightarrow> x \<noteq> h \<Longrightarrow> map_of (blocks t) x = Some xe \<Longrightarrow>
               markable (bm_chain_state xe)"
  shows "\<exists>r. remarked (blocks t) (\<lambda>x. banc (blocks t) x h) r \<and>
    mark_tip h t = (Inr True, update_longest_chain_cache (t\<lparr>blocks := r, tip := h\<rparr>))"
proof -
  let ?bs = "blocks t"
  note wf = tree_invD(1) [OF inv] and C = tree_invD(2) [OF inv]
  have "\<exists>r. mark_on_chain (header_of e) ?bs = (Inr (), r) \<and>
      remarked ?bs (\<lambda>x. (banc ?bs x h \<and> x \<noteq> h) \<or> x \<in> {}) r"
    by (rule mark_on_chain_spec [OF wf h refl off chain_inv_common [OF C h]])
      (use chain_inv_onchain [OF C] ok in auto)
  then obtain r where r: "mark_on_chain (header_of e) ?bs = (Inr (), r)"
    and re: "remarked ?bs (\<lambda>x. banc ?bs x h \<and> x \<noteq> h) r" by auto
  have "h \<noteq> tip t" using off banc_refl chain_inv_tip [OF C] by blast
  then have "mark_tip h t =
      (Inr True, update_longest_chain_cache (t\<lparr>blocks := set_state h Onchain r, tip := h\<rparr>))"
    using h mx r by (auto simp: mark_tip_def split: prod.splits)
  moreover have "remarked ?bs (\<lambda>x. banc ?bs x h) (set_state h Onchain r)"
    using re banc_refl [OF h] by (auto simp: remarked_def set_state_def new_state_def)
  ultimately show ?thesis by blast
qed

lemma tree_inv_remarked:
  assumes inv: "tree_inv t" and h: "map_of (blocks t) h = Some e"
    and re: "remarked (blocks t) (\<lambda>x. banc (blocks t) x h) r"
  shows "tree_inv (update_longest_chain_cache (t\<lparr>blocks := r, tip := h\<rparr>))"
proof (rule tree_inv_restate [OF inv remarked_restate [OF re]])
  note wf = tree_invD(1) [OF inv] and C = tree_invD(2) [OF inv]
  show "onchain r x \<longleftrightarrow> banc r x h" for x
    unfolding remarked_onchain [OF re] restate_banc [OF remarked_restate [OF re]]
    using anc_nodes(1) [of "bdom (blocks t)" "bpar (blocks t)" x h] by blast
  show "h \<in> bdom (blocks t)" using h by auto
  fix x
  assume "x \<in> bdom (blocks t)"
  then obtain a where a: "banc (blocks t) a x" "banc (blocks t) a (tip t)"
    using chain_inv_common [OF C, of x] by blast
  obtain b where b: "banc (blocks t) b h" "banc (blocks t) b (tip t)"
    using chain_inv_common [OF C h] by blast
  from banc_linear [OF wf a(2) b(2)] show "\<exists>a. banc (blocks t) a x \<and> banc (blocks t) a h"
    using a(1) b(1) by (blast intro: banc_trans)
qed

text \<open>Marking the current tip again changes nothing.\<close>

lemma mark_tip_again:
  assumes inv: "tree_inv t" and mx: "snd (max_cumulative_difficulty t) = tip t"
  shows "mark_tip (tip t) t = (Inr False, t)"
proof -
  let ?bs = "blocks t"
  note wf = tree_invD(1) [OF inv] and C = tree_invD(2) [OF inv]
  obtain e where e: "map_of ?bs (tip t) = Some e" "bm_chain_state e = Onchain"
    using chain_inv_tip [OF C] by blast
  have same: "mark_off_chain (tip t) (bm_children pe) ?bs = ?bs" if pe: "map_of ?bs (parent_of e) = Some pe" for pe
  proof (rule mark_off_chain_id)
    fix w
    assume w: "w \<in> set (bm_children pe)" "w \<noteq> tip t"
    have "tip t \<in> set (bm_children pe)" using bs_wf_children [OF wf pe] e(1) by blast
    with children_apart [OF wf pe w(1)] w(2) have "\<not> banc ?bs w (tip t)"
      using banc_refl [OF e(1)] by blast
    then show "\<not> onchain ?bs w" using chain_inv_onchain [OF C] by simp
  qed
  have pon: "bm_chain_state pe = Onchain" if pe: "map_of ?bs (parent_of e) = Some pe" for pe
    using banc_parent [OF e(1) pe] chain_inv_onchain [OF C, of "parent_of e"] onchain_entry [OF pe] by simp
  have "mark_on_chain (header_of e) ?bs = (Inr (), ?bs)"
    using same pon bs_wf_hash [OF wf e(1)] by (simp add: mark_on_chain.simps [of "header_of e"] split: option.splits)
  moreover have "set_state (tip t) Onchain ?bs = ?bs"
  proof -
    have "distinct (map fst ?bs)" using wf by (simp add: bs_wf_def)
    then show ?thesis unfolding set_state_def using e by (intro map_entry_id) auto
  qed
  ultimately show ?thesis
    using e mx tree_invD(6) [OF inv] by (simp add: mark_tip_def cache_inv_def split: prod.splits)
qed

end
