(* ===== verification/Block_Tree_Add.thy ===== *)
theory Block_Tree_Add
  imports Block_Tree_Tip
begin

text \<open>
  Adding a block. \<open>extends\<close> says when a block fits a tree, \<open>grown\<close> describes the map that
  \<open>add_block\<close> then builds, and the lemmas show that every part of the invariant carries over.
\<close>

section \<open>Adding a block\<close>

text \<open>
  What a block must satisfy to extend a tree: it is new, no block of the tree claims it as parent,
  and its own parent is in the tree, one lower and with a smaller cumulative difficulty. The first
  is checked by the service, the last by the prevalidation of headers; that a known block cannot
  name a parent that does not yet exist is a property of the block hash.
\<close>

definition extends :: "('b, 'e, 'c, 'm) block_map \<Rightarrow> irys_block_header \<Rightarrow> bool" where
  "extends bs hdr \<longleftrightarrow>
     map_of bs (bh_block_hash hdr) = None \<and>
     (\<forall>x xe. map_of bs x = Some xe \<longrightarrow> parent_of xe \<noteq> bh_block_hash hdr) \<and>
     (\<exists>pe. map_of bs (bh_previous_block_hash hdr) = Some pe \<and>
        bh_height hdr = Suc (height_of pe) \<and> diff_of pe < bh_cumulative_diff hdr)"

text \<open>The map after the addition of an entry.\<close>

definition grown ::
  "('b, 'e, 'c, 'm) block_map \<Rightarrow> ('b, 'e, 'c, 'm) block_metadata \<Rightarrow> ('b, 'e, 'c, 'm) block_map \<Rightarrow> bool"
where
  "grown bs e bs' \<longleftrightarrow>
     distinct (map fst bs') \<and> bm_children e = [] \<and> bm_chain_state e \<noteq> Onchain \<and>
     extends bs (header_of e) \<and>
     (\<forall>x. map_of bs' x =
        (if x = bh_block_hash (header_of e) then Some e
         else if x = parent_of e
         then map_option (\<lambda>p. p\<lparr>bm_children := List.insert (bh_block_hash (header_of e)) (bm_children p)\<rparr>)
                (map_of bs x)
         else map_of bs x))"

lemma extends_prev:
  assumes "extends bs hdr"
  shows "bh_previous_block_hash hdr \<noteq> bh_block_hash hdr"
    and "\<exists>pe. map_of bs (bh_previous_block_hash hdr) = Some pe"
  using assms by (auto simp: extends_def)

lemma grownD:
  assumes "grown bs e bs'"
  shows "distinct (map fst bs')" "bm_children e = []" "bm_chain_state e \<noteq> Onchain"
    "extends bs (header_of e)"
  using assms unfolding grown_def by blast+

lemma grown_lookup:
  assumes "grown bs e bs'"
  shows "map_of bs' x =
        (if x = bh_block_hash (header_of e) then Some e
         else if x = parent_of e
         then map_option (\<lambda>p. p\<lparr>bm_children := List.insert (bh_block_hash (header_of e)) (bm_children p)\<rparr>)
                (map_of bs x)
         else map_of bs x)"
  using assms unfolding grown_def by blast

lemma grown_old:
  assumes "grown bs e bs'" and "map_of bs x = Some xe"
  shows "\<exists>cs. map_of bs' x = Some (xe\<lparr>bm_children := cs\<rparr>) \<and>
    set cs = set (bm_children xe) \<union> (if x = parent_of e then {bh_block_hash (header_of e)} else {}) \<and>
    (distinct (bm_children xe) \<longrightarrow> distinct cs)"
proof (cases "x = parent_of e")
  case True
  then have "map_of bs' x =
      Some (xe\<lparr>bm_children := List.insert (bh_block_hash (header_of e)) (bm_children xe)\<rparr>)"
    using grown_lookup [OF assms(1), of x] assms(2) extends_prev(1) [OF grownD(4) [OF assms(1)]] by simp
  then show ?thesis using True by auto
next
  case False
  moreover have "x \<noteq> bh_block_hash (header_of e)"
    using assms(2) grownD(4) [OF assms(1)] by (auto simp: extends_def)
  ultimately have "map_of bs' x = Some xe"
    using grown_lookup [OF assms(1), of x] assms(2) by simp
  then show ?thesis using False by (intro exI [of _ "bm_children xe"]) auto
qed

lemma grown_new: "grown bs e bs' \<Longrightarrow> map_of bs' (bh_block_hash (header_of e)) = Some e"
  using grown_lookup [of bs e bs' "bh_block_hash (header_of e)"] by simp

lemma grown_None:
  assumes "grown bs e bs'" and "x \<noteq> bh_block_hash (header_of e)" and "map_of bs x = None"
  shows "map_of bs' x = None"
  using grown_lookup [OF assms(1), of x] assms(2,3) by auto

lemma grown_cases:
  assumes g: "grown bs e bs'" and x: "map_of bs' x = Some xe'"
  obtains "x = bh_block_hash (header_of e)" "xe' = e"
  | xe cs where "x \<noteq> bh_block_hash (header_of e)" "map_of bs x = Some xe" "xe' = xe\<lparr>bm_children := cs\<rparr>"
    "set cs = set (bm_children xe) \<union> (if x = parent_of e then {bh_block_hash (header_of e)} else {})"
    "distinct (bm_children xe) \<longrightarrow> distinct cs"
proof (cases "x = bh_block_hash (header_of e)")
  case True
  have "xe' = e" using grown_new [OF g] x True by simp
  with that(1) [OF True] show ?thesis .
next
  case False
  then obtain xe where xe: "map_of bs x = Some xe"
    using grown_None [OF g, of x] x by (cases "map_of bs x") auto
  then obtain cs where cs: "map_of bs' x = Some (xe\<lparr>bm_children := cs\<rparr>)"
    "set cs = set (bm_children xe) \<union> (if x = parent_of e then {bh_block_hash (header_of e)} else {})"
    "distinct (bm_children xe) \<longrightarrow> distinct cs"
    using grown_old [OF g xe] by blast
  with x have "xe' = xe\<lparr>bm_children := cs\<rparr>" by simp
  from that(2) [OF False xe this cs(2,3)] show ?thesis .
qed

lemma grown_dom: "grown bs e bs' \<Longrightarrow> bdom bs' = insert (bh_block_hash (header_of e)) (bdom bs)"
  using grown_lookup [of bs e bs'] extends_prev [OF grownD(4), of bs e bs'] by (auto split: if_splits)

lemma grown_wf:
  assumes wf: "bs_wf bs" and g: "grown bs e bs'"
  shows "bs_wf bs'"
  unfolding bs_wf_def
proof (intro conjI allI impI)
  let ?h = "bh_block_hash (header_of e)"
  note ext = grownD(4) [OF g]
  have child: "(\<exists>ce. map_of bs' c = Some ce \<and> parent_of ce = x) \<longleftrightarrow>
      (\<exists>ce. map_of bs c = Some ce \<and> parent_of ce = x) \<or> c = ?h \<and> parent_of e = x" for c x
  proof (cases "c = ?h")
    case True
    then show ?thesis using grown_new [OF g] ext by (auto simp: extends_def)
  next
    case False
    then show ?thesis using grown_old [OF g, of c] grown_None [OF g, of c] by (cases "map_of bs c") auto
  qed
  show "distinct (map fst bs')" by (rule grownD(1) [OF g])
  fix x xe'
  assume x: "map_of bs' x = Some xe'"
  from g x show "entry_wf bs' x xe'"
  proof (cases rule: grown_cases)
    case 1
    obtain pe where pe: "map_of bs (parent_of e) = Some pe"
      "height_of e = Suc (height_of pe)" "diff_of pe < diff_of e"
      using ext by (auto simp: extends_def)
    obtain cs where "map_of bs' (parent_of e) = Some (pe\<lparr>bm_children := cs\<rparr>)"
      using grown_old [OF g pe(1)] by blast
    then show ?thesis
      unfolding entry_wf_def child using 1 grownD(2) [OF g] pe ext by (auto simp: extends_def)
  next
    case (2 xe cs)
    have old: "entry_wf bs x xe" by (rule bs_wf_entry [OF wf 2(2)])
    note cs = 2(4,5)
    have par: "\<exists>pe. map_of bs (parent_of xe) = Some pe \<and> bm_block pe = bm_block pe'"
      if "map_of bs' (parent_of xe) = Some pe'" for pe'
      using g that
    proof (cases rule: grown_cases)
      case 1
      then show ?thesis using ext 2(2) by (auto simp: extends_def)
    qed auto
    have "c \<in> set cs \<longleftrightarrow> (\<exists>ce. map_of bs c = Some ce \<and> parent_of ce = x) \<or> c = ?h \<and> parent_of e = x" for c
      using bs_wf_children [OF wf 2(2), of c] cs(1) by auto
    moreover have "height_of xe = Suc (height_of pe') \<and> diff_of pe' < diff_of xe"
      if "map_of bs' (parent_of xe) = Some pe'" for pe'
      using par [OF that] bs_wf_parent [OF wf 2(2)] by auto
    ultimately show ?thesis
      unfolding entry_wf_def child using 2(3) bs_wf_hash [OF wf 2(2)] old cs(2) by (simp add: entry_wf_def)
  qed
qed

lemma grown_bpar:
  assumes "grown bs e bs'"
  shows "x \<in> bdom bs \<Longrightarrow> bpar bs' x = bpar bs x"
    and "bpar bs' (bh_block_hash (header_of e)) = parent_of e"
  using grown_old [OF assms, of x] grown_new [OF assms] by auto

lemma grown_banc_old:
  assumes g: "grown bs e bs'" and x: "x \<in> bdom bs"
  shows "banc bs' a x \<longleftrightarrow> banc bs a x"
proof
  assume "banc bs' a x"
  then show "banc bs a x"
    using x
  proof (induction rule: anc.induct)
    case (anc_refl h)
    then show ?case by (simp add: anc.anc_refl)
  next
    case (anc_step h a)
    then have p: "bpar bs' h = bpar bs h" using grown_bpar(1) [OF g] by blast
    have "bpar bs h \<noteq> bh_block_hash (header_of e)"
      using anc_step.prems grownD(4) [OF g] by (auto simp: extends_def)
    moreover have "bpar bs h \<in> bdom bs'" using anc_nodes(2) [OF anc_step.hyps(2)] p by simp
    ultimately have "bpar bs h \<in> bdom bs" using grown_dom [OF g] by blast
    with anc_step p show ?case by (simp add: anc.anc_step)
  qed
next
  assume "banc bs a x"
  then show "banc bs' a x"
    by (rule anc_mono) (use grown_dom [OF g] grown_bpar(1) [OF g] in auto)
qed

lemma grown_banc_new:
  assumes g: "grown bs e bs'"
  shows "banc bs' a (bh_block_hash (header_of e)) \<longleftrightarrow>
    a = bh_block_hash (header_of e) \<or> banc bs a (parent_of e)"
proof -
  have "parent_of e \<in> bdom bs" using extends_prev(2) [OF grownD(4) [OF g]] by auto
  from grown_banc_old [OF g this, of a] show ?thesis
    using anc_par_iff [of "bdom bs'" "bpar bs'" a "bh_block_hash (header_of e)"]
      grown_bpar(2) [OF g] grown_dom [OF g] by simp
qed

lemma grown_onchain:
  assumes g: "grown bs e bs'"
  shows "onchain bs' x \<longleftrightarrow> onchain bs x"
  using grown_lookup [OF g, of x] grownD(3,4) [OF g] by (auto simp: onchain_def extends_def)

lemma grown_chain_inv:
  assumes C: "chain_inv bs tp" and g: "grown bs e bs'"
  shows "chain_inv bs' tp"
proof -
  have tp: "tp \<in> bdom bs" using C by (simp add: chain_inv_def)
  have "\<exists>a. banc bs' a x \<and> banc bs' a tp" if x: "x \<in> bdom bs'" for x
  proof (cases "x = bh_block_hash (header_of e)")
    case True
    obtain pe where "map_of bs (parent_of e) = Some pe" using extends_prev(2) [OF grownD(4) [OF g]] by auto
    then show ?thesis
      unfolding True grown_banc_new [OF g] grown_banc_old [OF g tp] using chain_inv_common [OF C] by blast
  next
    case False
    with x have x': "x \<in> bdom bs" using grown_dom [OF g] by blast
    then show ?thesis
      unfolding grown_banc_old [OF g x'] grown_banc_old [OF g tp] using chain_inv_common [OF C, of x] by blast
  qed
  then show ?thesis
    unfolding chain_inv_def grown_onchain [OF g] grown_banc_old [OF g tp]
    using tp C grown_dom [OF g] by (auto simp: chain_inv_def)
qed

text \<open>Insertion sequences and the maximum.\<close>

lemma grown_lookup_old:
  assumes g: "grown bs e bs'" and x: "map_of bs' x = Some xe'"
  shows "x = bh_block_hash (header_of e) \<and> xe' = e \<or>
    x \<noteq> bh_block_hash (header_of e) \<and>
    (\<exists>xe. map_of bs x = Some xe \<and> bm_block xe = bm_block xe' \<and>
       bm_insertion_sequence xe = bm_insertion_sequence xe')"
  using assms by (cases rule: grown_cases) auto

lemma grown_seq_inv:
  assumes g: "grown bs e bs'" and s: "seq_inv bs n" and e: "bm_insertion_sequence e = n"
  shows "seq_inv bs' (n + 1)"
proof -
  have old: "bm_insertion_sequence xe < n" if "map_of bs x = Some xe" for x xe
    using s that unfolding seq_inv_def by blast
  have "bm_insertion_sequence xe' < n + 1" if "map_of bs' x = Some xe'" for x xe'
    using grown_lookup_old [OF g that] old [of x] e by fastforce
  moreover have "x = y"
    if x: "map_of bs' x = Some xe" and y: "map_of bs' y = Some ye"
      and eq: "bm_insertion_sequence xe = bm_insertion_sequence ye" for x xe y ye
    using grown_lookup_old [OF g x] grown_lookup_old [OF g y]
  proof (elim disjE conjE exE)
    fix xo yo
    assume "map_of bs x = Some xo" "bm_insertion_sequence xo = bm_insertion_sequence xe"
      "map_of bs y = Some yo" "bm_insertion_sequence yo = bm_insertion_sequence ye"
    with s eq show "x = y" unfolding seq_inv_def by metis
  qed (use eq e old in fastforce)+
  ultimately show ?thesis unfolding seq_inv_def by blast
qed

lemma grown_max_inv:
  assumes g: "grown bs e bs'" and s: "seq_inv bs n" and e: "bm_insertion_sequence e = n"
    and m: "max_inv bs mx"
  shows "max_inv bs' (if diff_of e > fst mx then (diff_of e, bh_block_hash (header_of e)) else mx)"
proof -
  obtain me where me: "map_of bs (snd mx) = Some me" "diff_of me = fst mx"
    and mx: "\<And>x xe. map_of bs x = Some xe \<Longrightarrow> diff_of xe < fst mx \<or>
           diff_of xe = fst mx \<and> bm_insertion_sequence me \<le> bm_insertion_sequence xe"
    using m unfolding max_inv_def by blast
  show ?thesis
  proof (cases "diff_of e > fst mx")
    case True
    have "diff_of xe < diff_of e \<or>
        diff_of xe = diff_of e \<and> bm_insertion_sequence e \<le> bm_insertion_sequence xe"
      if "map_of bs' x = Some xe" for x xe
      using grown_lookup_old [OF g that] mx [of x] True by auto
    then show ?thesis using True grown_new [OF g] unfolding max_inv_def by auto
  next
    case False
    obtain cs where "map_of bs' (snd mx) = Some (me\<lparr>bm_children := cs\<rparr>)"
      using grown_old [OF g me(1)] by blast
    moreover have "bm_insertion_sequence me \<le> n"
      using s me(1) unfolding seq_inv_def by (meson less_imp_le)
    then have "diff_of xe < fst mx \<or>
        diff_of xe = fst mx \<and> bm_insertion_sequence me \<le> bm_insertion_sequence xe"
      if "map_of bs' x = Some xe" for x xe
      using grown_lookup_old [OF g that] mx [of x] False e by auto
    ultimately show ?thesis using False me(2) unfolding max_inv_def by auto
  qed
qed

lemma grown_index_get:
  assumes g: "grown bs e bs'"
  shows "{x. \<exists>xe. map_of bs' x = Some xe \<and> f (bm_block xe) = k} =
    (if k = f (bm_block e) then insert (bh_block_hash (header_of e)) {x. \<exists>xe. map_of bs x = Some xe \<and> f (bm_block xe) = k}
     else {x. \<exists>xe. map_of bs x = Some xe \<and> f (bm_block xe) = k})"
proof -
  have "(\<exists>xe. map_of bs' x = Some xe \<and> f (bm_block xe) = k) \<longleftrightarrow>
      (if x = bh_block_hash (header_of e) then f (bm_block e) = k
       else \<exists>xe. map_of bs x = Some xe \<and> f (bm_block xe) = k)" for x
    using grown_lookup [OF g, of x] by auto
  moreover have "map_of bs (bh_block_hash (header_of e)) = None"
    using grownD(4) [OF g] by (simp add: extends_def)
  ultimately show ?thesis by auto
qed

lemma grown_index_inv:
  assumes g: "grown bs e bs'" and i: "index_inv bs sols hs"
  shows "index_inv bs'
    (index_insert insort_insert (bh_solution_hash (header_of e)) (bh_block_hash (header_of e)) sols)
    (index_insert List.insert (height_of e) (bh_block_hash (header_of e)) hs)"
  using i grown_index_get [OF g, of "\<lambda>b. bh_solution_hash (sb_header b)"]
    grown_index_get [OF g, of "\<lambda>b. bh_height (sb_header b)"]
  unfolding index_inv_def
  by (simp add: btree_set.index_ok_insert hash_set.index_ok_insert btree_set.index_get_insert
      hash_set.index_get_insert)

text \<open>What \<open>add_block\<close> does to a tree that the block extends.\<close>

definition new_entry ::
  "nat \<Rightarrow> 'b sealed_block \<Rightarrow> 'c \<Rightarrow> 'e \<Rightarrow> 'm \<Rightarrow> nat \<Rightarrow> ('b, 'e, 'c, 'm) block_metadata"
where
  "new_entry now block csnap esnap msnap n =
     \<lparr>bm_block = block, bm_chain_state = NotOnchain Unknown, bm_timestamp = now, bm_children = [],
      bm_epoch_snapshot = esnap, bm_commitment_snapshot = csnap, bm_ema_snapshot = msnap,
      bm_insertion_sequence = n\<rparr>"

lemma add_block_grown:
  assumes wf: "bs_wf (blocks t)" and ext: "extends (blocks t) (sb_header block)"
  shows "\<exists>bs'. grown (blocks t) (new_entry now block cs es ms (next_insertion_sequence t)) bs' \<and>
    add_block now block cs es ms t =
      (Inr (), update_longest_chain_cache
        (t\<lparr>blocks := bs',
           solutions := index_insert insort_insert (bh_solution_hash (sb_header block))
                          (bh_block_hash (sb_header block)) (solutions t),
           height_index := index_insert List.insert (bh_height (sb_header block))
                             (bh_block_hash (sb_header block)) (height_index t),
           max_cumulative_difficulty :=
             (if bh_cumulative_diff (sb_header block) > fst (max_cumulative_difficulty t)
              then (bh_cumulative_diff (sb_header block), bh_block_hash (sb_header block))
              else max_cumulative_difficulty t),
           next_insertion_sequence := next_insertion_sequence t + 1\<rparr>))"
proof -
  let ?hdr = "sb_header block" and ?e = "new_entry now block cs es ms (next_insertion_sequence t)"
  let ?h = "bh_block_hash ?hdr" and ?p = "bh_previous_block_hash ?hdr"
  let ?bs = "AList.update ?h ?e
    (AList.map_entry ?p (\<lambda>e. e\<lparr>bm_children := List.insert ?h (bm_children e)\<rparr>) (blocks t))"
  have new: "map_of (blocks t) ?h = None" using ext by (simp add: extends_def)
  obtain pe where pe: "map_of (blocks t) ?p = Some pe" using extends_prev(2) [OF ext] by blast
  have "grown (blocks t) ?e ?bs"
    using wf ext extends_prev(1) [OF ext]
    by (auto simp: grown_def new_entry_def bs_wf_def distinct_update)
  moreover have "add_block now block cs es ms t = add_common now ?h block cs es ms (NotOnchain Unknown) t"
    using new by (simp add: add_block_def)
  moreover have "map_of (AList.map_entry ?p (\<lambda>e. e\<lparr>bm_children := List.insert ?h (bm_children e)\<rparr>) (blocks t)) ?h = None"
    using new extends_prev(1) [OF ext] by simp
  ultimately show ?thesis
    using pe by (intro exI [of _ ?bs]) (simp add: add_common_def Let_def new_entry_def)
qed

lemma add_block_inv:
  assumes inv: "tree_inv t" and ext: "extends (blocks t) (sb_header block)"
  shows "\<exists>t'. add_block now block cs es ms t = (Inr (), t') \<and> tree_inv t' \<and>
    map_of (blocks t') (bh_block_hash (sb_header block)) =
      Some (new_entry now block cs es ms (next_insertion_sequence t)) \<and>
    grown (blocks t) (new_entry now block cs es ms (next_insertion_sequence t)) (blocks t') \<and>
    tip t' = tip t \<and> next_insertion_sequence t' = next_insertion_sequence t + 1"
proof -
  note I = tree_invD [OF inv]
  let ?e = "new_entry now block cs es ms (next_insertion_sequence t)"
  obtain bs' where g: "grown (blocks t) ?e bs'" and add: "add_block now block cs es ms t =
      (Inr (), update_longest_chain_cache
        (t\<lparr>blocks := bs',
           solutions := index_insert insort_insert (bh_solution_hash (sb_header block))
                          (bh_block_hash (sb_header block)) (solutions t),
           height_index := index_insert List.insert (bh_height (sb_header block))
                             (bh_block_hash (sb_header block)) (height_index t),
           max_cumulative_difficulty :=
             (if bh_cumulative_diff (sb_header block) > fst (max_cumulative_difficulty t)
              then (bh_cumulative_diff (sb_header block), bh_block_hash (sb_header block))
              else max_cumulative_difficulty t),
           next_insertion_sequence := next_insertion_sequence t + 1\<rparr>))"
    using add_block_grown [OF I(1) ext] by blast
  have e: "bm_block ?e = block" "bm_insertion_sequence ?e = next_insertion_sequence t"
    by (simp_all add: new_entry_def)
  show ?thesis
    unfolding add
    using grown_wf [OF I(1) g] grown_chain_inv [OF I(2) g] grown_seq_inv [OF g I(3) e(2)]
      grown_max_inv [OF g I(3) e(2) I(4), unfolded e(1)] grown_index_inv [OF g I(5)] grown_new [OF g] g
    by (simp add: tree_inv_update e)
qed

end
