(* ===== verification/Block_Tree_Remove.thy ===== *)
theory Block_Tree_Remove
  imports Block_Tree_Add
begin

text \<open>
  Removing blocks. \<open>removed S\<close> describes the map without the blocks of \<open>S\<close>, the next section shows
  that \<open>find_max_difficulty\<close> always returns the block that \<open>max_inv\<close> asks for, and the last one that
  \<open>delete_block\<close> and \<open>remove_block\<close> keep the invariant and take out exactly a block and its
  descendants.
\<close>

section \<open>The map without some of its blocks\<close>

definition removed ::
  "h256 set \<Rightarrow> ('b, 'e, 'c, 'm) block_map \<Rightarrow> ('b, 'e, 'c, 'm) block_map \<Rightarrow> bool"
where
  "removed S bs bs' \<longleftrightarrow>
     distinct (map fst bs') \<and>
     (\<forall>x. map_of bs' x =
        (if x \<in> S then None
         else map_option (\<lambda>e. e\<lparr>bm_children := filter (\<lambda>c. c \<notin> S) (bm_children e)\<rparr>) (map_of bs x)))"

lemma removed_lookup:
  "removed S bs bs' \<Longrightarrow>
   map_of bs' x =
     (if x \<in> S then None
      else map_option (\<lambda>e. e\<lparr>bm_children := filter (\<lambda>c. c \<notin> S) (bm_children e)\<rparr>) (map_of bs x))"
  unfolding removed_def by blast

lemma removed_Some:
  assumes "removed S bs bs'"
  shows "map_of bs' x = Some e' \<longleftrightarrow>
    x \<notin> S \<and> (\<exists>e. map_of bs x = Some e \<and> e' = e\<lparr>bm_children := filter (\<lambda>c. c \<notin> S) (bm_children e)\<rparr>)"
  using removed_lookup [OF assms, of x] by auto

lemma removed_keep:
  "removed S bs bs' \<Longrightarrow> x \<notin> S \<Longrightarrow> map_of bs x = Some e \<Longrightarrow>
   map_of bs' x = Some (e\<lparr>bm_children := filter (\<lambda>c. c \<notin> S) (bm_children e)\<rparr>)"
  using removed_lookup [of S bs bs' x] by simp

lemma removed_dom: "removed S bs bs' \<Longrightarrow> bdom bs' = bdom bs - S"
  using removed_lookup [of S bs bs'] by (auto split: if_splits)

lemma removed_bpar: "removed S bs bs' \<Longrightarrow> x \<in> bdom bs' \<Longrightarrow> bpar bs' x = bpar bs x"
  using removed_lookup [of S bs bs' x] by (cases "map_of bs x") (auto simp: bpar_def split: if_splits)

lemma removed_bht: "removed S bs bs' \<Longrightarrow> x \<in> bdom bs' \<Longrightarrow> bht bs' x = bht bs x"
  using removed_lookup [of S bs bs' x] by (cases "map_of bs x") (auto simp: bht_def split: if_splits)

lemma removed_onchain: "removed S bs bs' \<Longrightarrow> onchain bs' x \<longleftrightarrow> onchain bs x \<and> x \<notin> S"
  using removed_lookup [of S bs bs' x] by (auto simp: onchain_def)

lemma removed_trans:
  assumes "removed S a b" and "removed S' b c"
  shows "removed (S \<union> S') a c"
proof -
  have "map_of c x = (if x \<in> S \<union> S' then None
      else map_option (\<lambda>e. e\<lparr>bm_children := filter (\<lambda>c. c \<notin> S \<union> S') (bm_children e)\<rparr>) (map_of a x))" for x
    using removed_lookup [OF assms(1), of x] removed_lookup [OF assms(2), of x]
    by (simp add: option.map_comp comp_def conj_commute)
  moreover have "distinct (map fst c)" using assms(2) by (simp add: removed_def)
  ultimately show ?thesis unfolding removed_def by blast
qed

lemma removed_empty: "distinct (map fst bs) \<Longrightarrow> removed {} bs bs"
  by (simp add: removed_def option.map_ident)

lemma removed_wf:
  assumes wf: "bs_wf bs" and r: "removed S bs bs'"
  shows "bs_wf bs'"
  unfolding bs_wf_def
proof (intro conjI allI impI)
  show "distinct (map fst bs')" using r by (simp add: removed_def)
  fix x e'
  assume "map_of bs' x = Some e'"
  then obtain e where x: "x \<notin> S" "map_of bs x = Some e"
    and e': "e' = e\<lparr>bm_children := filter (\<lambda>c. c \<notin> S) (bm_children e)\<rparr>"
    using removed_Some [OF r] by blast
  have "(\<exists>ce. map_of bs' c = Some ce \<and> parent_of ce = x) \<longleftrightarrow>
      c \<notin> S \<and> (\<exists>ce. map_of bs c = Some ce \<and> parent_of ce = x)" for c
    using removed_lookup [OF r, of c] by auto
  moreover have "height_of e = Suc (height_of pe) \<and> diff_of pe < diff_of e"
    if "map_of bs' (parent_of e) = Some pe" for pe
    using removed_Some [OF r, of "parent_of e" pe] that bs_wf_parent [OF wf x(2)] by auto
  ultimately show "entry_wf bs' x e'"
    unfolding entry_wf_def
    using bs_wf_entry [OF wf x(2)] bs_wf_children [OF wf x(2)] e' by (auto simp: entry_wf_def)
qed

lemma removed_banc:
  assumes wf: "bs_wf bs" and r: "removed S bs bs'"
  shows "banc bs' a x \<longleftrightarrow> banc bs a x \<and> (\<forall>y. banc bs a y \<and> banc bs y x \<longrightarrow> y \<notin> S)"
proof
  assume l: "banc bs' a x"
  have up: "banc bs u v" if "banc bs' u v" for u v
    by (rule anc_mono [OF that]) (use removed_dom [OF r] removed_bpar [OF r] in auto)
  have "y \<notin> S" if "banc bs a y" "banc bs y x" for y
    using l that
  proof (induction rule: anc.induct)
    case (anc_refl h)
    then have "y = h" using banc_antisym [OF wf] by blast
    with anc_refl.hyps show ?case using removed_dom [OF r] by simp
  next
    case (anc_step h a)
    have h: "h \<in> bdom bs" "h \<notin> S" "bpar bs' h = bpar bs h"
      using anc_step.hyps(1) removed_dom [OF r] removed_bpar [OF r] by auto
    show ?case
    proof (cases "y = h")
      case False
      with anc_step.prems(2) have "banc bs y (bpar bs h)" by (auto elim: anc_cases)
      with anc_step.IH [OF anc_step.prems(1)] h(3) show ?thesis by simp
    qed (use h in simp)
  qed
  with up [OF l] show "banc bs a x \<and> (\<forall>y. banc bs a y \<and> banc bs y x \<longrightarrow> y \<notin> S)" by blast
next
  assume a: "banc bs a x \<and> (\<forall>y. banc bs a y \<and> banc bs y x \<longrightarrow> y \<notin> S)"
  have "anc (bdom bs') (bpar bs) a x"
  proof (rule anc_restrict)
    show "banc bs a x" using a by blast
    fix y
    assume y: "banc bs a y" "banc bs y x"
    then show "y \<in> bdom bs'" unfolding removed_dom [OF r] using a anc_nodes(2) [OF y(1)] by blast
  qed
  then show "banc bs' a x"
    using anc_cong [of "bdom bs'" "bpar bs'" "bpar bs"] removed_bpar [OF r] by simp
qed

text \<open>Taking out whole subtrees leaves the ancestry of the other blocks as it was.\<close>

lemma removed_banc_below:
  assumes wf: "bs_wf bs" and r: "removed S bs bs'" and down: "\<And>x y. x \<in> S \<Longrightarrow> banc bs x y \<Longrightarrow> y \<in> S"
  shows "banc bs' a x \<longleftrightarrow> banc bs a x \<and> x \<notin> S"
proof -
  have "y \<notin> S" if "banc bs y x" "x \<notin> S" for y using down that by blast
  moreover have "banc bs x x" if "banc bs a x" using anc_nodes(2) [OF that] by (rule anc_refl)
  ultimately show ?thesis unfolding removed_banc [OF wf r] by blast
qed

lemma removed_chain_below:
  assumes wf: "bs_wf bs" and C: "chain_inv bs tp" and r: "removed S bs bs'"
    and down: "\<And>x y. x \<in> S \<Longrightarrow> banc bs x y \<Longrightarrow> y \<in> S" and off: "\<And>x. x \<in> S \<Longrightarrow> \<not> onchain bs x"
  shows "chain_inv bs' tp"
proof -
  obtain te where te: "map_of bs tp = Some te" using chain_inv_tip [OF C] by blast
  have tp: "tp \<notin> S" using off chain_inv_onchain [OF C, of tp] banc_refl [OF te] by blast
  have anc: "banc bs' a x \<longleftrightarrow> banc bs a x \<and> x \<notin> S" for a x
    by (rule removed_banc_below [OF wf r]) (rule down)
  have "onchain bs' x \<longleftrightarrow> banc bs' x tp" for x
    unfolding removed_onchain [OF r] anc using chain_inv_onchain [OF C, of x] off tp by blast
  moreover have "\<exists>a. banc bs' a x \<and> banc bs' a tp" if "x \<in> bdom bs'" for x
  proof -
    have x: "x \<in> bdom bs" "x \<notin> S" using that removed_dom [OF r] by auto
    then obtain a where "banc bs a x" "banc bs a tp" using chain_inv_common [OF C, of x] by blast
    with x(2) tp show ?thesis unfolding anc by blast
  qed
  moreover have "tp \<in> bdom bs'" using te tp removed_dom [OF r] by auto
  ultimately show ?thesis unfolding chain_inv_def by blast
qed

text \<open>Taking out the root is safe once its only children are on chain.\<close>

lemma removed_chain_root:
  assumes wf: "bs_wf bs" and C: "chain_inv bs tp" and r: "removed {h} bs bs'"
    and h: "map_of bs h = Some e" "map_of bs (parent_of e) = None" "h \<noteq> tp"
    and on: "\<And>c. c \<in> set (bm_children e) \<Longrightarrow> onchain bs c"
  shows "chain_inv bs' tp"
proof -
  have root: "a = h" if "banc bs a h" for a
  proof (rule ccontr)
    assume "a \<noteq> h"
    from banc_proper [OF h(1) that this] anc_nodes(2) h(2) show False by fastforce
  qed
  have anc: "banc bs' a x \<longleftrightarrow> banc bs a x \<and> a \<noteq> h" for a x
  proof -
    have "banc bs a a" if "banc bs a x" using anc_nodes(1) [OF that] by (rule anc_refl)
    then show ?thesis unfolding removed_banc [OF wf r] using root by blast
  qed
  have "onchain bs' x \<longleftrightarrow> banc bs' x tp" for x
    unfolding removed_onchain [OF r] anc using chain_inv_onchain [OF C, of x] by blast
  moreover have "\<exists>a. banc bs' a x \<and> banc bs' a tp" if "x \<in> bdom bs'" for x
  proof -
    have x: "x \<in> bdom bs" "x \<noteq> h" using that removed_dom [OF r] by auto
    then obtain a where a: "banc bs a x" "banc bs a tp" using chain_inv_common [OF C, of x] by blast
    show ?thesis
    proof (cases "a = h")
      case True
      with a obtain c where c: "c \<in> set (bm_children e)" "banc bs c x"
        using banc_child [OF wf h(1)] x(2) by blast
      have "c \<noteq> h" using children_entry [OF wf h(1) c(1)] by auto
      with c on [OF c(1)] chain_inv_onchain [OF C, of c] show ?thesis unfolding anc by blast
    next
      case False
      with a show ?thesis unfolding anc by blast
    qed
  qed
  moreover have "tp \<in> bdom bs'" using C h(3) removed_dom [OF r] by (auto simp: chain_inv_def)
  ultimately show ?thesis unfolding chain_inv_def by blast
qed

lemma removed_seq_inv:
  assumes r: "removed S bs bs'" and s: "seq_inv bs n"
  shows "seq_inv bs' n"
proof -
  have "\<exists>e. map_of bs x = Some e \<and> bm_insertion_sequence e = bm_insertion_sequence e'"
    if "map_of bs' x = Some e'" for x e'
    using removed_Some [OF r, of x e'] that by auto
  with s show ?thesis unfolding seq_inv_def by metis
qed

lemma removed_max_inv:
  assumes r: "removed S bs bs'" and m: "max_inv bs mx" and mx: "snd mx \<notin> S"
  shows "max_inv bs' mx"
proof -
  obtain e where e: "map_of bs (snd mx) = Some e" "diff_of e = fst mx"
    and top: "\<And>h' e'. map_of bs h' = Some e' \<Longrightarrow> diff_of e' < fst mx \<or>
           diff_of e' = fst mx \<and> bm_insertion_sequence e \<le> bm_insertion_sequence e'"
    using m unfolding max_inv_def by blast
  have "diff_of e' < fst mx \<or> diff_of e' = fst mx \<and> bm_insertion_sequence e \<le> bm_insertion_sequence e'"
    if "map_of bs' h' = Some e'" for h' e'
    using removed_Some [OF r, of h' e'] that top [of h'] by auto
  with removed_keep [OF r mx e(1)] e(2) show ?thesis unfolding max_inv_def by auto
qed

section \<open>The block with the highest cumulative difficulty\<close>

lemma canonical_fork_height_loop_total:
  assumes wf: "bs_wf bs" and "map_of bs h = Some e" and "depth bs h \<le> n"
  shows "\<exists>f. canonical_fork_height_loop n bs e = Inr f"
  using assms(2,3)
proof (induction n arbitrary: h e)
  case 0
  then show ?case using depth_Some [OF wf] by simp
next
  case (Suc n)
  show ?case
  proof (cases "map_of bs (parent_of e)")
    case (Some pe)
    have "depth bs (parent_of e) \<le> n" using Suc.prems depth_Some [OF wf Suc.prems(1)] by simp
    from Suc.IH [OF Some this] Some show ?thesis by simp
  qed simp
qed

lemma canonical_fork_height_total:
  assumes "bs_wf (blocks t)" and "map_of (blocks t) h = Some e"
  shows "\<exists>f. canonical_fork_height t e = Inr f"
  unfolding canonical_fork_height_def
  by (rule canonical_fork_height_loop_total [OF assms]) (simp add: depth_le le_SucI)

lemma min_by_in: "min_by le x xs \<in> set (x # xs)"
proof (induction xs arbitrary: x)
  case (Cons y ys)
  then show ?case using Cons.IH [of "if le x y then x else y"] by (auto split: if_splits)
qed simp

lemma min_by_least:
  assumes "\<And>a b. le a b \<Longrightarrow> f a \<le> (f b :: nat)" and "\<And>a b. \<not> le a b \<Longrightarrow> f b \<le> f a"
    and "y \<in> set (x # xs)"
  shows "f (min_by le x xs) \<le> f y"
  using assms(3)
proof (induction xs arbitrary: x y)
  case (Cons z zs)
  have "f (if le x z then x else z) \<le> f w" if "w \<in> {x, z}" for w
    using assms(1) [of x z] assms(2) [of x z] that by auto
  then show ?case
    using Cons.IH [of y "if le x z then x else z"]
      Cons.IH [of "if le x z then x else z" "if le x z then x else z"] Cons.prems
    by (force intro: order_trans)
qed simp

lemma max_key_le_seq:
  "max_key_le a b \<Longrightarrow> fst a \<le> fst b"
  "\<not> max_key_le a b \<Longrightarrow> fst b \<le> fst a"
  by (cases a; cases b; force)+

lemma fold_max_ge: "x \<in> set (d # ds) \<Longrightarrow> x \<le> fold max ds (d :: 'a :: linorder)"
  unfolding Max.set_eq_fold [symmetric] by (rule Max_ge) simp_all

lemma fold_max_in: "fold max ds (d :: 'a :: linorder) \<in> set (d # ds)"
  unfolding Max.set_eq_fold [symmetric] by (rule Max_in) simp_all

lemma list_all2_right: "list_all2 P xs ys \<Longrightarrow> y \<in> set ys \<Longrightarrow> \<exists>x \<in> set xs. P x y"
  by (induction rule: list_all2_induct) auto

lemma list_all2_left: "list_all2 P xs ys \<Longrightarrow> x \<in> set xs \<Longrightarrow> \<exists>y \<in> set ys. P x y"
  by (induction rule: list_all2_induct) auto

lemma rmap_ok: "(\<And>x. x \<in> set xs \<Longrightarrow> \<exists>y. f x = Inr y) \<Longrightarrow> \<exists>ys. rmap f xs = Inr ys"
  by (induction xs) fastforce+

lemma find_max_difficulty_ok:
  assumes wf: "bs_wf (blocks t)" and ne: "map_of (blocks t) h0 = Some e0"
  shows "\<exists>mx. find_max_difficulty t = Inr mx \<and> max_inv (blocks t) mx"
proof -
  let ?bs = "blocks t"
  have dist: "distinct (map fst ?bs)" using wf by (simp add: bs_wf_def)
  have mem: "(h, e) \<in> set ?bs \<longleftrightarrow> map_of ?bs h = Some e" for h e
    using map_of_eq_Some_iff [OF dist] by simp
  obtain d ds where ds: "map (\<lambda>(_, e). diff_of e) ?bs = d # ds"
    using ne by (cases ?bs) auto
  define M where "M = fold max ds d"
  define cand where "cand = filter (\<lambda>(_, e). diff_of e = M) ?bs"
  define key where "key = (\<lambda>(h :: h256, e). rbind (canonical_fork_height t e)
      (\<lambda>f. Inr (bm_insertion_sequence e, f, h)))"
  have diffs: "set (d # ds) = {diff_of e | h e. map_of ?bs h = Some e}"
    unfolding ds [symmetric] using mem by force
  have top: "diff_of e \<le> M" if "map_of ?bs h = Some e" for h e
    unfolding M_def by (rule fold_max_ge) (use that diffs in blast)
  have "M \<in> {diff_of e | h e. map_of ?bs h = Some e}"
    unfolding M_def diffs [symmetric] by (rule fold_max_in)
  then have cand_ne: "cand \<noteq> []" using mem by (force simp: cand_def filter_empty_conv)
  have "\<exists>k. key c = Inr k" if "c \<in> set cand" for c
    using that canonical_fork_height_total [OF wf] mem by (fastforce simp: cand_def key_def)
  then obtain keys where keys: "rmap key cand = Inr keys" using rmap_ok by blast
  then have l2: "list_all2 (\<lambda>c k. key c = Inr k) cand keys" by (simp add: rmap_Inr_iff)
  then obtain k ks where k: "keys = k # ks" using cand_ne by (cases keys) auto
  define m where "m = min_by max_key_le k ks"
  have res: "find_max_difficulty t = Inr (M, snd (snd m))"
    unfolding find_max_difficulty_def ds using keys k
    by (simp add: M_def [symmetric] cand_def [symmetric] key_def [symmetric] m_def)
  have "m \<in> set keys" unfolding m_def k by (rule min_by_in)
  then obtain c where "c \<in> set cand" "key c = Inr m"
    using list_all2_right [OF l2] by blast
  then obtain he ee where c: "map_of ?bs he = Some ee" "diff_of ee = M"
    and m: "snd (snd m) = he" "fst m = bm_insertion_sequence ee"
    using mem by (auto simp: cand_def key_def rbind_Inr_iff)
  have "bm_insertion_sequence ee \<le> bm_insertion_sequence e'"
    if e': "map_of ?bs h' = Some e'" "diff_of e' = M" for h' e'
  proof -
    have "(h', e') \<in> set cand" using e' mem by (simp add: cand_def)
    then obtain k' where "k' \<in> set keys" "key (h', e') = Inr k'"
      using list_all2_left [OF l2] by blast
    then have "fst m \<le> fst k'" "fst k' = bm_insertion_sequence e'"
      using min_by_least [of max_key_le fst k' k ks] max_key_le_seq k
      by (auto simp: m_def key_def rbind_Inr_iff)
    with m(2) show ?thesis by simp
  qed
  then have "max_inv ?bs (M, he)"
    unfolding max_inv_def using c top by (force simp: le_less)
  with res m(1) show ?thesis by blast
qed

text \<open>Insertion sequences leave only one candidate, so the order of the map does not matter.\<close>

lemma seq_inv_inj:
  "seq_inv bs n \<Longrightarrow> map_of bs h = Some e \<Longrightarrow> map_of bs h' = Some e' \<Longrightarrow>
   bm_insertion_sequence e = bm_insertion_sequence e' \<Longrightarrow> h = h'"
  unfolding seq_inv_def by blast

lemma tie_antisym:
  "b < a \<or> b = a \<and> m \<le> (n :: nat) \<Longrightarrow> a < b \<or> a = b \<and> n \<le> m \<Longrightarrow> (a :: 'a :: linorder) = b \<and> m = n"
  by auto

lemma max_inv_unique:
  assumes s: "seq_inv bs n" and "max_inv bs mx" and "max_inv bs mx'"
  shows "mx = mx'"
proof -
  obtain e where e: "map_of bs (snd mx) = Some e" "diff_of e = fst mx"
    and top: "\<And>h' e'. map_of bs h' = Some e' \<Longrightarrow> diff_of e' < fst mx \<or>
           diff_of e' = fst mx \<and> bm_insertion_sequence e \<le> bm_insertion_sequence e'"
    using assms(2) unfolding max_inv_def by blast
  obtain f where f: "map_of bs (snd mx') = Some f" "diff_of f = fst mx'"
    and top': "\<And>h' e'. map_of bs h' = Some e' \<Longrightarrow> diff_of e' < fst mx' \<or>
           diff_of e' = fst mx' \<and> bm_insertion_sequence f \<le> bm_insertion_sequence e'"
    using assms(3) unfolding max_inv_def by blast
  have "fst mx = fst mx'" "bm_insertion_sequence e = bm_insertion_sequence f"
    using tie_antisym [OF top [OF f(1), unfolded f(2)] top' [OF e(1), unfolded e(2)]] by blast+
  moreover from seq_inv_inj [OF s e(1) f(1) this(2)] have "snd mx = snd mx'" .
  ultimately show ?thesis by (simp add: prod_eq_iff)
qed

section \<open>Deleting a block and its descendants\<close>

text \<open>The fields that removal leaves alone.\<close>

definition same_frame :: "('b, 'e, 'c, 'm) block_tree \<Rightarrow> ('b, 'e, 'c, 'm) block_tree \<Rightarrow> bool" where
  "same_frame t t' \<longleftrightarrow>
     tip t' = tip t \<and> next_insertion_sequence t' = next_insertion_sequence t \<and>
     block_tree_depth t' = block_tree_depth t \<and> block_migration_depth t' = block_migration_depth t"

lemma same_frame_refl [simp]: "same_frame t t"
  by (simp add: same_frame_def)

lemma same_frame_trans: "same_frame a b \<Longrightarrow> same_frame b c \<Longrightarrow> same_frame a c"
  by (simp add: same_frame_def)

definition cut ::
  "h256 \<Rightarrow> ('b, 'e, 'c, 'm) block_metadata \<Rightarrow> ('b, 'e, 'c, 'm) block_map \<Rightarrow> ('b, 'e, 'c, 'm) block_map"
where
  "cut h e bs = AList.delete h (AList.map_entry (parent_of e)
     (\<lambda>e. e\<lparr>bm_children := removeAll h (bm_children e)\<rparr>) bs)"

lemma cut_removed:
  assumes wf: "bs_wf bs" and h: "map_of bs h = Some e"
  shows "removed {h} bs (cut h e bs)"
proof -
  have "map_of (cut h e bs) x =
      map_option (\<lambda>e. e\<lparr>bm_children := filter (\<lambda>c. c \<notin> {h}) (bm_children e)\<rparr>) (map_of bs x)"
    if x: "x \<noteq> h" for x
  proof (cases "map_of bs x")
    case None
    with x show ?thesis by (auto simp: cut_def)
  next
    case (Some xe)
    show ?thesis
    proof (cases "x = parent_of e")
      case True
      then show ?thesis using x Some by (simp add: cut_def removeAll_filter_not_eq eq_commute [of h])
    next
      case False
      then have "h \<notin> set (bm_children xe)" using bs_wf_children [OF wf Some] h by simp
      then have "filter (\<lambda>c. c \<noteq> h) (bm_children xe) = bm_children xe" by (auto intro: filter_True)
      then show ?thesis using False x Some by (simp add: cut_def)
    qed
  qed
  moreover have "map_of (cut h e bs) h = None" by (simp add: cut_def)
  moreover have "distinct (map fst (cut h e bs))"
    using wf by (simp add: cut_def bs_wf_def distinct_delete)
  ultimately show ?thesis unfolding removed_def by auto
qed

lemma cut_index_get:
  assumes r: "removed {h} bs bs'" and h: "map_of bs h = Some e"
  shows "{x. \<exists>xe. map_of bs' x = Some xe \<and> f (bm_block xe) = k} =
    (if k = f (bm_block e) then {x. \<exists>xe. map_of bs x = Some xe \<and> f (bm_block xe) = k} - {h}
     else {x. \<exists>xe. map_of bs x = Some xe \<and> f (bm_block xe) = k})"
proof -
  have "(\<exists>xe. map_of bs' x = Some xe \<and> f (bm_block xe) = k) \<longleftrightarrow>
      x \<noteq> h \<and> (\<exists>xe. map_of bs x = Some xe \<and> f (bm_block xe) = k)" for x
    using removed_lookup [OF r, of x] by auto
  then show ?thesis using h by auto
qed

lemma cut_index_inv:
  assumes r: "removed {h} bs bs'" and h: "map_of bs h = Some e" and i: "index_inv bs sols hs"
  shows "index_inv bs' (index_remove (bh_solution_hash (header_of e)) h sols)
    (index_remove (height_of e) h hs)"
  using i cut_index_get [OF r h, of "\<lambda>b. bh_solution_hash (sb_header b)"]
    cut_index_get [OF r h, of "\<lambda>b. bh_height (sb_header b)"]
  unfolding index_inv_def by (auto simp: index_ok_remove)

lemma delete_block_removed:
  assumes wf: "bs_wf (blocks t)" and seq: "seq_inv (blocks t) n"
    and mx: "max_inv (blocks t) (max_cumulative_difficulty t)"
    and ix: "index_inv (blocks t) (solutions t) (height_index t)"
    and h: "map_of (blocks t) h = Some e" and other: "w \<in> bdom (blocks t)" "w \<noteq> h"
  shows "\<exists>t'. delete_block h t = (Inr (), t') \<and> removed {h} (blocks t) (blocks t') \<and> same_frame t t' \<and>
    max_inv (blocks t') (max_cumulative_difficulty t') \<and>
    index_inv (blocks t') (solutions t') (height_index t') \<and> cache_inv t'"
proof -
  define t1 where "t1 = t\<lparr>blocks := cut h e (blocks t),
    height_index := index_remove (height_of e) h (height_index t),
    solutions := index_remove (bh_solution_hash (header_of e)) h (solutions t)\<rparr>"
  have r: "removed {h} (blocks t) (blocks t1)" using cut_removed [OF wf h] by (simp add: t1_def)
  have ix1: "index_inv (blocks t1) (solutions t1) (height_index t1)"
    using cut_index_inv [OF r h ix] by (simp add: t1_def)
  have del: "delete_block h t =
      (if snd (max_cumulative_difficulty t) = h
       then (case find_max_difficulty t1 of Inl e \<Rightarrow> (Inl e, t1)
             | Inr mx \<Rightarrow> (Inr (), update_longest_chain_cache (t1\<lparr>max_cumulative_difficulty := mx\<rparr>)))
       else (Inr (), update_longest_chain_cache t1))"
    unfolding delete_block_def t1_def cut_def Let_def using h by simp
  show ?thesis
  proof (cases "snd (max_cumulative_difficulty t) = h")
    case True
    have "w \<in> bdom (blocks t1)" using other removed_dom [OF r] by simp
    then obtain mx1 where "find_max_difficulty t1 = Inr mx1" "max_inv (blocks t1) mx1"
      using find_max_difficulty_ok [OF removed_wf [OF wf r]] by blast
    then show ?thesis using True del r ix1 by (simp add: same_frame_def t1_def)
  next
    case False
    then have "max_inv (blocks t1) (max_cumulative_difficulty t1)"
      using removed_max_inv [OF r mx] by (simp add: t1_def)
    then show ?thesis using False del r ix1 by (simp add: same_frame_def t1_def)
  qed
qed

lemma delete_block_inv:
  assumes inv: "tree_inv t" and h: "map_of (blocks t) h = Some e" "h \<noteq> tip t"
    and chain: "\<And>bs'. removed {h} (blocks t) bs' \<Longrightarrow> chain_inv bs' (tip t)"
  shows "\<exists>t'. delete_block h t = (Inr (), t') \<and> tree_inv t' \<and> removed {h} (blocks t) (blocks t') \<and> same_frame t t'"
proof -
  note I = tree_invD [OF inv]
  have tp: "tip t \<in> bdom (blocks t)" using I(2) by (simp add: chain_inv_def)
  obtain t' where t': "delete_block h t = (Inr (), t')" "removed {h} (blocks t) (blocks t')"
    "same_frame t t'" "max_inv (blocks t') (max_cumulative_difficulty t')"
    "index_inv (blocks t') (solutions t') (height_index t')" "cache_inv t'"
    using delete_block_removed [OF I(1,3,4,5) h(1) tp] h(2) by blast
  then have "tree_inv t'"
    unfolding tree_inv_def
    using removed_wf [OF I(1) t'(2)] chain [OF t'(2)] removed_seq_inv [OF t'(2) I(3)]
    by (simp add: same_frame_def)
  with t' show ?thesis by blast
qed

lemma delete_leaf_inv:
  assumes inv: "tree_inv t" and h: "map_of (blocks t) h = Some e" "bm_children e = []" "\<not> onchain (blocks t) h"
  shows "\<exists>t'. delete_block h t = (Inr (), t') \<and> tree_inv t' \<and> removed {h} (blocks t) (blocks t') \<and> same_frame t t'"
proof (rule delete_block_inv [OF inv h(1)])
  note I = tree_invD [OF inv]
  show "h \<noteq> tip t" using h(3) chain_inv_tip [OF I(2)] by (auto simp: onchain_def)
  fix bs'
  assume r: "removed {h} (blocks t) bs'"
  have "y = h" if "banc (blocks t) h y" for y
    using banc_child [OF I(1) h(1) that] h(2) by auto
  then show "chain_inv bs' (tip t)"
    by (intro removed_chain_below [OF I(1,2) r]) (use h(3) in auto)
qed

text \<open>A descendant of a block off the chain is off the chain.\<close>

lemma onchain_up: "chain_inv bs tp \<Longrightarrow> banc bs h x \<Longrightarrow> onchain bs x \<Longrightarrow> onchain bs h"
  using chain_inv_onchain [of bs tp h] chain_inv_onchain [of bs tp x] banc_trans [of bs h x tp] by simp

text \<open>
  The contract of one call of \<open>remove_block\<close> with fuel \<open>n\<close>, and of the loop over the children: the
  subtrees of the listed blocks go, and nothing else changes.
\<close>

definition remove_ok ::
  "nat \<Rightarrow> ('b, 'e, 'c, 'm) block_tree \<Rightarrow> h256 \<Rightarrow> bool"
where
  "remove_ok n t h \<longleftrightarrow>
     h \<in> bdom (blocks t) \<and> \<not> onchain (blocks t) h \<and>
     (\<forall>x. banc (blocks t) h x \<longrightarrow> bht (blocks t) x < bht (blocks t) h + n)"

definition subtrees :: "('b, 'e, 'c, 'm) block_map \<Rightarrow> h256 set \<Rightarrow> h256 set" where
  "subtrees bs H = {x. \<exists>h \<in> H. banc bs h x}"

lemma subtrees_down: "x \<in> subtrees bs H \<Longrightarrow> banc bs x y \<Longrightarrow> y \<in> subtrees bs H"
  by (auto simp: subtrees_def intro: banc_trans)

lemma subtrees_banc:
  assumes "bs_wf bs" and "removed (subtrees bs H) bs bs'"
  shows "banc bs' a x \<longleftrightarrow> banc bs a x \<and> x \<notin> subtrees bs H"
  by (rule removed_banc_below [OF assms]) (rule subtrees_down)

lemma subtrees_children:
  assumes wf: "bs_wf bs" and h: "map_of bs h = Some e"
  shows "subtrees bs (set (bm_children e)) \<union> {h} = subtrees bs {h}"
proof (intro equalityI subsetI)
  fix x
  assume "x \<in> subtrees bs (set (bm_children e)) \<union> {h}"
  then consider "x = h" | c where "c \<in> set (bm_children e)" "banc bs c x"
    by (auto simp: subtrees_def)
  then show "x \<in> subtrees bs {h}"
  proof cases
    case 1
    with banc_refl [OF h] show ?thesis by (simp add: subtrees_def)
  next
    case 2
    from banc_trans [OF children_banc [OF wf h 2(1)] 2(2)] show ?thesis by (simp add: subtrees_def)
  qed
next
  fix x
  assume "x \<in> subtrees bs {h}"
  then have "banc bs h x" by (simp add: subtrees_def)
  with banc_child [OF wf h this] show "x \<in> subtrees bs (set (bm_children e)) \<union> {h}"
    by (cases "x = h") (simp_all add: subtrees_def)
qed

lemma remove_ok_removed:
  assumes wf: "bs_wf (blocks t)" and r: "removed (subtrees (blocks t) H) (blocks t) (blocks t')"
    and ok: "remove_ok n t d" and d: "d \<notin> subtrees (blocks t) H"
  shows "remove_ok n t' d"
proof -
  have dom: "d \<in> bdom (blocks t')" using ok d removed_dom [OF r] by (simp add: remove_ok_def)
  moreover have "bht (blocks t') x < bht (blocks t') d + n" if "banc (blocks t') d x" for x
    using that ok removed_bht [OF r anc_nodes(2) [OF that]] removed_bht [OF r dom]
    unfolding subtrees_banc [OF wf r] remove_ok_def by simp
  ultimately show ?thesis using ok removed_onchain [OF r] by (simp add: remove_ok_def)
qed

definition off_chain :: "('b, 'e, 'c, 'm) block_map \<Rightarrow> h256 set \<Rightarrow> h256 set" where
  "off_chain bs H = {h \<in> H. \<not> onchain bs h}"

lemma remove_list:
  assumes step: "\<And>t h. tree_inv t \<Longrightarrow> P t h \<Longrightarrow>
      \<exists>t'. f h t = (Inr (), t') \<and> tree_inv t' \<and>
        removed (subtrees (blocks t) (off_chain (blocks t) {h})) (blocks t) (blocks t') \<and> same_frame t t'"
    and stable: "\<And>t t' H d. tree_inv t \<Longrightarrow> removed (subtrees (blocks t) H) (blocks t) (blocks t') \<Longrightarrow>
      P t d \<Longrightarrow> d \<notin> subtrees (blocks t) H \<Longrightarrow> P t' d"
    and "tree_inv t" and "\<And>d. d \<in> set ds \<Longrightarrow> P t d" and "unrelated (blocks t) ds"
  shows "\<exists>t'. st_fold f ds t = (Inr (), t') \<and> tree_inv t' \<and>
    removed (subtrees (blocks t) (off_chain (blocks t) (set ds))) (blocks t) (blocks t') \<and> same_frame t t'"
  using assms(3-5)
proof (induction ds arbitrary: t)
  case Nil
  then show ?case
    using tree_invD(1) [of t] removed_empty [of "blocks t"]
    by (simp add: subtrees_def off_chain_def bs_wf_def)
next
  case (Cons d ds)
  note wf = tree_invD(1) [OF Cons.prems(1)]
  let ?S = "subtrees (blocks t) (off_chain (blocks t) {d})"
  obtain t1 where t1: "f d t = (Inr (), t1)" "tree_inv t1"
    "removed ?S (blocks t) (blocks t1)" "same_frame t t1"
    using step [OF Cons.prems(1) Cons.prems(2)] by auto
  note anc1 = subtrees_banc [OF wf t1(3)]
  have apart: "x \<notin> ?S" if "x \<in> set ds" for x
    using Cons.prems(3) that by (auto simp: unrelated_def subtrees_def off_chain_def)
  have "P t1 x" if "x \<in> set ds" for x
    using stable [OF Cons.prems(1) t1(3) Cons.prems(2) apart] that by simp
  moreover have "unrelated (blocks t1) ds"
    using Cons.prems(3) unfolding unrelated_def anc1 by (auto elim: sorted_wrt_mono_rel [rotated])
  ultimately obtain t2 where t2: "st_fold f ds t1 = (Inr (), t2)" "tree_inv t2"
    "removed (subtrees (blocks t1) (off_chain (blocks t1) (set ds))) (blocks t1) (blocks t2)" "same_frame t1 t2"
    using Cons.IH [OF t1(2)] by blast
  have off: "off_chain (blocks t1) (set ds) = off_chain (blocks t) (set ds)"
    using removed_onchain [OF t1(3)] apart by (auto simp: off_chain_def)
  have "?S \<union> subtrees (blocks t1) (off_chain (blocks t1) (set ds)) =
      subtrees (blocks t) (off_chain (blocks t) (set (d # ds)))"
    unfolding off subtrees_def anc1 by (auto simp: subtrees_def off_chain_def)
  with removed_trans [OF t1(3) t2(3)] show ?case
    using t1 t2 same_frame_trans [OF t1(4) t2(4)] by simp
qed

lemma off_chain_all: "(\<And>d. d \<in> H \<Longrightarrow> remove_ok n t d) \<Longrightarrow> off_chain (blocks t) H = H"
  by (auto simp: off_chain_def remove_ok_def)

lemma remove_children:
  assumes step: "\<And>t h. tree_inv t \<Longrightarrow> remove_ok n t h \<Longrightarrow>
      \<exists>t'. f h t = (Inr (), t') \<and> tree_inv t' \<and>
        removed (subtrees (blocks t) {h}) (blocks t) (blocks t') \<and> same_frame t t'"
    and "tree_inv t" and ok: "\<And>d. d \<in> set ds \<Longrightarrow> remove_ok n t d" and "unrelated (blocks t) ds"
  shows "\<exists>t'. st_fold f ds t = (Inr (), t') \<and> tree_inv t' \<and>
    removed (subtrees (blocks t) (set ds)) (blocks t) (blocks t') \<and> same_frame t t'"
proof -
  have "\<exists>t'. st_fold f ds t = (Inr (), t') \<and> tree_inv t' \<and>
    removed (subtrees (blocks t) (off_chain (blocks t) (set ds))) (blocks t) (blocks t') \<and> same_frame t t'"
  proof (rule remove_list [where P = "remove_ok n"])
    show "\<exists>t'. f h t = (Inr (), t') \<and> tree_inv t' \<and>
        removed (subtrees (blocks t) (off_chain (blocks t) {h})) (blocks t) (blocks t') \<and> same_frame t t'"
      if "tree_inv t" "remove_ok n t h" for t h
      using step [OF that] off_chain_all [of "{h}" n t] that(2) by simp
    show "remove_ok n t' d" if "tree_inv t" "removed (subtrees (blocks t) H) (blocks t) (blocks t')"
      "remove_ok n t d" "d \<notin> subtrees (blocks t) H" for t t' H d
      using remove_ok_removed [OF tree_invD(1) [OF that(1)] that(2-4)] .
  qed (use assms in auto)
  with off_chain_all [of "set ds" n t] ok show ?thesis by simp
qed

lemma remove_block_fuel_ok:
  "tree_inv t \<Longrightarrow> remove_ok n t h \<Longrightarrow>
   \<exists>t'. remove_block_fuel n h t = (Inr (), t') \<and> tree_inv t' \<and>
     removed (subtrees (blocks t) {h}) (blocks t) (blocks t') \<and> same_frame t t'"
proof (induction n arbitrary: t h)
  case 0
  then have "h \<in> bdom (blocks t)" by (simp add: remove_ok_def)
  then have "banc (blocks t) h h" by (rule anc_refl)
  with 0(2) show ?case by (auto simp: remove_ok_def)
next
  case (Suc n)
  note wf = tree_invD(1) [OF Suc.prems(1)] and C = tree_invD(2) [OF Suc.prems(1)]
  obtain e where e: "map_of (blocks t) h = Some e" "\<not> onchain (blocks t) h"
    and bound: "\<And>x. banc (blocks t) h x \<Longrightarrow> bht (blocks t) x < bht (blocks t) h + Suc n"
    using Suc.prems(2) by (auto simp: remove_ok_def)
  have ok: "remove_ok n t c" if c: "c \<in> set (bm_children e)" for c
  proof -
    have hc: "banc (blocks t) h c" by (rule children_banc [OF wf e(1) c])
    have "bht (blocks t) x < bht (blocks t) c + n" if "banc (blocks t) c x" for x
      using bound [OF banc_trans [OF hc that]] children_entry [OF wf e(1) c] by auto
    then show ?thesis
      using anc_nodes(2) [OF hc] onchain_up [OF C hc] e(2) by (auto simp: remove_ok_def)
  qed
  obtain t1 where t1: "st_fold (remove_block_fuel n) (bm_children e) t = (Inr (), t1)" "tree_inv t1"
    "removed (subtrees (blocks t) (set (bm_children e))) (blocks t) (blocks t1)" "same_frame t t1"
    using remove_children [OF Suc.IH Suc.prems(1) ok unrelated_children [OF wf e(1)]] by blast
  have out: "h \<notin> subtrees (blocks t) (set (bm_children e))"
  proof
    assume "h \<in> subtrees (blocks t) (set (bm_children e))"
    then obtain c where c: "c \<in> set (bm_children e)" "banc (blocks t) c h" by (auto simp: subtrees_def)
    with banc_antisym [OF wf c(2) children_banc [OF wf e(1) c(1)]] children_entry [OF wf e(1) c(1)]
    show False by auto
  qed
  have "c \<in> subtrees (blocks t) (set (bm_children e))" if "c \<in> set (bm_children e)" for c
    using that children_entry [OF wf e(1) that] banc_refl unfolding subtrees_def by blast
  then have "map_of (blocks t1) h = Some (e\<lparr>bm_children := []\<rparr>)"
    using removed_keep [OF t1(3) out e(1)] by (simp add: filter_empty_conv)
  then obtain t2 where t2: "delete_block h t1 = (Inr (), t2)" "tree_inv t2"
    "removed {h} (blocks t1) (blocks t2)" "same_frame t1 t2"
    using delete_leaf_inv [OF t1(2), of h "e\<lparr>bm_children := []\<rparr>"] e(2) removed_onchain [OF t1(3)] by auto
  from removed_trans [OF t1(3) t2(3)] subtrees_children [OF wf e(1)] show ?case
    using e t1(1) t2 same_frame_trans [OF t1(4) t2(4)] by (simp add: onchain_def)
qed

lemma remove_block_ok:
  assumes inv: "tree_inv t" and h: "map_of (blocks t) h = Some e" "bm_chain_state e \<noteq> Onchain"
  shows "\<exists>t'. remove_block h t = (Inr (), t') \<and> tree_inv t' \<and>
     removed (subtrees (blocks t) {h}) (blocks t) (blocks t') \<and> same_frame t t'"
  unfolding remove_block_def
proof (rule remove_block_fuel_ok [OF inv])
  show "remove_ok (fuel_of (blocks t)) t h"
    using h banc_height_bound [OF tree_invD(1) [OF inv], of h]
    by (auto simp: remove_ok_def onchain_def less_SucI)
qed

end
