(* ===== verification/Block_Tree_Prune.thy ===== *)
theory Block_Tree_Prune
  imports Block_Tree_Remove
begin

text \<open>
  Pruning. Under the invariant the lowest block of the tree is a single root, and the loop of
  \<open>prune\<close> takes the root and its side branches out height by height. What is left is the canonical
  block at the lowest height to keep and its descendants.
\<close>

section \<open>Pruning\<close>

definition root :: "('b, 'e, 'c, 'm) block_map \<Rightarrow> h256 \<Rightarrow> bool" where
  "root bs r \<longleftrightarrow>
     (\<exists>e. map_of bs r = Some e \<and> map_of bs (parent_of e) = None) \<and> (\<forall>x \<in> bdom bs. banc bs r x)"

lemma root_exists:
  assumes inv: "tree_inv t"
  shows "\<exists>r. root (blocks t) r"
proof -
  note wf = tree_invD(1) [OF inv] and C = tree_invD(2) [OF inv]
  have tp: "tip t \<in> bdom (blocks t)" using C by (simp add: chain_inv_def)
  obtain r where r: "banc (blocks t) r (tip t)" "bpar (blocks t) r \<notin> bdom (blocks t)"
    using block_forest.has_root [of "tip t" "blocks t"] wf tp by auto
  obtain e where e: "map_of (blocks t) r = Some e" using anc_nodes(1) [OF r(1)] by auto
  have "banc (blocks t) r x" if x: "x \<in> bdom (blocks t)" for x
  proof -
    obtain a where a: "banc (blocks t) a x" "banc (blocks t) a (tip t)"
      using x chain_inv_common [OF C, of x] by blast
    have "banc (blocks t) r a \<or> a = r"
    proof (cases "a = r")
      case False
      from banc_linear [OF wf r(1) a(2)] show ?thesis
      proof
        assume "banc (blocks t) a r"
        from banc_proper [OF e this False] anc_nodes(2) r(2) e show ?thesis by fastforce
      qed simp
    qed simp
    with a(1) show ?thesis by (auto intro: banc_trans)
  qed
  moreover have "map_of (blocks t) (parent_of e) = None" using r(2) e by auto
  ultimately show ?thesis using e unfolding root_def by blast
qed

lemma prune_child_ok:
  assumes inv: "tree_inv t" and c: "c \<in> bdom (blocks t)"
  shows "\<exists>t'. prune_child c t = (Inr (), t') \<and> tree_inv t' \<and>
    removed (subtrees (blocks t) (off_chain (blocks t) {c})) (blocks t) (blocks t') \<and> same_frame t t'"
proof -
  obtain e where e: "map_of (blocks t) c = Some e" using c by auto
  have dist: "distinct (map fst (blocks t))" using tree_invD(1) [OF inv] by (simp add: bs_wf_def)
  show ?thesis
  proof (cases "bm_chain_state e = Onchain")
    case True
    then have "off_chain (blocks t) {c} = {}" using e by (auto simp: off_chain_def onchain_def)
    then show ?thesis
      using True e inv removed_empty [OF dist] by (simp add: prune_child_def subtrees_def)
  next
    case False
    then have "off_chain (blocks t) {c} = {c}" using e by (auto simp: off_chain_def onchain_def)
    then show ?thesis
      using remove_block_ok [OF inv e False] False e by (auto simp: prune_child_def log_error_def)
  qed
qed

text \<open>One height of the loop: the root goes, and with it everything but the subtree of its canonical child.\<close>

lemma distinct_singleton: "set xs = {x} \<Longrightarrow> distinct xs \<Longrightarrow> xs = [x]"
proof (cases xs)
  case (Cons y ys)
  assume "set xs = {x}" and "distinct xs"
  with Cons show ?thesis by (cases ys) auto
qed simp

lemma root_height_index:
  assumes inv: "tree_inv t" and r: "root (blocks t) r"
  shows "map_of (height_index t) (bht (blocks t) r) = Some [r]"
proof -
  note wf = tree_invD(1) [OF inv]
  have ix: "index_ok (height_index t)"
    "index_get (height_index t) n = {h. \<exists>e. map_of (blocks t) h = Some e \<and> height_of e = n}" for n
    using tree_invD(5) [OF inv] by (auto simp: index_inv_def)
  have uniq: "h = r" if "map_of (blocks t) h = Some e" "height_of e = bht (blocks t) r" for h e
  proof -
    have "banc (blocks t) r h" using r that(1) unfolding root_def by blast
    from banc_eq [OF wf this] that show ?thesis by simp
  qed
  obtain e where e: "map_of (blocks t) r = Some e" using r unfolding root_def by blast
  have g: "index_get (height_index t) (bht (blocks t) r) = {r}"
    unfolding ix(2)
  proof (intro equalityI subsetI)
    fix x
    assume "x \<in> {h. \<exists>e. map_of (blocks t) h = Some e \<and> height_of e = bht (blocks t) r}"
    then obtain xe where "map_of (blocks t) x = Some xe" "height_of xe = bht (blocks t) r" by blast
    from uniq [OF this] show "x \<in> {r}" by simp
  qed (use e in simp)
  then obtain hs where hs: "map_of (height_index t) (bht (blocks t) r) = Some hs" "set hs = {r}"
    by (auto simp: index_get_def split: option.splits)
  have "distinct hs" using ix(1) hs(1) by (simp add: index_ok_def)
  from distinct_singleton [OF hs(2) this] have "hs = [r]" .
  with hs(1) show ?thesis by simp
qed

lemma canonical_child:
  assumes inv: "tree_inv t" and r: "root (blocks t) r" "map_of (blocks t) r = Some e" "r \<noteq> tip t"
  shows "\<exists>c \<in> set (bm_children e). banc (blocks t) c (tip t) \<and>
    off_chain (blocks t) (set (bm_children e)) = set (bm_children e) - {c}"
proof -
  note wf = tree_invD(1) [OF inv] and C = tree_invD(2) [OF inv]
  have "banc (blocks t) r (tip t)" using r(1) C by (simp add: root_def chain_inv_def)
  then obtain c where c: "c \<in> set (bm_children e)" "banc (blocks t) c (tip t)"
    using banc_child [OF wf r(2)] r(3) by blast
  moreover have "d = c" if "d \<in> set (bm_children e)" "onchain (blocks t) d" for d
    using children_apart [OF wf r(2) that(1) c(1) _ c(2)] that(2) chain_inv_onchain [OF C] by blast
  moreover have "onchain (blocks t) c" using c(2) chain_inv_onchain [OF C] by blast
  ultimately show ?thesis unfolding off_chain_def by blast
qed

lemma prune_children_ok:
  assumes inv: "tree_inv t" and e: "map_of (blocks t) r = Some e"
  shows "\<exists>t'. st_fold prune_child (bm_children e) t = (Inr (), t') \<and> tree_inv t' \<and>
    removed (subtrees (blocks t) (off_chain (blocks t) (set (bm_children e)))) (blocks t) (blocks t') \<and>
    same_frame t t'"
proof (rule remove_list [where P = "\<lambda>t d. d \<in> bdom (blocks t)"])
  note wf = tree_invD(1) [OF inv]
  show "unrelated (blocks t) (bm_children e)" by (rule unrelated_children [OF wf e])
  show "d \<in> bdom (blocks t)" if "d \<in> set (bm_children e)" for d
    using children_entry [OF wf e that] by auto
  show "d \<in> bdom (blocks t')"
    if "removed (subtrees (blocks t) H) (blocks t) (blocks t')" "d \<in> bdom (blocks t)"
      "d \<notin> subtrees (blocks t) H" for t t' :: "('a, 'b, 'c, 'd) block_tree" and H d
    using removed_dom [OF that(1)] that(2,3) by blast
qed (use inv prune_child_ok in auto)

lemma removed_cong:
  assumes wf: "bs_wf bs" and r: "removed S bs bs'" and eq: "\<And>x. x \<in> bdom bs \<Longrightarrow> x \<in> S \<longleftrightarrow> x \<in> S'"
  shows "removed S' bs bs'"
proof -
  have "map_of bs' x = (if x \<in> S' then None
      else map_option (\<lambda>e. e\<lparr>bm_children := filter (\<lambda>c. c \<notin> S') (bm_children e)\<rparr>) (map_of bs x))" for x
  proof (cases "map_of bs x")
    case None
    then show ?thesis using removed_lookup [OF r, of x] by simp
  next
    case (Some e)
    have "c \<in> S \<longleftrightarrow> c \<in> S'" if "c \<in> set (bm_children e)" for c
      using eq [of c] children_entry [OF wf Some that] by blast
    then have "filter (\<lambda>c. c \<notin> S) (bm_children e) = filter (\<lambda>c. c \<notin> S') (bm_children e)"
      by (intro filter_cong) auto
    then show ?thesis using removed_lookup [OF r, of x] eq [of x] Some by auto
  qed
  moreover have "distinct (map fst bs')" using r by (simp add: removed_def)
  ultimately show ?thesis unfolding removed_def by blast
qed

text \<open>Keeping one subtree only.\<close>

abbreviation kept :: "h256 \<Rightarrow> ('b, 'e, 'c, 'm) block_map \<Rightarrow> ('b, 'e, 'c, 'm) block_map \<Rightarrow> bool" where
  "kept k bs bs' \<equiv> removed (- {x. banc bs k x}) bs bs'"

lemma kept_banc:
  assumes wf: "bs_wf bs" and r: "kept k bs bs'" and a: "a \<in> bdom bs'"
  shows "banc bs' a x \<longleftrightarrow> banc bs a x"
proof -
  have "banc bs k a" using a removed_dom [OF r] by auto
  then show ?thesis unfolding removed_banc [OF wf r] by (auto intro: banc_trans)
qed

lemma kept_root:
  assumes wf: "bs_wf bs" and r: "kept k bs bs'" and k: "map_of bs k = Some e"
  shows "root bs' k"
proof -
  have kk: "banc bs k k" by (rule banc_refl [OF k])
  then have k': "map_of bs' k = Some (e\<lparr>bm_children := filter (\<lambda>c. c \<notin> - {x. banc bs k x}) (bm_children e)\<rparr>)"
    using removed_keep [OF r _ k] by simp
  moreover have "map_of bs' (parent_of e) = None"
    using removed_lookup [OF r, of "parent_of e"] not_banc_parent [OF wf k] by simp
  moreover have "banc bs' k x" if "x \<in> bdom bs'" for x
    using that removed_dom [OF r] kept_banc [OF wf r, of k x] k' by auto
  ultimately show ?thesis unfolding root_def by auto
qed

lemma kept_trans:
  assumes wf: "bs_wf a" and 1: "kept c a b" and 2: "kept k b d" and k: "k \<in> bdom b"
  shows "kept k a d"
proof -
  have "banc a c k" using k removed_dom [OF 1] by auto
  then have "(- {x. banc a c x}) \<union> (- {x. banc b k x}) = - {x. banc a k x}"
    using kept_banc [OF wf 1 k] by (auto intro: banc_trans)
  with removed_trans [OF 1 2] show ?thesis by simp
qed

lemma delete_root_inv:
  assumes inv: "tree_inv t" and r: "map_of (blocks t) r = Some e" "map_of (blocks t) (parent_of e) = None" "r \<noteq> tip t"
    and on: "\<And>c. c \<in> set (bm_children e) \<Longrightarrow> onchain (blocks t) c"
  shows "\<exists>t'. delete_block r t = (Inr (), t') \<and> tree_inv t' \<and> removed {r} (blocks t) (blocks t') \<and> same_frame t t'"
  by (rule delete_block_inv [OF inv r(1,3)])
    (rule removed_chain_root [OF tree_invD(1,2) [OF inv] _ r on])

lemma prune_root:
  assumes inv: "tree_inv t" and r: "root (blocks t) r" "r \<noteq> tip t"
  shows "\<exists>t' c. prune_height (bht (blocks t) r) t = (Inr (), t') \<and> tree_inv t' \<and> same_frame t t' \<and>
    banc (blocks t) c (tip t) \<and> bht (blocks t) c = Suc (bht (blocks t) r) \<and>
    kept c (blocks t) (blocks t')"
proof -
  note wf = tree_invD(1) [OF inv] and C = tree_invD(2) [OF inv]
  obtain e where e: "map_of (blocks t) r = Some e" "map_of (blocks t) (parent_of e) = None"
    and all: "\<And>x. x \<in> bdom (blocks t) \<Longrightarrow> banc (blocks t) r x" using r(1) unfolding root_def by blast
  obtain c where c: "c \<in> set (bm_children e)" "banc (blocks t) c (tip t)"
    and off: "off_chain (blocks t) (set (bm_children e)) = set (bm_children e) - {c}"
    using canonical_child [OF inv r(1) e(1) r(2)] by blast
  let ?S = "subtrees (blocks t) (set (bm_children e) - {c})"
  obtain t1 where t1: "st_fold prune_child (bm_children e) t = (Inr (), t1)" "tree_inv t1"
    "removed ?S (blocks t) (blocks t1)" "same_frame t t1"
    using prune_children_ok [OF inv e(1)] unfolding off by blast
  have apart: "d = c" if "d \<in> set (bm_children e)" "banc (blocks t) d x" "banc (blocks t) c x" for d x
    using children_apart [OF wf e(1) that(1) c(1) that(2,3)] .
  have nr: "\<not> banc (blocks t) d r" if "d \<in> set (bm_children e)" for d
    using banc_antisym [OF wf _ children_banc [OF wf e(1) that]] children_entry [OF wf e(1) that] by fastforce
  then have rS: "r \<notin> ?S" by (auto simp: subtrees_def)
  let ?e1 = "e\<lparr>bm_children := filter (\<lambda>x. x \<notin> ?S) (bm_children e)\<rparr>"
  have e1: "map_of (blocks t1) r = Some ?e1" by (rule removed_keep [OF t1(3) rS e(1)])
  have only: "d = c" if "d \<in> set (bm_children e)" "d \<notin> ?S" for d
    using that children_entry [OF wf e(1) that(1)] banc_refl [of "blocks t" d] unfolding subtrees_def by blast
  have "onchain (blocks t1) d" if "d \<in> set (bm_children ?e1)" for d
    using that only [of d] c(2) chain_inv_onchain [OF C, of c] removed_onchain [OF t1(3), of d] by auto
  moreover have "map_of (blocks t1) (parent_of ?e1) = None"
    using removed_lookup [OF t1(3), of "parent_of e"] e(2) by simp
  moreover have "r \<noteq> tip t1" using r(2) t1(4) by (simp add: same_frame_def)
  ultimately obtain t2 where t2: "delete_block r t1 = (Inr (), t2)" "tree_inv t2"
    "removed {r} (blocks t1) (blocks t2)" "same_frame t1 t2"
    using delete_root_inv [OF t1(2) e1] by blast
  have "x \<in> ?S \<union> {r} \<longleftrightarrow> x \<in> - {x. banc (blocks t) c x}" if x: "x \<in> bdom (blocks t)" for x
  proof (cases "x = r")
    case True
    then show ?thesis using nr [OF c(1)] by simp
  next
    case False
    then obtain d where d: "d \<in> set (bm_children e)" "banc (blocks t) d x"
      using banc_child [OF wf e(1) all [OF x]] by blast
    show ?thesis using False d apart by (auto simp: subtrees_def)
  qed
  then have "kept c (blocks t) (blocks t2)"
    using removed_cong [OF wf removed_trans [OF t1(3) t2(3)]] by blast
  moreover have "bm_chain_state e = Onchain"
    using all [of "tip t"] C chain_inv_onchain [OF C, of r] onchain_entry [OF e(1)] by (simp add: chain_inv_def)
  then have "prune_height (bht (blocks t) r) t = (Inr (), t2)"
    using root_height_index [OF inv r(1)] e t1(1) t2(1) by (simp add: prune_height_def prune_hash_def log_error_def)
  moreover have "bht (blocks t) c = Suc (bht (blocks t) r)" using children_entry [OF wf e(1) c(1)] by blast
  ultimately show ?thesis using c(2) t2(2) same_frame_trans [OF t1(4) t2(4)] by blast
qed

lemma prune_heights:
  assumes "tree_inv t" and "root (blocks t) r" and "bht (blocks t) r \<le> m" and "m \<le> bht (blocks t) (tip t)"
  shows "\<exists>t' k. st_fold prune_height [bht (blocks t) r ..< m] t = (Inr (), t') \<and> tree_inv t' \<and> same_frame t t' \<and>
    banc (blocks t) k (tip t) \<and> bht (blocks t) k = m \<and> kept k (blocks t) (blocks t')"
  using assms
proof (induction "m - bht (blocks t) r" arbitrary: t r)
  case 0
  note wf = tree_invD(1) [OF "0.prems"(1)] and C = tree_invD(2) [OF "0.prems"(1)]
  have "kept r (blocks t) (blocks t)"
    by (rule removed_cong [OF wf removed_empty]) (use wf "0.prems"(2) in \<open>auto simp: bs_wf_def root_def\<close>)
  moreover have "banc (blocks t) r (tip t)" using "0.prems"(2) C by (simp add: root_def chain_inv_def)
  ultimately show ?case using 0 by (intro exI [of _ t] exI [of _ r]) simp
next
  case (Suc n)
  note wf = tree_invD(1) [OF Suc.prems(1)]
  have "r \<noteq> tip t" using Suc.hyps(2) Suc.prems(4) by auto
  then obtain t1 c where t1: "prune_height (bht (blocks t) r) t = (Inr (), t1)" "tree_inv t1" "same_frame t t1"
    and c: "banc (blocks t) c (tip t)" "bht (blocks t) c = Suc (bht (blocks t) r)"
    and k1: "kept c (blocks t) (blocks t1)"
    using prune_root [OF Suc.prems(1,2)] by blast
  obtain ce where ce: "map_of (blocks t) c = Some ce" using anc_nodes(1) [OF c(1)] by auto
  have r1: "root (blocks t1) c" by (rule kept_root [OF wf k1 ce])
  have dom: "c \<in> bdom (blocks t1)" "tip t \<in> bdom (blocks t1)"
    using removed_dom [OF k1] banc_refl [OF ce] ce c(1) anc_nodes(2) [OF c(1)] by auto
  note ht = removed_bht [OF k1]
  have tip1: "tip t1 = tip t" using t1(3) by (simp add: same_frame_def)
  have "n = m - bht (blocks t1) c" "bht (blocks t1) c \<le> m" "m \<le> bht (blocks t1) (tip t1)"
    using Suc.hyps(2) Suc.prems(4) ht [OF dom(1)] ht [OF dom(2)] c(2) tip1 by auto
  from Suc.hyps(1) [OF this(1) t1(2) r1 this(2,3)] obtain t2 k
    where t2: "st_fold prune_height [bht (blocks t1) c ..< m] t1 = (Inr (), t2)" "tree_inv t2" "same_frame t1 t2"
    and k: "banc (blocks t1) k (tip t1)" "bht (blocks t1) k = m" "kept k (blocks t1) (blocks t2)" by blast
  have kd: "k \<in> bdom (blocks t1)" by (rule anc_nodes(1) [OF k(1)])
  have "[bht (blocks t) r ..< m] = bht (blocks t) r # [bht (blocks t1) c ..< m]"
    using Suc.hyps(2) ht [OF dom(1)] c(2) by (simp add: upt_conv_Cons)
  then have "st_fold prune_height [bht (blocks t) r ..< m] t = (Inr (), t2)"
    using t1(1) t2(1) by simp
  moreover have "banc (blocks t) k (tip t)" using k(1) kept_banc [OF wf k1 kd] tip1 by simp
  moreover have "bht (blocks t) k = m" using ht [OF kd] k(2) by simp
  ultimately show ?case
    using kept_trans [OF wf k1 k(3) kd] t2(2) same_frame_trans [OF t1(3) t2(3)] by blast
qed

lemma height_index_min:
  assumes inv: "tree_inv t" and r: "root (blocks t) r"
  shows "\<exists>h hs. map fst (height_index t) = h # hs \<and> fold min hs h = bht (blocks t) r"
proof -
  note wf = tree_invD(1) [OF inv]
  have keys: "bht (blocks t) r \<in> set (map fst (height_index t))"
    using root_height_index [OF inv r] by (force dest: map_of_SomeD)
  then obtain h hs where h: "map fst (height_index t) = h # hs" by (cases "map fst (height_index t)") auto
  have "bht (blocks t) r \<le> n" if n: "n \<in> set (map fst (height_index t))" for n
  proof -
    obtain s where s: "map_of (height_index t) n = Some s"
      using n by (metis map_of_eq_None_iff not_None_eq list.set_map)
    then have "index_get (height_index t) n \<noteq> {}"
      using tree_invD(5) [OF inv] index_get_empty_iff [of "height_index t" n] by (simp add: index_inv_def)
    then obtain x xe where x: "map_of (blocks t) x = Some xe" "height_of xe = n"
      using tree_invD(5) [OF inv] by (auto simp: index_inv_def)
    then have "banc (blocks t) r x" using r unfolding root_def by blast
    from banc_ht [OF wf this] x show ?thesis by simp
  qed
  then have "Min (set (h # hs)) = bht (blocks t) r"
    using keys unfolding h by (intro Min_eqI) auto
  with h show ?thesis by (metis Min.set_eq_fold)
qed

lemma prune_ok:
  assumes inv: "tree_inv t" and r: "root (blocks t) r"
  shows "\<exists>t' k. prune d t = (Inr (), t') \<and> tree_inv t' \<and> same_frame t t' \<and>
    banc (blocks t) k (tip t) \<and>
    bht (blocks t) k = max (bht (blocks t) r) (bht (blocks t) (tip t) - d) \<and>
    kept k (blocks t) (blocks t')"
proof -
  note wf = tree_invD(1) [OF inv] and C = tree_invD(2) [OF inv]
  obtain te where te: "map_of (blocks t) (tip t) = Some te" using chain_inv_tip [OF C] by blast
  obtain h hs where h: "map fst (height_index t) = h # hs" "fold min hs h = bht (blocks t) r"
    using height_index_min [OF inv r] by (elim exE conjE)
  let ?m = "max (bht (blocks t) r) (bht (blocks t) (tip t) - d)"
  have "banc (blocks t) r (tip t)" using r te unfolding root_def by blast
  from banc_ht [OF wf this] have "?m \<le> bht (blocks t) (tip t)" by simp
  moreover have "prune d t = st_fold prune_height [bht (blocks t) r ..< ?m] t"
    using te h by (simp add: prune_def max_def)
  ultimately show ?thesis using prune_heights [OF inv r, of ?m] by simp
qed

end
