(* ===== verification/Block_Tree_Query.thy ===== *)
theory Block_Tree_Query
  imports Block_Tree_Prune
begin

text \<open>
  The queries that walk along parent links. \<open>ancestry\<close> lists the ancestors of a block and \<open>branch\<close>
  the part of it above a given ancestor; the canonical chain, the split of two chains and the fork
  blocks are expressed with them, and every walk is shown to end with a result.
\<close>

section \<open>The ancestry of a block as a list\<close>

primrec up_walk ::
  "nat \<Rightarrow> ('b, 'e, 'c, 'm) block_map \<Rightarrow> h256 \<Rightarrow> (h256 \<times> ('b, 'e, 'c, 'm) block_metadata) list"
where
  "up_walk 0 bs h = []"
| "up_walk (Suc n) bs h =
     (case map_of bs h of None \<Rightarrow> [] | Some e \<Rightarrow> (h, e) # up_walk n bs (parent_of e))"

definition ancestry ::
  "('b, 'e, 'c, 'm) block_map \<Rightarrow> h256 \<Rightarrow> (h256 \<times> ('b, 'e, 'c, 'm) block_metadata) list"
where
  "ancestry bs h = up_walk (length bs) bs h"

lemma up_walk_enough:
  assumes wf: "bs_wf bs" and "depth bs h \<le> n"
  shows "up_walk n bs h = up_walk (depth bs h) bs h"
  using assms(2)
proof (induction n arbitrary: h)
  case (Suc n)
  show ?case
  proof (cases "map_of bs h")
    case None
    then show ?thesis by (simp add: depth_None)
  next
    case (Some e)
    with Suc show ?thesis using depth_Some [OF wf Some] by simp
  qed
qed simp

lemma ancestry_None: "map_of bs h = None \<Longrightarrow> ancestry bs h = []"
  by (cases "length bs") (simp_all add: ancestry_def)

lemma ancestry_Some:
  assumes wf: "bs_wf bs" and h: "map_of bs h = Some e"
  shows "ancestry bs h = (h, e) # ancestry bs (parent_of e)"
  unfolding ancestry_def
  using up_walk_enough [OF wf depth_le] up_walk_enough [OF wf, of "parent_of e" "length bs"]
    depth_le [of bs h] depth_Some [OF assms] h by simp

text \<open>Induction along the ancestry.\<close>

lemma ancestry_induct [consumes 1, case_names None Some]:
  assumes wf: "bs_wf bs"
    and "\<And>h. map_of bs h = None \<Longrightarrow> P h"
    and "\<And>h e. map_of bs h = Some e \<Longrightarrow> P (parent_of e) \<Longrightarrow> P h"
  shows "P h"
proof (induction "depth bs h" arbitrary: h rule: less_induct)
  case less
  show ?case
  proof (cases "map_of bs h")
    case (Some e)
    with assms(3) [OF Some] less depth_Some [OF wf Some] show ?thesis by simp
  qed (use assms(2) in simp)
qed

lemma ancestry_set:
  assumes wf: "bs_wf bs"
  shows "(x, e) \<in> set (ancestry bs h) \<longleftrightarrow> banc bs x h \<and> map_of bs x = Some e"
proof (induction h rule: ancestry_induct [OF wf])
  case (1 h)
  then show ?case using anc_nodes(2) [of "bdom bs" "bpar bs" x h] by (auto simp: ancestry_None)
next
  case (2 h he)
  have "banc bs x h \<longleftrightarrow> x = h \<or> banc bs x (parent_of he)"
    using anc_par_iff [of "bdom bs" "bpar bs" x h] 2(1) by auto
  then show ?case using 2 by (auto simp: ancestry_Some [OF wf 2(1)])
qed

lemma ancestry_fst: "bs_wf bs \<Longrightarrow> fst ` set (ancestry bs h) = {x. banc bs x h}"
  using ancestry_set [of bs _ _ h] anc_nodes(1) [of "bdom bs" "bpar bs" _ h] by force

lemma ancestry_length:
  assumes wf: "bs_wf bs"
  shows "length (ancestry bs h) = depth bs h"
  by (induction h rule: ancestry_induct [OF wf])
    (simp_all add: ancestry_None depth_None ancestry_Some [OF wf] depth_Some [OF wf])

lemma ancestry_heights:
  assumes wf: "bs_wf bs" and "map_of bs h = Some e"
  shows "map (\<lambda>p. height_of (snd p)) (ancestry bs h) = rev [Suc (bht bs h) - depth bs h ..< Suc (bht bs h)]"
  using assms(2)
proof (induction h arbitrary: e rule: ancestry_induct [OF wf])
  case (2 h he)
  show ?case
  proof (cases "map_of bs (parent_of he)")
    case None
    then show ?thesis
      using depth_Some [OF wf 2(1)] 2(1) by (simp add: ancestry_Some [OF wf 2(1)] ancestry_None depth_None)
  next
    case (Some pe)
    have ht: "bht bs h = Suc (bht bs (parent_of he))" by (rule bs_wf_parent_ht [OF wf 2(1) Some])
    show ?thesis
      using 2(2) [OF Some] depth_Some [OF wf 2(1)] 2(1) ht
      by (simp add: ancestry_Some [OF wf 2(1)])
  qed
qed simp

lemma depth_le_height:
  assumes wf: "bs_wf bs" and "map_of bs h = Some e"
  shows "depth bs h \<le> Suc (bht bs h)"
  using assms(2)
proof (induction h arbitrary: e rule: ancestry_induct [OF wf])
  case (2 h he)
  then show ?case
    using depth_Some [OF wf 2(1)] bs_wf_parent_ht [OF wf 2(1)] depth_None [of bs "parent_of he"]
    by (cases "map_of bs (parent_of he)") auto
qed simp

text \<open>A block of height 0 has no parent in the tree, so the loops that stop there lose nothing.\<close>

lemma genesis_ancestry:
  "bs_wf bs \<Longrightarrow> map_of bs h = Some e \<Longrightarrow> height_of e = 0 \<Longrightarrow> map_of bs (parent_of e) = None"
  using bs_wf_parent [of bs h e] by (cases "map_of bs (parent_of e)") auto

section \<open>The canonical chain\<close>

lemma collect_chain_ancestry:
  assumes wf: "bs_wf bs"
  shows "collect_chain bs n h =
    (map (\<lambda>p. bm_block (snd p)) (take (Suc n) (ancestry bs h)),
     length (filter (\<lambda>p. bm_chain_state (snd p) \<noteq> Onchain) (take (Suc n) (ancestry bs h))))"
proof (induction n arbitrary: h)
  case 0
  show ?case
    by (cases "map_of bs h")
      (simp_all add: collect_chain_None collect_chain_0 ancestry_None ancestry_Some [OF wf])
next
  case (Suc n)
  show ?case
  proof (cases "map_of bs h")
    case (Some e)
    have "height_of e = 0 \<Longrightarrow> ancestry bs (parent_of e) = []"
      using genesis_ancestry [OF wf Some] ancestry_None by blast
    then show ?thesis
      using Suc.IH [of "parent_of e"]
      by (simp add: collect_chain_Suc [OF Some] ancestry_Some [OF wf Some])
  qed (simp add: collect_chain_None ancestry_None)
qed

lemma longest_chain_cache_eq:
  assumes inv: "tree_inv t"
  shows "longest_chain_cache t =
    (rev (map (\<lambda>p. bm_block (snd p)) (take (Suc (block_tree_depth t)) (ancestry (blocks t) (tip t)))), 0)"
proof -
  note I = tree_invD [OF inv]
  have on: "bm_chain_state (snd p) = Onchain" if "p \<in> set (ancestry (blocks t) (tip t))" for p
  proof -
    obtain x e where p: "p = (x, e)" by (cases p)
    with that ancestry_set [OF I(1)] have x: "banc (blocks t) x (tip t)" "map_of (blocks t) x = Some e" by blast+
    with chain_inv_onchain [OF I(2), of x] onchain_entry [OF x(2)] show ?thesis using p by simp
  qed
  have "filter (\<lambda>p. bm_chain_state (snd p) \<noteq> Onchain)
      (take (Suc (block_tree_depth t)) (ancestry (blocks t) (tip t))) = []"
    using on by (auto simp: filter_empty_conv dest: in_set_takeD)
  moreover have "longest_chain_cache t = longest_chain_cache (update_longest_chain_cache t)"
    using I(6) by (simp add: cache_inv_def)
  ultimately show ?thesis
    by (simp add: update_longest_chain_cache_def collect_chain_ancestry [OF I(1)])
qed

text \<open>The first \<open>m\<close> blocks of an ancestry are those within \<open>m\<close> heights of its start.\<close>

lemma take_ancestry_set:
  assumes wf: "bs_wf bs" and "h \<in> bdom bs"
  shows "(x, e) \<in> set (take m (ancestry bs h)) \<longleftrightarrow>
    banc bs x h \<and> map_of bs x = Some e \<and> bht bs h < bht bs x + m"
  using assms(2)
proof (induction h arbitrary: m rule: ancestry_induct [OF wf])
  case (1 h)
  then show ?case by auto
next
  case (2 h he)
  note he = 2(1)
  have anc: "banc bs x h \<longleftrightarrow> x = h \<or> banc bs x (parent_of he)"
    using anc_par_iff [of "bdom bs" "bpar bs" x h] he by auto
  show ?case
  proof (cases m)
    case 0
    then show ?thesis using banc_ht [OF wf, of x h] by auto
  next
    case (Suc m')
    show ?thesis
    proof (cases "map_of bs (parent_of he)")
      case None
      then have "\<not> banc bs x (parent_of he)" using anc_nodes(2) by fastforce
      then show ?thesis using Suc he anc by (auto simp: ancestry_Some [OF wf he] ancestry_None [OF None])
    next
      case (Some pe)
      then have "parent_of he \<in> bdom bs" by auto
      then show ?thesis
        using Suc he anc 2(2) [of m'] bs_wf_parent_ht [OF wf he Some]
        by (auto simp: ancestry_Some [OF wf he])
    qed
  qed
qed

section \<open>Branches\<close>

text \<open>The blocks of the ancestry of \<open>h\<close> down to, and without, the ancestor \<open>a\<close>, oldest first.\<close>

definition branch :: "('b, 'e, 'c, 'm) block_map \<Rightarrow> h256 \<Rightarrow> h256 \<Rightarrow> 'b sealed_block list" where
  "branch bs a h = rev (map (\<lambda>p. bm_block (snd p)) (takeWhile (\<lambda>p. fst p \<noteq> a) (ancestry bs h)))"

lemma ancestry_split:
  assumes wf: "bs_wf bs" and "banc bs a h"
  shows "ancestry bs h = takeWhile (\<lambda>p. fst p \<noteq> a) (ancestry bs h) @ ancestry bs a"
  using assms(2)
proof (induction h rule: ancestry_induct [OF wf])
  case (1 h)
  then show ?case using anc_nodes(2) [OF 1(2)] by auto
next
  case (2 h e)
  show ?case
  proof (cases "h = a")
    case False
    then have "banc bs a (parent_of e)" using banc_proper [OF 2(1) 2(3)] by blast
    with 2(2) False show ?thesis by (simp add: ancestry_Some [OF wf 2(1)])
  next
    case True
    with 2(1) show ?thesis using ancestry_Some [OF wf, of a e] by simp
  qed
qed

lemma branch_take:
  assumes wf: "bs_wf bs" and a: "banc bs a h"
  shows "takeWhile (\<lambda>p. fst p \<noteq> a) (ancestry bs h) = take (bht bs h - bht bs a) (ancestry bs h)"
proof -
  have "length (ancestry bs h) = length (takeWhile (\<lambda>p. fst p \<noteq> a) (ancestry bs h)) + depth bs a"
    using arg_cong [OF ancestry_split [OF wf a], of length] ancestry_length [OF wf, of a] by simp
  then have "length (takeWhile (\<lambda>p. fst p \<noteq> a) (ancestry bs h)) = bht bs h - bht bs a"
    using depth_banc [OF wf a] ancestry_length [OF wf, of h] by simp
  with ancestry_split [OF wf a] show ?thesis by (metis append_eq_conv_conj)
qed

lemma image_snd_pairs: "(\<lambda>p. f (snd p)) ` {(x, e). P x e} = {f e | x e. P x e}"
  unfolding image_def by (simp add: set_eq_iff) blast

lemma branch_set:
  assumes wf: "bs_wf bs" and a: "banc bs a h"
  shows "set (branch bs a h) = {bm_block e | x e. map_of bs x = Some e \<and> banc bs x h \<and> bht bs a < bht bs x}"
proof -
  note h = anc_nodes(2) [OF a]
  have "bht bs h < bht bs x + (bht bs h - bht bs a) \<longleftrightarrow> bht bs a < bht bs x" for x
    using banc_ht [OF wf a] by auto
  then have mem: "set (takeWhile (\<lambda>p. fst p \<noteq> a) (ancestry bs h)) =
      {(x, e). map_of bs x = Some e \<and> banc bs x h \<and> bht bs a < bht bs x}"
    unfolding branch_take [OF wf a] using take_ancestry_set [OF wf h] by auto
  show ?thesis unfolding branch_def set_rev list.set_map mem by (rule image_snd_pairs)
qed

lemma branch_heights:
  assumes wf: "bs_wf bs" and a: "banc bs a h"
  shows "map (\<lambda>b. bh_height (sb_header b)) (branch bs a h) = [Suc (bht bs a) ..< Suc (bht bs h)]"
proof -
  obtain he where h: "map_of bs h = Some he" using anc_nodes(2) [OF a] by auto
  obtain ae where ae: "map_of bs a = Some ae" using anc_nodes(1) [OF a] by auto
  let ?n = "bht bs h - bht bs a"
  have n: "?n \<le> depth bs h" "bht bs a \<le> bht bs h" "depth bs h \<le> Suc (bht bs h)"
    using depth_banc [OF wf a] banc_ht [OF wf a] depth_le_height [OF wf h] by auto
  have "map (\<lambda>b. bh_height (sb_header b)) (branch bs a h) =
      rev (take ?n (map (\<lambda>p. height_of (snd p)) (ancestry bs h)))"
    unfolding branch_def branch_take [OF wf a] by (simp add: rev_map take_map comp_def)
  also have "\<dots> = drop (depth bs h - ?n) [Suc (bht bs h) - depth bs h ..< Suc (bht bs h)]"
    unfolding ancestry_heights [OF wf h] using n by (simp add: take_rev)
  also have "\<dots> = [Suc (bht bs a) ..< Suc (bht bs h)]"
    using n by (simp add: drop_upt del: upt_Suc)
  finally show ?thesis .
qed

section \<open>The point where two chains part\<close>

lemma new_walk_ancestry:
  assumes wf: "bs_wf bs" and "depth bs h < n"
  shows "new_walk n bs h = Inr (map (\<lambda>(x, e). (x, bm_block e)) (ancestry bs h))"
  using assms(2)
proof (induction n arbitrary: h)
  case (Suc n)
  show ?case
  proof (cases "map_of bs h")
    case (Some e)
    have "height_of e = 0 \<Longrightarrow> ancestry bs (parent_of e) = []"
      using genesis_ancestry [OF wf Some] ancestry_None by blast
    then show ?thesis
      using Some Suc.IH [of "parent_of e"] Suc.prems depth_Some [OF wf Some]
      by (simp add: ancestry_Some [OF wf Some])
  qed (simp add: ancestry_None)
qed simp

lemma old_walk_branch:
  assumes wf: "bs_wf bs" and l: "map_of bs l = Some le" "l \<in> S"
    and "banc bs l h" and "\<And>x. x \<in> S \<Longrightarrow> banc bs x h \<Longrightarrow> banc bs x l" and "depth bs h \<le> n"
  shows "old_walk n bs S ot h acc = Inr (bm_block le, branch bs l h @ acc)"
  using assms(4-6)
proof (induction n arbitrary: h acc)
  case 0
  then obtain e where "map_of bs h = Some e" using anc_nodes(2) [OF 0(1)] by auto
  with 0(3) show ?case using depth_Some [OF wf] by simp
next
  case (Suc n)
  obtain e where e: "map_of bs h = Some e" using anc_nodes(2) [OF Suc.prems(1)] by auto
  have b: "branch bs l h = (if h = l then [] else branch bs l (parent_of e) @ [bm_block e])"
    by (simp add: branch_def ancestry_Some [OF wf e])
  show ?case
  proof (cases "h \<in> S")
    case True
    then have "h = l" using Suc.prems(1) Suc.prems(2) [OF True banc_refl [OF e]] banc_antisym [OF wf] by blast
    with True e l(1) b show ?thesis by simp
  next
    case False
    then have hl: "h \<noteq> l" using l(2) by blast
    have p: "banc bs l (parent_of e)" using banc_proper [OF e Suc.prems(1)] hl by blast
    then obtain pe where pe: "map_of bs (parent_of e) = Some pe" using anc_nodes(2) by fastforce
    have "height_of e \<noteq> 0" using genesis_ancestry [OF wf e] pe by auto
    moreover have "old_walk n bs S ot (parent_of e) (bm_block e # acc) =
        Inr (bm_block le, branch bs l (parent_of e) @ bm_block e # acc)"
    proof (rule Suc.IH [OF p])
      show "banc bs x l" if "x \<in> S" "banc bs x (parent_of e)" for x
        using Suc.prems(2) [OF that(1)] that(2) banc_parent [OF e pe] banc_trans by blast
      show "depth bs (parent_of e) \<le> n" using Suc.prems(3) depth_Some [OF wf e] by simp
    qed
    ultimately show ?thesis using False e hl b by simp
  qed
qed

lemma common_ancestor:
  assumes inv: "tree_inv t" and "a \<in> bdom (blocks t)" and "b \<in> bdom (blocks t)"
  shows "\<exists>l. banc (blocks t) l a \<and> banc (blocks t) l b \<and>
    (\<forall>x. banc (blocks t) x a \<and> banc (blocks t) x b \<longrightarrow> banc (blocks t) x l)"
proof -
  let ?bs = "blocks t"
  note wf = tree_invD(1) [OF inv]
  obtain r where "root ?bs r" using root_exists [OF inv] by blast
  then have r: "banc ?bs r a" "banc ?bs r b" using assms(2,3) unfolding root_def by blast+
  let ?C = "{x. banc ?bs x a \<and> banc ?bs x b}"
  have fin: "finite ?C" by (rule finite_subset [OF _ finite_banc [of ?bs a]]) blast
  have "?C \<noteq> {}" using r by blast
  then have "Max (bht ?bs ` ?C) \<in> bht ?bs ` ?C"
    using fin by (intro Max_in finite_imageI) simp_all
  then obtain l where l: "Max (bht ?bs ` ?C) = bht ?bs l" "l \<in> ?C" by (rule imageE)
  have la: "banc ?bs l a" and lb: "banc ?bs l b" using l(2) by simp_all
  have "banc ?bs x l" if x: "banc ?bs x a" "banc ?bs x b" for x
  proof -
    have cand: "bht ?bs x \<le> bht ?bs l"
      unfolding l(1) [symmetric] using fin x by (intro Max_ge finite_imageI imageI) simp_all
    from banc_linear [OF wf x(1) la] show ?thesis
    proof
      assume lx: "banc ?bs l x"
      with cand banc_ht [OF wf lx] have "l = x" using banc_eq [OF wf lx] by linarith
      with lx show ?thesis by simp
    qed
  qed
  with la lb show ?thesis by blast
qed

lemma ancestry_hash:
  assumes wf: "bs_wf bs" and "(x, e) \<in> set (ancestry bs h)"
  shows "bh_block_hash (header_of e) = x"
  using bs_wf_hash [OF wf] ancestry_set [OF wf] assms(2) by blast

lemma takeWhile_hash:
  assumes wf: "bs_wf bs"
  shows "takeWhile (\<lambda>(_, b). bh_block_hash (sb_header b) \<noteq> l) (map (\<lambda>(x, e). (x, bm_block e)) (ancestry bs h)) =
    map (\<lambda>(x, e). (x, bm_block e)) (takeWhile (\<lambda>p. fst p \<noteq> l) (ancestry bs h))"
proof -
  have "takeWhile (\<lambda>(x, e). bh_block_hash (header_of e) \<noteq> l) (ancestry bs h) =
      takeWhile (\<lambda>p. fst p \<noteq> l) (ancestry bs h)"
    by (rule takeWhile_cong) (auto dest: ancestry_hash [OF wf])
  then show ?thesis by (simp add: takeWhile_map comp_def case_prod_unfold)
qed

lemma find_reorg_split_ok:
  assumes inv: "tree_inv t" and new: "new_tip \<in> bdom (blocks t)" and old: "old_tip \<in> bdom (blocks t)"
  shows "\<exists>l le. map_of (blocks t) l = Some le \<and> banc (blocks t) l new_tip \<and> banc (blocks t) l old_tip \<and>
    (\<forall>x. banc (blocks t) x new_tip \<and> banc (blocks t) x old_tip \<longrightarrow> banc (blocks t) x l) \<and>
    find_reorg_split new_tip old_tip t =
      Inr \<lparr>rs_lca = bm_block le, rs_old_divergent = branch (blocks t) l old_tip,
           rs_new_divergent = branch (blocks t) l new_tip\<rparr>"
proof -
  let ?bs = "blocks t" and ?ws = "map (\<lambda>(x, e). (x, bm_block e)) (ancestry (blocks t) new_tip)"
  note wf = tree_invD(1) [OF inv]
  obtain l where l: "banc ?bs l new_tip" "banc ?bs l old_tip"
    and low: "\<And>x. banc ?bs x new_tip \<Longrightarrow> banc ?bs x old_tip \<Longrightarrow> banc ?bs x l"
    using common_ancestor [OF inv new old] by blast
  obtain le where le: "map_of ?bs l = Some le" using anc_nodes(1) [OF l(1)] by auto
  have walk: "new_walk (fuel_of ?bs) ?bs new_tip = Inr ?ws"
    by (rule new_walk_ancestry [OF wf]) (simp add: depth_le less_Suc_eq_le)
  have ne: "ancestry ?bs new_tip \<noteq> []" using new ancestry_Some [OF wf] by auto
  have keys: "set (map fst ?ws) = {x. banc ?bs x new_tip}"
    using ancestry_fst [OF wf, of new_tip] by (simp add: image_image case_prod_unfold)
  have "old_walk (fuel_of ?bs) ?bs {x. banc ?bs x new_tip} old_tip old_tip [] =
      Inr (bm_block le, branch ?bs l old_tip @ [])"
    by (rule old_walk_branch [OF wf le _ l(2)]) (use l(1) low depth_le [of ?bs old_tip] in auto)
  moreover have hash: "bh_block_hash (header_of le) = l" by (rule bs_wf_hash [OF wf le])
  moreover have len: "length (takeWhile (\<lambda>(_, b). bh_block_hash (sb_header b) \<noteq> l) ?ws) < length ?ws"
    using arg_cong [OF ancestry_split [OF wf l(1)], of length] ancestry_Some [OF wf le]
    unfolding takeWhile_hash [OF wf] by simp
  moreover have "take (length (takeWhile (\<lambda>(_, b). bh_block_hash (sb_header b) \<noteq> l) ?ws)) ?ws =
      map (\<lambda>(x, e). (x, bm_block e)) (takeWhile (\<lambda>p. fst p \<noteq> l) (ancestry ?bs new_tip))"
    unfolding takeWhile_hash [OF wf] by (metis takeWhile_eq_take takeWhile_hash [OF wf])
  then have "rev (map snd (take (length (takeWhile (\<lambda>(_, b). bh_block_hash (sb_header b) \<noteq> l) ?ws)) ?ws)) =
      branch ?bs l new_tip"
    by (simp add: branch_def case_prod_unfold comp_def)
  ultimately have "find_reorg_split new_tip old_tip t =
      Inr \<lparr>rs_lca = bm_block le, rs_old_divergent = branch ?bs l old_tip,
           rs_new_divergent = branch ?bs l new_tip\<rparr>"
    unfolding find_reorg_split_def walk rbind_simps keys using ne by simp
  with le l low show ?thesis by blast
qed

section \<open>Other walks\<close>

lemma get_fork_blocks_ok:
  assumes inv: "tree_inv t" and h: "h \<in> bdom (blocks t)"
  shows "\<exists>l le. map_of (blocks t) l = Some le \<and> banc (blocks t) l h \<and> onchain (blocks t) l \<and>
    (\<forall>x. banc (blocks t) x h \<and> onchain (blocks t) x \<longrightarrow> banc (blocks t) x l) \<and>
    get_fork_blocks h t = Inr (bm_block le # branch (blocks t) l h)"
proof -
  let ?bs = "blocks t"
  note wf = tree_invD(1) [OF inv] and C = tree_invD(2) [OF inv]
  have tp: "tip t \<in> bdom ?bs" using C by (simp add: chain_inv_def)
  obtain l where l: "banc ?bs l h" "banc ?bs l (tip t)"
    and low: "\<And>x. banc ?bs x h \<Longrightarrow> banc ?bs x (tip t) \<Longrightarrow> banc ?bs x l"
    using common_ancestor [OF inv h tp] by blast
  obtain le where le: "map_of ?bs l = Some le" using anc_nodes(1) [OF l(1)] by auto
  have on: "onchain ?bs l" using l(2) chain_inv_onchain [OF C] by simp
  have loop: "fork_blocks_loop n ?bs acc x = Inr (bm_block le # branch ?bs l x @ acc)"
    if "banc ?bs l x" "banc ?bs x h" "depth ?bs x \<le> n" for n acc x
    using that
  proof (induction n arbitrary: acc x)
    case 0
    then show ?case using anc_nodes(2) [OF 0(1)] depth_Some [OF wf] by fastforce
  next
    case (Suc n)
    obtain e where e: "map_of ?bs x = Some e" using anc_nodes(2) [OF Suc.prems(1)] by auto
    have b: "branch ?bs l x = (if x = l then [] else branch ?bs l (parent_of e) @ [bm_block e])"
      by (simp add: branch_def ancestry_Some [OF wf e])
    show ?case
    proof (cases "x = l")
      case True
      then show ?thesis using e le b on onchain_entry [OF le] by simp
    next
      case False
      have "\<not> onchain ?bs x"
        using low [OF Suc.prems(2)] chain_inv_onchain [OF C, of x] banc_antisym [OF wf Suc.prems(1)] False by blast
      moreover have p: "banc ?bs l (parent_of e)" using banc_proper [OF e Suc.prems(1)] False by blast
      moreover obtain pe where pe: "map_of ?bs (parent_of e) = Some pe" using anc_nodes(2) [OF p] by auto
      moreover have "banc ?bs (parent_of e) h"
        by (rule banc_trans [OF banc_parent [OF e pe] Suc.prems(2)])
      ultimately show ?thesis
        using Suc.IH [OF p, of "bm_block e # acc"] Suc.prems(3) depth_Some [OF wf e] e b False onchain_entry [OF e]
        by simp
    qed
  qed
  have "depth ?bs h \<le> fuel_of ?bs" using depth_le [of ?bs h] by simp
  from loop [OF l(1) anc_refl [OF h] this, of "[]"]
  have "get_fork_blocks h t = Inr (bm_block le # branch ?bs l h)"
    by (simp add: get_fork_blocks_def)
  with le l on low show ?thesis using chain_inv_onchain [OF C] by blast
qed

text \<open>
  \<open>get_max_chain_validated_head\<close>: the highest block on the ancestry of the heaviest block whose whole
  branch down to the canonical chain is validated. \<open>is_parent_ready\<close> is the test the validation task
  applies to the parent of a block before it reports the block valid.
\<close>

definition is_parent_ready :: "chain_state \<Rightarrow> bool" where
  "is_parent_ready st \<longleftrightarrow> st = Onchain \<or> st = NotOnchain ValidBlock \<or> st = Validated ValidBlock"

lemma valid_markable: "is_parent_ready st \<Longrightarrow> markable st"
  by (auto simp: is_parent_ready_def markable_def)

definition all_valid :: "('b, 'e, 'c, 'm) block_map \<Rightarrow> h256 \<Rightarrow> bool" where
  "all_valid bs h \<longleftrightarrow>
     (\<forall>y e. banc bs y h \<longrightarrow> map_of bs y = Some e \<longrightarrow> is_parent_ready (bm_chain_state e))"

text \<open>
  The invariant of the loop at the block \<open>x\<close>. \<open>cand\<close> is the candidate seen so far, or \<open>x\<close> itself when
  there is none: the blocks strictly between are validated, and no better candidate exists.
\<close>

definition head_inv :: "('b, 'e, 'c, 'm) block_map \<Rightarrow> h256 \<Rightarrow> h256 \<Rightarrow> h256 \<Rightarrow> bool" where
  "head_inv bs m x cand \<longleftrightarrow>
     banc bs x cand \<and> banc bs cand m \<and>
     (\<forall>y e. banc bs x y \<longrightarrow> y \<noteq> x \<longrightarrow> banc bs y cand \<longrightarrow> map_of bs y = Some e \<longrightarrow>
        is_parent_ready (bm_chain_state e)) \<and>
     (\<forall>h. all_valid bs h \<longrightarrow> banc bs h m \<longrightarrow> banc bs h cand)"

lemma head_inv_onchain:
  assumes wf: "bs_wf bs" and C: "chain_inv bs tp" and K: "head_inv bs m x cand" and on: "onchain bs x"
  shows "all_valid bs cand"
  unfolding all_valid_def
proof (intro allI impI)
  fix y e
  assume y: "banc bs y cand" "map_of bs y = Some e"
  show "is_parent_ready (bm_chain_state e)"
  proof (cases "banc bs y x")
    case True
    then have "onchain bs y" using onchain_up [OF C True on] by simp
    then show ?thesis using onchain_entry [OF y(2)] by (simp add: is_parent_ready_def)
  next
    case False
    have xt: "banc bs x cand" using K by (simp add: head_inv_def)
    have "banc bs x y" "y \<noteq> x"
      using banc_linear [OF wf y(1) xt] False banc_refl [OF y(2)] by auto
    then show ?thesis using K y unfolding head_inv_def by blast
  qed
qed

text \<open>A block off the chain has its parent in the tree.\<close>

lemma off_chain_parent:
  assumes C: "chain_inv bs tp" and x: "map_of bs x = Some e" "\<not> onchain bs x"
  shows "\<exists>pe. map_of bs (parent_of e) = Some pe"
proof -
  obtain a where a: "banc bs a x" "banc bs a tp" using chain_inv_common [OF C x(1)] by blast
  then have "a \<noteq> x" using x(2) chain_inv_onchain [OF C] by blast
  then show ?thesis using anc_nodes(2) [OF banc_proper [OF x(1) a(1)]] by auto
qed

lemma head_inv_valid:
  assumes wf: "bs_wf bs" and x: "map_of bs x = Some e" and p: "map_of bs (parent_of e) = Some pe"
    and K: "head_inv bs m x cand" and v: "is_parent_ready (bm_chain_state e)"
  shows "head_inv bs m (parent_of e) cand"
proof -
  have k: "banc bs x cand" "banc bs cand m"
    "\<And>y e. banc bs x y \<Longrightarrow> y \<noteq> x \<Longrightarrow> banc bs y cand \<Longrightarrow> map_of bs y = Some e \<Longrightarrow> is_parent_ready (bm_chain_state e)"
    "\<And>h. all_valid bs h \<Longrightarrow> banc bs h m \<Longrightarrow> banc bs h cand"
    using K unfolding head_inv_def by blast+
  have "is_parent_ready (bm_chain_state ye)"
    if y: "banc bs (parent_of e) y" "y \<noteq> parent_of e" "banc bs y cand" "map_of bs y = Some ye" for y ye
  proof (cases "banc bs x y")
    case True
    then show ?thesis using k(3) [OF True _ y(3,4)] x v y(4) by (cases "y = x") auto
  next
    case False
    then have yx: "banc bs y x" "y \<noteq> x" using banc_linear [OF wf k(1) y(3)] banc_refl [OF x] by auto
    from banc_antisym [OF wf y(1) banc_proper [OF x yx]] y(2) show ?thesis by simp
  qed
  with k banc_trans [OF banc_parent [OF x p] k(1)] show ?thesis unfolding head_inv_def by blast
qed

lemma head_inv_reset:
  assumes wf: "bs_wf bs" and x: "map_of bs x = Some e" and p: "map_of bs (parent_of e) = Some pe"
    and K: "head_inv bs m x cand" and v: "\<not> is_parent_ready (bm_chain_state e)"
  shows "head_inv bs m (parent_of e) (parent_of e)"
proof -
  have k: "banc bs x cand" "banc bs cand m" "\<And>h. all_valid bs h \<Longrightarrow> banc bs h m \<Longrightarrow> banc bs h cand"
    using K unfolding head_inv_def by blast+
  have "banc bs h (parent_of e)" if h: "all_valid bs h" "banc bs h m" for h
  proof -
    have nx: "\<not> banc bs x h" using h(1) x v unfolding all_valid_def by blast
    then have hx: "banc bs h x" using banc_linear [OF wf k(1) k(3) [OF h]] by blast
    moreover have "h \<noteq> x" using nx banc_refl [OF x] by blast
    ultimately show ?thesis using banc_proper [OF x] by blast
  qed
  moreover have "banc bs (parent_of e) m"
    by (rule banc_trans [OF banc_parent [OF x p] banc_trans [OF k(1,2)]])
  ultimately show ?thesis
    unfolding head_inv_def using banc_refl [OF p] banc_antisym [OF wf] by blast
qed

lemma validated_head_loop_ok:
  assumes wf: "bs_wf bs" and C: "chain_inv bs tp"
    and "map_of bs x = Some e" and "depth bs x \<le> n"
    and "head_inv bs m x (case vh of None \<Rightarrow> x | Some h \<Rightarrow> h)"
  shows "\<exists>h. validated_head_loop n bs vh x = Inr (Some h) \<and> banc bs h m \<and> all_valid bs h \<and>
    (\<forall>h'. all_valid bs h' \<longrightarrow> banc bs h' m \<longrightarrow> banc bs h' h)"
  using assms(3-5)
proof (induction n arbitrary: x e vh)
  case 0
  then show ?case using depth_Some [OF wf 0(1)] by simp
next
  case (Suc n)
  let ?cand = "case vh of None \<Rightarrow> x | Some h \<Rightarrow> h"
  note x = Suc.prems(1) and K = Suc.prems(3)
  show ?case
  proof (cases "onchain bs x")
    case True
    have "validated_head_loop (Suc n) bs vh x = Inr (Some ?cand)"
      using True x onchain_entry [OF x] by simp
    moreover have "banc bs ?cand m" "\<And>h. all_valid bs h \<Longrightarrow> banc bs h m \<Longrightarrow> banc bs h ?cand"
      using K unfolding head_inv_def by blast+
    ultimately show ?thesis using head_inv_onchain [OF wf C K True] by blast
  next
    case False
    obtain pe where p: "map_of bs (parent_of e) = Some pe" using off_chain_parent [OF C x False] by blast
    have d: "depth bs (parent_of e) \<le> n" using Suc.prems(2) depth_Some [OF wf x] by simp
    show ?thesis
    proof (cases "is_parent_ready (bm_chain_state e)")
      case True
      have "validated_head_loop (Suc n) bs vh x = validated_head_loop n bs (Some ?cand) (parent_of e)"
        using True False x onchain_entry [OF x] by (auto simp: is_parent_ready_def split: option.splits)
      moreover have "head_inv bs m (parent_of e) (case Some ?cand of None \<Rightarrow> parent_of e | Some h \<Rightarrow> h)"
        using head_inv_valid [OF wf x p K True] by simp
      ultimately show ?thesis using Suc.IH [OF p d] by metis
    next
      case v: False
      have "validated_head_loop (Suc n) bs vh x = validated_head_loop n bs None (parent_of e)"
        using v x by (auto simp: is_parent_ready_def split: chain_state.splits block_state.splits)
      moreover have "head_inv bs m (parent_of e) (case None of None \<Rightarrow> parent_of e | Some h \<Rightarrow> h)"
        using head_inv_reset [OF wf x p K v] by simp
      ultimately show ?thesis using Suc.IH [OF p d] by metis
    qed
  qed
qed

lemma get_max_chain_validated_head_ok:
  assumes inv: "tree_inv t"
  shows "\<exists>h. get_max_chain_validated_head t = Inr (Some h) \<and>
    banc (blocks t) h (snd (max_cumulative_difficulty t)) \<and> all_valid (blocks t) h \<and>
    (\<forall>h'. all_valid (blocks t) h' \<longrightarrow> banc (blocks t) h' (snd (max_cumulative_difficulty t)) \<longrightarrow>
       banc (blocks t) h' h)"
proof -
  let ?bs = "blocks t" and ?m = "snd (max_cumulative_difficulty t)"
  note I = tree_invD [OF inv]
  obtain e where e: "map_of ?bs ?m = Some e" using I(4) unfolding max_inv_def by blast
  have "head_inv ?bs ?m ?m (case None of None \<Rightarrow> ?m | Some h \<Rightarrow> h)"
    unfolding head_inv_def using banc_refl [OF e] banc_antisym [OF I(1)] by auto
  moreover have "depth ?bs ?m \<le> fuel_of ?bs" using depth_le [of ?bs ?m] by simp
  ultimately show ?thesis
    unfolding get_max_chain_validated_head_def using validated_head_loop_ok [OF I(1,2) e] by metis
qed

section \<open>Solution hashes\<close>

lemma solution_loop_result:
  assumes "solution_loop bs excl cd pd best hs = Some hdr"
  shows "best = Some hdr \<or> (\<exists>h \<in> set hs. \<exists>e. h \<noteq> excl \<and> map_of bs h = Some e \<and> hdr = header_of e)"
  using assms
  by (induction bs excl cd pd best hs rule: solution_loop.induct)
    (fastforce split: if_splits option.splits)+

lemma solution_loop_None:
  "solution_loop bs excl cd pd best hs = None \<longleftrightarrow>
     best = None \<and> (\<forall>h \<in> set hs. h = excl \<or> map_of bs h = None)"
  by (induction bs excl cd pd best hs rule: solution_loop.induct) (auto split: option.splits)

text \<open>The search stops at a competing block whenever the index lists one.\<close>

definition competes :: "u256 \<Rightarrow> u256 \<Rightarrow> irys_block_header \<Rightarrow> bool" where
  "competes cdiff prev_cdiff hdr \<longleftrightarrow>
     bh_cumulative_diff hdr = cdiff \<or>
     bh_cumulative_diff hdr > prev_cdiff \<and> cdiff > bh_previous_cumulative_diff hdr"

lemma solution_loop_step:
  assumes "hash \<noteq> excl" and "map_of bs hash = Some e"
  shows "solution_loop bs excl cd pd best (hash # hs) =
    (if competes cd pd (header_of e) then Some (header_of e)
     else solution_loop bs excl cd pd (case best of None \<Rightarrow> Some (header_of e) | Some b \<Rightarrow> Some b) hs)"
  using assms by (auto simp: competes_def)

lemma solution_loop_competes:
  assumes "h \<in> set hs" and h: "h \<noteq> excl" "map_of bs h = Some e" and c: "competes cd pd (header_of e)"
  shows "\<exists>hdr. solution_loop bs excl cd pd best hs = Some hdr \<and> competes cd pd hdr"
  using assms(1)
proof (induction hs arbitrary: best)
  case (Cons a hs)
  show ?case
  proof (cases "a = h")
    case True
    then show ?thesis using solution_loop_step [OF h, of cd pd best hs] c by simp
  next
    case False
    with Cons.prems have rest: "h \<in> set hs" by simp
    show ?thesis
    proof (cases "a = excl \<or> map_of bs a = None")
      case True
      then show ?thesis using Cons.IH [OF rest] by auto
    next
      case False
      then obtain ae where "a \<noteq> excl" "map_of bs a = Some ae" by auto
      from solution_loop_step [OF this, of cd pd best hs] Cons.IH [OF rest] show ?thesis by auto
    qed
  qed
qed simp

lemma get_by_solution_hash_eq:
  assumes inv: "tree_inv t"
  shows "\<exists>hs. set hs = {h. \<exists>e. map_of (blocks t) h = Some e \<and> bh_solution_hash (header_of e) = s} \<and>
    get_by_solution_hash s excl cd pd t = solution_loop (blocks t) excl cd pd None hs"
proof -
  have i: "index_get (solutions t) s = {h. \<exists>e. map_of (blocks t) h = Some e \<and> bh_solution_hash (header_of e) = s}"
    using tree_invD(5) [OF inv] by (simp add: index_inv_def)
  show ?thesis
  proof (cases "map_of (solutions t) s")
    case None
    then show ?thesis using i by (intro exI [of _ "[]"]) (simp add: index_get_def get_by_solution_hash_def)
  next
    case (Some hs)
    then show ?thesis using i by (intro exI [of _ hs]) (simp add: index_get_def get_by_solution_hash_def)
  qed
qed

end
