(* ===== verification/Block_Tree_Correct.thy ===== *)
theory Block_Tree_Correct
  imports Block_Tree_Query "HOL-Library.Multiset"
begin

text \<open>
  What the block tree promises: the properties of its operations under the invariant
  \<open>tree_inv\<close>, each with a concrete tree on which its hypotheses hold.
\<close>

section \<open>A concrete tree\<close>

text \<open>
  A genesis block 1 with two children: block 2, not yet validated, and the heavier block 3, which is
  validated. \<open>ex_tip\<close> is the tree after the tip has moved to block 3.
\<close>

definition ex_block :: "h256 \<Rightarrow> h256 \<Rightarrow> nat \<Rightarrow> u256 \<Rightarrow> unit sealed_block" where
  "ex_block h p n d =
     \<lparr>sb_header = \<lparr>bh_block_hash = h, bh_height = n, bh_diff = 0, bh_cumulative_diff = d, bh_solution_hash = h,
        bh_last_epoch_hash = 0, bh_previous_block_hash = p, bh_previous_cumulative_diff = 0,
        bh_last_diff_timestamp = 0, bh_timestamp = 0, bh_system_ledgers = [], bh_data_ledgers = [],
        bh_vdf_limiter_info = \<lparr>vdf_output = 0, vdf_global_step_number = n, vdf_seed = 0,
          vdf_next_seed = 0, vdf_steps = []\<rparr>,
        bh_oracle_irys_price = 0, bh_ema_irys_price = 0, bh_poa_chunk = None\<rparr>,
      sb_transactions = ()\<rparr>"

type_synonym ex_tree = "(unit, unit, unit, unit) block_tree"

definition ex_new :: ex_tree where
  "ex_new = bt_new 0 2 1 (ex_block 1 0 0 1) () () ()"

definition ex_one :: ex_tree where
  "ex_one = snd (add_block 1 (ex_block 2 1 1 3) () () () ex_new)"

definition ex_two :: ex_tree where
  "ex_two = snd (add_block 2 (ex_block 3 1 1 5) () () () ex_one)"

definition ex_valid :: ex_tree where
  "ex_valid = snd (mark_block_as_valid 3 (mark_block_as_validation_scheduled 3 ex_two))"

definition ex_tip :: ex_tree where
  "ex_tip = snd (mark_tip 3 ex_valid)"

lemma extendsI:
  assumes "map_of bs (bh_block_hash hdr) = None"
    and "list_all (\<lambda>p. parent_of (snd p) \<noteq> bh_block_hash hdr) bs"
    and "map_option (\<lambda>pe. bh_height hdr = Suc (height_of pe) \<and> diff_of pe < bh_cumulative_diff hdr)
           (map_of bs (bh_previous_block_hash hdr)) = Some True"
  shows "extends bs hdr"
proof -
  have "parent_of xe \<noteq> bh_block_hash hdr" if "map_of bs x = Some xe" for x xe
    using assms(2) map_of_SomeD [OF that] by (auto simp: list_all_iff)
  then show ?thesis using assms(1,3) unfolding extends_def by auto
qed

lemma ex_new_inv: "tree_inv ex_new"
  unfolding ex_new_def by (rule tree_inv_new) (simp add: ex_block_def)

lemma ex_one_ext: "extends (blocks ex_new) (sb_header (ex_block 2 1 1 3))"
  by (rule extendsI) code_simp+

lemma ex_two_ext: "extends (blocks ex_one) (sb_header (ex_block 3 1 1 5))"
  by (rule extendsI) code_simp+

lemma ex_one_inv: "tree_inv ex_one"
  using add_block_inv [OF ex_new_inv ex_one_ext, of 1 "()" "()" "()"] by (auto simp: ex_one_def)

lemma ex_two_inv: "tree_inv ex_two"
  using add_block_inv [OF ex_one_inv ex_two_ext, of 2 "()" "()" "()"] by (auto simp: ex_two_def)

lemma ex_valid_inv: "tree_inv ex_valid"
  unfolding ex_valid_def
  by (intro mark_block_as_valid_inv mark_block_as_validation_scheduled_inv ex_two_inv)

lemma banc_iff: "bs_wf bs \<Longrightarrow> banc bs x h \<longleftrightarrow> List.member (map fst (ancestry bs h)) x"
  using ancestry_fst [of bs h] by auto

lemma onchain_iff: "onchain bs h \<longleftrightarrow> map_option bm_chain_state (map_of bs h) = Some Onchain"
  by (auto simp: onchain_def)

lemma all_valid_iff:
  "bs_wf bs \<Longrightarrow> all_valid bs h \<longleftrightarrow> list_all (\<lambda>p. is_parent_ready (bm_chain_state (snd p))) (ancestry bs h)"
  using ancestry_set [of bs _ _ h] unfolding all_valid_def list_all_iff by fastforce

lemma map_of_the: "map_of bs h \<noteq> None \<Longrightarrow> map_of bs h = Some (the (map_of bs h))"
  by simp

lemmas ex_wf = tree_invD(1) [OF ex_new_inv] tree_invD(1) [OF ex_one_inv] tree_invD(1) [OF ex_two_inv]
  tree_invD(1) [OF ex_valid_inv]

lemma ex_valid_3: "map_of (blocks ex_valid) 3 = Some (the (map_of (blocks ex_valid) 3))"
  by (rule map_of_the) code_simp

lemma ex_valid_max: "snd (max_cumulative_difficulty ex_valid) = 3"
  by code_simp

lemma ex_valid_all_valid: "all_valid (blocks ex_valid) 3"
  unfolding all_valid_iff [OF ex_wf(4)] by code_simp

lemma ex_valid_off: "\<not> banc (blocks ex_valid) 3 (tip ex_valid)"
  unfolding banc_iff [OF ex_wf(4)] by code_simp

lemma ex_valid_ready:
  "banc (blocks ex_valid) x 3 \<Longrightarrow> map_of (blocks ex_valid) x = Some xe \<Longrightarrow> is_parent_ready (bm_chain_state xe)"
  using ex_valid_all_valid unfolding all_valid_def by blast

lemma ex_tip_inv: "tree_inv ex_tip"
  using mark_tip_fork [OF ex_valid_inv ex_valid_3 disjI2 [OF ex_valid_max] ex_valid_off]
    tree_inv_remarked [OF ex_valid_inv ex_valid_3] ex_valid_ready valid_markable
  unfolding ex_tip_def by force

lemma rootI:
  assumes wf: "bs_wf bs" and r: "map_option (\<lambda>e. map_of bs (parent_of e) = None) (map_of bs r) = Some True"
    and "list_all (\<lambda>h. List.member (map fst (ancestry bs h)) r) (map fst bs)"
  shows "root bs r"
proof -
  have "banc bs r x" if "x \<in> bdom bs" for x
  proof -
    have "x \<in> set (map fst bs)" using that by (force dest: map_of_SomeD)
    then show ?thesis using assms(3) unfolding banc_iff [OF wf] list_all_iff by blast
  qed
  then show ?thesis using r unfolding root_def by auto
qed

lemma ex_tip_root: "root (blocks ex_tip) 1"
  by (rule rootI [OF tree_invD(1) [OF ex_tip_inv]]) code_simp+

section \<open>Properties\<close>

text \<open>
  \<^bold>\<open>C4.\<close> Moving the tip. Let \<open>h\<close> be a block off the canonical chain that is not outranked by a
  block of the same cumulative difficulty, and let its proper ancestors be validated. Then
  \<open>mark_tip\<close> succeeds, \<open>h\<close> becomes the tip, the \<open>Onchain\<close> blocks are exactly \<open>h\<close> and its ancestors,
  the blocks that left the chain are validated blocks, every other block keeps its state, and the
  whole invariant of the tree holds again.
\<close>

theorem mark_tip_moves_the_chain:
  assumes inv: "tree_inv t" and h: "map_of (blocks t) h = Some e"
    and mx: "diff_of e \<noteq> fst (max_cumulative_difficulty t) \<or> snd (max_cumulative_difficulty t) = h"
    and off: "\<not> banc (blocks t) h (tip t)"
    and ok: "\<And>x xe. banc (blocks t) x h \<Longrightarrow> x \<noteq> h \<Longrightarrow> map_of (blocks t) x = Some xe \<Longrightarrow>
               is_parent_ready (bm_chain_state xe)"
  shows "\<exists>t'. mark_tip h t = (Inr True, t') \<and> tree_inv t' \<and> tip t' = h \<and>
    (\<forall>x. onchain (blocks t') x \<longleftrightarrow> banc (blocks t) x h) \<and>
    (\<forall>x xe. map_of (blocks t) x = Some xe \<longrightarrow>
       map_of (blocks t') x =
         Some (xe\<lparr>bm_chain_state :=
                 (if banc (blocks t) x h then Onchain
                  else if bm_chain_state xe = Onchain then Validated ValidBlock
                  else bm_chain_state xe)\<rparr>))"
proof -
  obtain r where r: "remarked (blocks t) (\<lambda>x. banc (blocks t) x h) r"
    and tip: "mark_tip h t = (Inr True, update_longest_chain_cache (t\<lparr>blocks := r, tip := h\<rparr>))"
    using mark_tip_fork [OF inv h mx off] ok valid_markable by blast
  have "onchain r x \<longleftrightarrow> banc (blocks t) x h" for x
    using remarked_onchain [OF r, of x] anc_nodes(1) [of "bdom (blocks t)" "bpar (blocks t)" x h] by blast
  then show ?thesis
    using tip tree_inv_remarked [OF inv h r] r by (simp add: remarked_def new_state_def)
qed

theorem mark_tip_moves_the_chain_witness:
  "\<exists>t'. mark_tip 3 ex_valid = (Inr True, t') \<and> tree_inv t' \<and> tip t' = 3"
  using mark_tip_moves_the_chain [OF ex_valid_inv ex_valid_3 disjI2 [OF ex_valid_max] ex_valid_off]
    ex_valid_ready by blast

text \<open>
  \<^bold>\<open>C9.\<close> Adding a block. A block that fits the tree is added as an unvalidated leaf under its parent:
  every other entry keeps its block, state and sequence number, ancestry among the old blocks is
  unchanged, the canonical chain does not move, the block gets the next insertion sequence number,
  and the invariant holds again.
\<close>

theorem add_block_extends_the_tree:
  assumes inv: "tree_inv t" and ext: "extends (blocks t) (sb_header block)"
  shows "\<exists>t'. add_block now block cs es ms t = (Inr (), t') \<and> tree_inv t' \<and> tip t' = tip t \<and>
    map_of (blocks t') (bh_block_hash (sb_header block)) =
      Some \<lparr>bm_block = block, bm_chain_state = NotOnchain Unknown, bm_timestamp = now, bm_children = [],
            bm_epoch_snapshot = es, bm_commitment_snapshot = cs, bm_ema_snapshot = ms,
            bm_insertion_sequence = next_insertion_sequence t\<rparr> \<and>
    bdom (blocks t') = insert (bh_block_hash (sb_header block)) (bdom (blocks t)) \<and>
    (\<forall>x xe. map_of (blocks t) x = Some xe \<longrightarrow> (\<exists>cs. map_of (blocks t') x = Some (xe\<lparr>bm_children := cs\<rparr>))) \<and>
    (\<forall>a x. x \<in> bdom (blocks t) \<longrightarrow> banc (blocks t') a x = banc (blocks t) a x) \<and>
    fst (max_cumulative_difficulty t') =
      max (fst (max_cumulative_difficulty t)) (bh_cumulative_diff (sb_header block))"
proof -
  let ?e = "new_entry now block cs es ms (next_insertion_sequence t)"
  obtain t' where t': "add_block now block cs es ms t = (Inr (), t')" "tree_inv t'"
    "map_of (blocks t') (bh_block_hash (sb_header block)) = Some ?e"
    "grown (blocks t) ?e (blocks t')" "tip t' = tip t"
    using add_block_inv [OF inv ext] by blast
  have "fst (max_cumulative_difficulty t') =
      max (fst (max_cumulative_difficulty t)) (bh_cumulative_diff (sb_header block))"
    using add_block_grown [OF tree_invD(1) [OF inv] ext, of now cs es ms] t'(1)
    by (auto simp: max_def)
  moreover have "\<exists>cs. map_of (blocks t') x = Some (xe\<lparr>bm_children := cs\<rparr>)"
    if "map_of (blocks t) x = Some xe" for x xe
    using grown_old [OF t'(4) that] by blast
  ultimately show ?thesis
    using t' grown_dom [OF t'(4)] grown_banc_old [OF t'(4)]
    by (intro exI [of _ t']) (auto simp: new_entry_def)
qed

theorem add_block_extends_the_tree_witness:
  "\<exists>t'. add_block 1 (ex_block 2 1 1 3) () () () ex_new = (Inr (), t') \<and> tree_inv t' \<and> tip t' = 1"
proof -
  have "tip ex_new = 1" by code_simp
  then show ?thesis
    using add_block_extends_the_tree [OF ex_new_inv ex_one_ext, of 1 "()" "()" "()"] by auto
qed

text \<open>
  Adding a block that is not new or does not fit. A block that is on the canonical chain is left
  alone and the call succeeds; a block whose parent is not in the tree is refused. In both cases the
  tree is unchanged.
\<close>

theorem add_block_refusals:
  "(onchain (blocks t) (bh_block_hash (sb_header block)) \<longrightarrow>
      add_block now block cs es ms t = (Inr (), t)) \<and>
   (\<not> onchain (blocks t) (bh_block_hash (sb_header block)) \<longrightarrow>
    map_of (blocks t) (bh_previous_block_hash (sb_header block)) = None \<longrightarrow>
      add_block now block cs es ms t = (Inl PreviousBlockNotFound, t))"
  by (auto simp: add_block_def add_common_def onchain_iff Let_def)

theorem add_block_refusals_witness:
  "add_block 1 (ex_block 1 0 0 1) () () () ex_new = (Inr (), ex_new) \<and>
   add_block 1 (ex_block 9 8 1 3) () () () ex_new = (Inl PreviousBlockNotFound, ex_new)"
proof -
  have "onchain (blocks ex_new) (bh_block_hash (sb_header (ex_block 1 0 0 1)))"
    "\<not> onchain (blocks ex_new) (bh_block_hash (sb_header (ex_block 9 8 1 3)))"
    unfolding onchain_iff by code_simp+
  moreover have "map_of (blocks ex_new) (bh_previous_block_hash (sb_header (ex_block 9 8 1 3))) = None"
    by code_simp
  ultimately show ?thesis
    using add_block_refusals [of ex_new "ex_block 1 0 0 1" 1 "()" "()" "()"]
      add_block_refusals [of ex_new "ex_block 9 8 1 3" 1 "()" "()" "()"] by blast
qed

text \<open>
  \<^bold>\<open>C10.\<close> Removing a block. \<open>remove_block\<close> on a block off the canonical chain always succeeds, takes out
  exactly that block and its descendants, leaves the ancestry of the rest and the tip alone, and
  keeps the invariant; in particular none of the removed blocks was \<open>Onchain\<close>.
\<close>

theorem remove_block_removes_the_subtree:
  assumes inv: "tree_inv t" and h: "map_of (blocks t) h = Some e" "bm_chain_state e \<noteq> Onchain"
  shows "\<exists>t'. remove_block h t = (Inr (), t') \<and> tree_inv t' \<and> tip t' = tip t \<and>
    bdom (blocks t') = {x \<in> bdom (blocks t). \<not> banc (blocks t) h x} \<and>
    (\<forall>a x. banc (blocks t') a x \<longleftrightarrow> banc (blocks t) a x \<and> \<not> banc (blocks t) h x) \<and>
    (\<forall>x. banc (blocks t) h x \<longrightarrow> \<not> onchain (blocks t) x)"
proof -
  note wf = tree_invD(1) [OF inv] and C = tree_invD(2) [OF inv]
  obtain t' where t': "remove_block h t = (Inr (), t')" "tree_inv t'"
    "removed (subtrees (blocks t) {h}) (blocks t) (blocks t')" "same_frame t t'"
    using remove_block_ok [OF inv h] by blast
  have "\<not> onchain (blocks t) x" if "banc (blocks t) h x" for x
    using onchain_up [OF C that] onchain_entry [OF h(1)] h(2) by blast
  moreover have "subtrees (blocks t) {h} = {x. banc (blocks t) h x}"
    by (simp add: subtrees_def)
  ultimately show ?thesis
    using t' removed_dom [OF t'(3)] subtrees_banc [OF wf t'(3)]
    by (intro exI [of _ t']) (auto simp: same_frame_def)
qed

theorem remove_block_removes_the_subtree_witness:
  "\<exists>t'. remove_block 3 ex_valid = (Inr (), t') \<and> tree_inv t'"
proof -
  have "bm_chain_state (the (map_of (blocks ex_valid) 3)) \<noteq> Onchain" by code_simp
  from remove_block_removes_the_subtree [OF ex_valid_inv ex_valid_3 this] show ?thesis by blast
qed

text \<open>
  Removing a block that must stay. For a block on the canonical chain \<open>remove_block\<close> returns an
  error, and for an unknown block it reports that; in both cases nothing in the tree has changed.
\<close>

theorem remove_block_refusals:
  "(onchain (blocks t) h \<longrightarrow> remove_block h t = (Inl (CannotRemoveOnchain h), t)) \<and>
   (map_of (blocks t) h = None \<longrightarrow> remove_block h t = (Inl BlockNotFound, t))"
  by (auto simp: remove_block_def onchain_def)

theorem remove_block_refusals_witness:
  "remove_block 1 ex_valid = (Inl (CannotRemoveOnchain 1), ex_valid) \<and>
   remove_block 7 ex_valid = (Inl BlockNotFound, ex_valid)"
proof -
  have "onchain (blocks ex_valid) 1" unfolding onchain_iff by code_simp
  moreover have "map_of (blocks ex_valid) 7 = None" by code_simp
  ultimately show ?thesis
    using remove_block_refusals [of ex_valid 1] remove_block_refusals [of ex_valid 7] by blast
qed

text \<open>
  \<^bold>\<open>C11.\<close> Pruning. \<open>prune\<close> never fails and keeps the invariant and the tip. What is left is the
  canonical block at the lowest height to keep (the height of the tip less the depth, or the root of
  the tree if that is higher) and all its descendants, whose ancestry among each other is unchanged.
\<close>

theorem prune_keeps_the_window:
  assumes inv: "tree_inv t" and r: "root (blocks t) r"
  shows "\<exists>t' k. prune d t = (Inr (), t') \<and> tree_inv t' \<and> tip t' = tip t \<and>
    banc (blocks t) k (tip t) \<and>
    bht (blocks t) k = max (bht (blocks t) r) (bht (blocks t) (tip t) - d) \<and>
    bdom (blocks t') = {x. banc (blocks t) k x} \<and> root (blocks t') k \<and>
    (\<forall>a x. a \<in> bdom (blocks t') \<longrightarrow> banc (blocks t') a x = banc (blocks t) a x)"
proof -
  note wf = tree_invD(1) [OF inv]
  obtain t' k where t': "prune d t = (Inr (), t')" "tree_inv t'" "same_frame t t'"
    "banc (blocks t) k (tip t)" "bht (blocks t) k = max (bht (blocks t) r) (bht (blocks t) (tip t) - d)"
    "kept k (blocks t) (blocks t')"
    using prune_ok [OF inv r] by blast
  obtain e where e: "map_of (blocks t) k = Some e" using anc_nodes(1) [OF t'(4)] by auto
  have "bdom (blocks t') = {x. banc (blocks t) k x}"
    unfolding removed_dom [OF t'(6)]
    using anc_nodes(2) [of "bdom (blocks t)" "bpar (blocks t)" k] by blast
  then show ?thesis
    using t' kept_root [OF wf t'(6) e] kept_banc [OF wf t'(6)]
    by (intro exI [of _ t'] exI [of _ k]) (auto simp: same_frame_def)
qed

theorem prune_keeps_the_window_witness:
  "\<exists>t' k. prune 0 ex_tip = (Inr (), t') \<and> tree_inv t' \<and> bht (blocks ex_tip) k = 1 \<and>
     bdom (blocks t') = {x. banc (blocks ex_tip) k x}"
proof -
  have "max (bht (blocks ex_tip) 1) (bht (blocks ex_tip) (tip ex_tip) - 0) = 1" by code_simp
  with prune_keeps_the_window [OF ex_tip_inv ex_tip_root, of 0] show ?thesis by auto
qed

text \<open>
  \<^bold>\<open>C12.\<close> The split of two chains. For any two blocks of the tree \<open>find_reorg_split\<close> returns their
  lowest common ancestor and, for each side, exactly the blocks above it up to the tip of that side,
  oldest first, with consecutive heights.
\<close>

theorem find_reorg_split_correct:
  assumes inv: "tree_inv t" and new: "new_tip \<in> bdom (blocks t)" and old: "old_tip \<in> bdom (blocks t)"
  shows "\<exists>s l le. find_reorg_split new_tip old_tip t = Inr s \<and>
    map_of (blocks t) l = Some le \<and> rs_lca s = bm_block le \<and>
    (\<forall>x. banc (blocks t) x l \<longleftrightarrow> banc (blocks t) x new_tip \<and> banc (blocks t) x old_tip) \<and>
    set (rs_new_divergent s) =
      {bm_block e | x e. map_of (blocks t) x = Some e \<and> banc (blocks t) x new_tip \<and> \<not> banc (blocks t) x old_tip} \<and>
    set (rs_old_divergent s) =
      {bm_block e | x e. map_of (blocks t) x = Some e \<and> banc (blocks t) x old_tip \<and> \<not> banc (blocks t) x new_tip} \<and>
    map (\<lambda>b. bh_height (sb_header b)) (rs_new_divergent s) =
      [Suc (bht (blocks t) l) ..< Suc (bht (blocks t) new_tip)] \<and>
    map (\<lambda>b. bh_height (sb_header b)) (rs_old_divergent s) =
      [Suc (bht (blocks t) l) ..< Suc (bht (blocks t) old_tip)]"
proof -
  let ?bs = "blocks t"
  note wf = tree_invD(1) [OF inv]
  obtain l le where le: "map_of ?bs l = Some le" and l: "banc ?bs l new_tip" "banc ?bs l old_tip"
    and low: "\<And>x. banc ?bs x new_tip \<Longrightarrow> banc ?bs x old_tip \<Longrightarrow> banc ?bs x l"
    and split: "find_reorg_split new_tip old_tip t =
      Inr \<lparr>rs_lca = bm_block le, rs_old_divergent = branch ?bs l old_tip, rs_new_divergent = branch ?bs l new_tip\<rparr>"
    using find_reorg_split_ok [OF inv new old] by blast
  have up: "banc ?bs x l \<longleftrightarrow> banc ?bs x new_tip \<and> banc ?bs x old_tip" for x
    using low l banc_trans by blast
  have high: "bht ?bs l < bht ?bs x \<longleftrightarrow> \<not> banc ?bs x l" if "banc ?bs x h" "banc ?bs l h" for x h
    using banc_linear [OF wf that] banc_ht [OF wf, of x l] banc_ht [OF wf, of l x] banc_eq [OF wf, of l x] by fastforce
  have "map_of ?bs x = Some e \<and> banc ?bs x new_tip \<and> bht ?bs l < bht ?bs x \<longleftrightarrow>
      map_of ?bs x = Some e \<and> banc ?bs x new_tip \<and> \<not> banc ?bs x old_tip" for x e
    using high [of x new_tip] l(1) up by blast
  moreover have "map_of ?bs x = Some e \<and> banc ?bs x old_tip \<and> bht ?bs l < bht ?bs x \<longleftrightarrow>
      map_of ?bs x = Some e \<and> banc ?bs x old_tip \<and> \<not> banc ?bs x new_tip" for x e
    using high [of x old_tip] l(2) up by blast
  ultimately show ?thesis
    unfolding split
    using le up branch_set [OF wf l(1)] branch_set [OF wf l(2)] branch_heights [OF wf l(1)] branch_heights [OF wf l(2)]
    by (intro exI [of _ "\<lparr>rs_lca = bm_block le, rs_old_divergent = branch ?bs l old_tip,
          rs_new_divergent = branch ?bs l new_tip\<rparr>"] exI [of _ l] exI [of _ le])
      (simp del: upt_Suc)
qed

theorem find_reorg_split_correct_witness:
  "\<exists>s. find_reorg_split 3 2 ex_valid = Inr s \<and>
     map (\<lambda>b. bh_height (sb_header b)) (rs_new_divergent s) = [1]"
proof -
  have d: "3 \<in> bdom (blocks ex_valid)" "2 \<in> bdom (blocks ex_valid)"
    unfolding domIff by code_simp+
  have "map_option (\<lambda>s. map (\<lambda>b. bh_height (sb_header b)) (rs_new_divergent s))
      (case find_reorg_split 3 2 ex_valid of Inl _ \<Rightarrow> None | Inr s \<Rightarrow> Some s) = Some [1]" by code_simp
  with find_reorg_split_correct [OF ex_valid_inv d] show ?thesis by auto
qed

text \<open>
  \<^bold>\<open>C13.\<close> The canonical chain. \<open>get_canonical_chain\<close> returns the tip and its ancestors within the depth
  of the tree, oldest first and with consecutive heights, ending in the tip; all of them are
  \<open>Onchain\<close>, so the count of blocks that are not is 0.
\<close>

theorem canonical_chain_correct:
  assumes inv: "tree_inv t"
  shows "\<exists>chain. get_canonical_chain t = (chain, 0) \<and>
    set chain = {bm_block e | x e. map_of (blocks t) x = Some e \<and> onchain (blocks t) x \<and>
                   bht (blocks t) (tip t) \<le> height_of e + block_tree_depth t} \<and>
    map (\<lambda>b. bh_height (sb_header b)) chain =
      [Suc (bht (blocks t) (tip t)) - length chain ..< Suc (bht (blocks t) (tip t))] \<and>
    get_latest_canonical_entry t = Inr (bm_block (the (map_of (blocks t) (tip t))))"
proof -
  let ?bs = "blocks t" and ?h = "tip t" and ?n = "Suc (block_tree_depth t)"
  note wf = tree_invD(1) [OF inv] and C = tree_invD(2) [OF inv]
  obtain te where te: "map_of ?bs ?h = Some te" using chain_inv_tip [OF C] by blast
  define anc where "anc = take ?n (ancestry ?bs ?h)"
  define chain where "chain = rev (map (\<lambda>p. bm_block (snd p)) anc)"
  have cache: "longest_chain_cache t = (chain, 0)"
    unfolding chain_def anc_def by (rule longest_chain_cache_eq [OF inv])
  have mem: "set anc = {(x, e). map_of ?bs x = Some e \<and> onchain ?bs x \<and> bht ?bs ?h \<le> height_of e + block_tree_depth t}"
  proof -
    have "tip t \<in> bdom ?bs" using te by auto
    then show ?thesis
      using take_ancestry_set [OF wf, of ?h _ _ ?n] chain_inv_onchain [OF C] by (auto simp: anc_def)
  qed
  have "set chain = {bm_block e | x e. map_of ?bs x = Some e \<and> onchain ?bs x \<and>
      bht ?bs ?h \<le> height_of e + block_tree_depth t}"
    unfolding chain_def set_rev list.set_map mem by (rule image_snd_pairs)
  moreover have "map (\<lambda>b. bh_height (sb_header b)) chain = [Suc (bht ?bs ?h) - length chain ..< Suc (bht ?bs ?h)]"
  proof -
    have "map (\<lambda>b. bh_height (sb_header b)) chain = rev (take ?n (map (\<lambda>p. height_of (snd p)) (ancestry ?bs ?h)))"
      by (simp add: chain_def anc_def rev_map take_map comp_def)
    also have "\<dots> = drop (depth ?bs ?h - ?n) [Suc (bht ?bs ?h) - depth ?bs ?h ..< Suc (bht ?bs ?h)]"
      unfolding ancestry_heights [OF wf te]
      using depth_le_height [OF wf te] by (cases "?n \<le> depth ?bs ?h") (simp_all add: take_rev del: upt_Suc)
    also have "\<dots> = [Suc (bht ?bs ?h) - length chain ..< Suc (bht ?bs ?h)]"
      using depth_le_height [OF wf te] ancestry_length [OF wf, of ?h]
      by (simp add: drop_upt chain_def anc_def min_def del: upt_Suc)
    finally show ?thesis .
  qed
  moreover have "get_latest_canonical_entry t = Inr (bm_block (the (map_of ?bs ?h)))"
    using te by (simp add: get_latest_canonical_entry_def cache chain_def anc_def ancestry_Some [OF wf te])
  ultimately show ?thesis using cache by (auto simp: get_canonical_chain_def)
qed

theorem canonical_chain_correct_witness:
  "\<exists>chain. get_canonical_chain ex_tip = (chain, 0) \<and> chain \<noteq> []"
proof -
  have "fst (get_canonical_chain ex_tip) \<noteq> []" by code_simp
  with canonical_chain_correct [OF ex_tip_inv] show ?thesis by auto
qed



text \<open>
  \<^bold>\<open>C15.\<close> The validated head. \<open>get_max_chain_validated_head\<close> returns, for every tree that keeps the
  invariant, the highest block on the ancestry of the heaviest block that is itself validated
  together with all its ancestors.
\<close>

theorem validated_head_correct:
  assumes inv: "tree_inv t"
  shows "\<exists>h. get_max_chain_validated_head t = Inr (Some h) \<and> all_valid (blocks t) h \<and>
    (\<forall>x. banc (blocks t) x (snd (max_cumulative_difficulty t)) \<and> all_valid (blocks t) x \<longleftrightarrow> banc (blocks t) x h)"
proof -
  let ?bs = "blocks t" and ?m = "snd (max_cumulative_difficulty t)"
  obtain h where h: "get_max_chain_validated_head t = Inr (Some h)" "banc ?bs h ?m" "all_valid ?bs h"
    and top: "\<And>x. all_valid ?bs x \<Longrightarrow> banc ?bs x ?m \<Longrightarrow> banc ?bs x h"
    using get_max_chain_validated_head_ok [OF inv] by blast
  have "all_valid ?bs x" if "banc ?bs x h" for x
    using h(3) banc_trans [OF _ that] unfolding all_valid_def by blast
  then show ?thesis using h top banc_trans by blast
qed

theorem validated_head_correct_witness:
  "\<exists>h. get_max_chain_validated_head ex_valid = Inr (Some h) \<and> all_valid (blocks ex_valid) h"
  using validated_head_correct [OF ex_valid_inv] by blast

text \<open>The blocks that carry a solution hash, apart from an excluded one.\<close>

definition with_solution ::
  "('b, 'e, 'c, 'm) block_map \<Rightarrow> h256 \<Rightarrow> h256 \<Rightarrow> ('b, 'e, 'c, 'm) block_metadata set"
where
  "with_solution bs s excl =
     {e. \<exists>h. map_of bs h = Some e \<and> h \<noteq> excl \<and> bh_solution_hash (header_of e) = s}"

text \<open>
  \<^bold>\<open>C16.\<close> Double use of a solution. \<open>get_by_solution_hash\<close> finds a block whenever another block of the
  tree carries the solution hash, never the excluded one, and a competing block (one of the same
  cumulative difficulty, or one whose difficulty interval overlaps) whenever there is one.
\<close>

theorem get_by_solution_hash_correct:
  assumes inv: "tree_inv t"
  shows "case get_by_solution_hash s excl cd pd t of
      None \<Rightarrow> with_solution (blocks t) s excl = {}
    | Some hdr \<Rightarrow> (\<exists>e \<in> with_solution (blocks t) s excl. hdr = header_of e) \<and>
        ((\<exists>e \<in> with_solution (blocks t) s excl. competes cd pd (header_of e)) \<longrightarrow> competes cd pd hdr)"
proof -
  obtain hs where hs: "set hs = {h. \<exists>e. map_of (blocks t) h = Some e \<and> bh_solution_hash (header_of e) = s}"
    and eq: "get_by_solution_hash s excl cd pd t = solution_loop (blocks t) excl cd pd None hs"
    using get_by_solution_hash_eq [OF inv] by blast
  have mem: "e \<in> with_solution (blocks t) s excl \<longleftrightarrow> (\<exists>h \<in> set hs. h \<noteq> excl \<and> map_of (blocks t) h = Some e)" for e
    unfolding with_solution_def hs by fastforce
  show ?thesis
  proof (cases "get_by_solution_hash s excl cd pd t")
    case None
    then have "h = excl \<or> map_of (blocks t) h = None" if "h \<in> set hs" for h
      using that unfolding eq solution_loop_None by simp
    then show ?thesis using None mem by fastforce
  next
    case (Some hdr)
    then have "\<exists>e \<in> with_solution (blocks t) s excl. hdr = header_of e"
      using solution_loop_result [of "blocks t" excl cd pd None hs hdr] mem unfolding eq by auto
    moreover have "competes cd pd hdr"
      if e: "e \<in> with_solution (blocks t) s excl" "competes cd pd (header_of e)" for e
      using e(1) solution_loop_competes [of _ hs excl "blocks t" e cd pd None] e(2) Some mem unfolding eq by fastforce
    ultimately show ?thesis using Some by auto
  qed
qed

theorem get_by_solution_hash_correct_witness:
  "\<exists>e. e \<in> with_solution (blocks ex_valid) 3 1 \<and> get_by_solution_hash 3 1 5 1 ex_valid = Some (header_of e)"
proof -
  have "get_by_solution_hash 3 1 5 1 ex_valid \<noteq> None" by code_simp
  with get_by_solution_hash_correct [OF ex_valid_inv, of 3 1 5 1] show ?thesis by auto
qed

end
