(* ===== verification/Block_Index.thy ===== *)
theory Block_Index
  imports Block_Types
begin

text \<open>
  The index of migrated blocks: \<open>crates/domain/src/models/block_index.rs\<close>, the table accessors it
  calls (\<open>crates/database/src/database.rs\<close>) and the byte format of the legacy index file
  (\<open>crates/types/src/block.rs\<close>).

  The state is the two database tables. \<open>MigratedBlockHashes\<close> is a map from heights to hashes kept in
  key order. \<open>IrysBlockIndexItems\<close> has several values per height; the order the database keeps among
  the values of one height is its own, so the insertion into such a group is the argument \<open>dup_ins\<close>
  of the operations that write, and the theorems assume of it only the contract \<open>set_insert\<close>. A
  write transaction that ends in an error is rolled back, so a fallible write returns the new state
  or the error.
\<close>

section \<open>State\<close>

record ledger_index_item =
  lii_total_chunks :: nat
  lii_tx_root :: h256
  lii_ledger :: data_ledger

record block_index_item =
  bii_block_hash :: h256
  bii_num_ledgers :: nat
  bii_ledgers :: "ledger_index_item list"

record block_index =
  bi_hashes :: "(nat \<times> h256) list"
  bi_items :: "(nat \<times> ledger_index_item list) list"

datatype index_error =
    NoBlockHash nat
  | TooManyLedgers nat
  | PrevHashMismatch nat h256 h256
  | UnknownLedger nat
  | TotalChunksOverflow data_ledger nat
  | CorruptedIndex nat
  | LedgerNotFound data_ledger nat
  | EmptyIndex
  | OffsetBeyondLastBlock nat nat
  | ArithmeticPanic

datatype block_bounds_error =
    IndexEmpty
  | LedgerInactive data_ledger nat
  | OffsetBeyondFrontier data_ledger nat nat nat
  | Internal index_error

record block_bounds =
  bb_height :: nat
  bb_block_hash :: h256
  bb_ledger :: data_ledger
  bb_start_chunk_offset :: nat
  bb_end_chunk_offset :: nat
  bb_tx_root :: h256

section \<open>Tables\<close>

definition dups :: "('k \<times> 'v list) list \<Rightarrow> 'k \<Rightarrow> 'v list" where
  "dups m k = (case map_of m k of None \<Rightarrow> [] | Some vs \<Rightarrow> vs)"

definition dup_put ::
  "('v \<Rightarrow> 'v list \<Rightarrow> 'v list) \<Rightarrow> 'k::linorder \<Rightarrow> 'v \<Rightarrow> ('k \<times> 'v list) list \<Rightarrow> ('k \<times> 'v list) list"
where
  "dup_put dup_ins k v m = bt_insert k (dup_ins v (dups m k)) m"

definition find_ledger :: "data_ledger \<Rightarrow> ledger_index_item list \<Rightarrow> ledger_index_item option" where
  "find_ledger l ls = find (\<lambda>x. lii_ledger x = l) ls"

definition block_index_item_by_height :: "block_index \<Rightarrow> nat \<Rightarrow> index_error + block_index_item" where
  "block_index_item_by_height bi h =
     (let items = dups (bi_items bi) h in
      rbind (ok_or (map_of (bi_hashes bi) h) (NoBlockHash h)) (\<lambda>block_hash.
      rbind (ensure (length items < 2 ^ 8) (TooManyLedgers (length items))) (\<lambda>_.
      Inr \<lparr>bii_block_hash = block_hash, bii_num_ledgers = length items, bii_ledgers = items\<rparr>)))"

definition insert_block_index_item ::
  "(ledger_index_item \<Rightarrow> ledger_index_item list \<Rightarrow> ledger_index_item list) \<Rightarrow>
   nat \<Rightarrow> block_index_item \<Rightarrow> block_index \<Rightarrow> block_index"
where
  "insert_block_index_item dup_ins h item bi =
     (let items = bt_remove h (bi_items bi);
          hashes = bt_insert h (bii_block_hash item) (bi_hashes bi) in
      bi\<lparr>bi_hashes := hashes, bi_items := fold (dup_put dup_ins h) (bii_ledgers item) items\<rparr>)"

definition insert_block_index_items_for_block ::
  "(ledger_index_item \<Rightarrow> ledger_index_item list \<Rightarrow> ledger_index_item list) \<Rightarrow>
   irys_block_header \<Rightarrow> block_index \<Rightarrow> index_error + block_index"
where
  "insert_block_index_items_for_block dup_ins b bi =
     rbind (try_fold (\<lambda>dl items.
              rbind (ok_or (ledger_from_u32 (dtl_ledger_id dl)) (UnknownLedger (dtl_ledger_id dl))) (\<lambda>l.
              Inr (dup_put dup_ins (bh_height b)
                     \<lparr>lii_total_chunks = dtl_total_chunks dl, lii_tx_root = dtl_tx_root dl,
                      lii_ledger = l\<rparr> items)))
              (bh_data_ledgers b) (bt_remove (bh_height b) (bi_items bi))) (\<lambda>items.
     Inr (bi\<lparr>bi_hashes := bt_insert (bh_height b) (bh_block_hash b) (bi_hashes bi),
             bi_items := items\<rparr>))"

definition block_index_latest_height :: "block_index \<Rightarrow> nat option" where
  "block_index_latest_height bi =
     (if bi_hashes bi = [] then None else Some (fst (last (bi_hashes bi))))"

definition block_index_hash_by_height :: "block_index \<Rightarrow> nat \<Rightarrow> h256 option" where
  "block_index_hash_by_height bi h = map_of (bi_hashes bi) h"

definition block_index_num_blocks :: "block_index \<Rightarrow> nat" where
  "block_index_num_blocks bi = length (bi_hashes bi)"

text \<open>A range of heights is the predicate of its members.\<close>

definition delete_block_index_range :: "(nat \<Rightarrow> bool) \<Rightarrow> block_index \<Rightarrow> block_index" where
  "delete_block_index_range rng bi =
     bi\<lparr>bi_items := filter (\<lambda>(h, _). \<not> rng h) (bi_items bi),
        bi_hashes := filter (\<lambda>(h, _). \<not> rng h) (bi_hashes bi)\<rparr>"

definition prune_ledger_range :: "data_ledger \<Rightarrow> (nat \<Rightarrow> bool) \<Rightarrow> block_index \<Rightarrow> block_index" where
  "prune_ledger_range l rng bi =
     bi\<lparr>bi_items :=
          filter (\<lambda>(_, items). items \<noteq> [])
            (map (\<lambda>(h, items). (h, if rng h then filter (\<lambda>x. lii_ledger x \<noteq> l) items else items))
              (bi_items bi))\<rparr>"

section \<open>Bytes of an index item\<close>

text \<open>Slicing past the end of the input panics, which is \<open>None\<close>.\<close>

definition ledger_item_to_bytes :: "ledger_index_item \<Rightarrow> byte list" where
  "ledger_item_to_bytes item = le_bytes 8 (lii_total_chunks item) @ h256_bytes (lii_tx_root item)"

definition ledger_item_from_bytes :: "byte list \<Rightarrow> ledger_index_item option" where
  "ledger_item_from_bytes bs =
     (if length bs < 40 then None
      else Some \<lparr>lii_total_chunks = le_value (take 8 bs),
                 lii_tx_root = h256_of_bytes (take 32 (drop 8 bs)),
                 lii_ledger = Publish\<rparr>)"

definition block_item_to_bytes :: "block_index_item \<Rightarrow> byte list" where
  "block_item_to_bytes item =
     h256_bytes (bii_block_hash item) @ [of_nat (bii_num_ledgers item)] @
     concat (map ledger_item_to_bytes (bii_ledgers item))"

fun ledger_items_from_bytes :: "nat \<Rightarrow> byte list \<Rightarrow> ledger_index_item list option" where
  "ledger_items_from_bytes 0 bs = Some []"
| "ledger_items_from_bytes (Suc n) bs =
     (case ledger_item_from_bytes (take 40 bs) of
        None \<Rightarrow> None
      | Some item \<Rightarrow> map_option ((#) item) (ledger_items_from_bytes n (drop 40 bs)))"

definition block_item_from_bytes :: "byte list \<Rightarrow> block_index_item option" where
  "block_item_from_bytes bs =
     (if length bs < 33 then None
      else let n = unat (bs ! 32) in
        map_option (\<lambda>items. \<lparr>bii_block_hash = h256_of_bytes (take 32 bs), bii_num_ledgers = n,
                             bii_ledgers = items\<rparr>)
          (ledger_items_from_bytes n (drop 33 bs)))"

section \<open>The legacy file\<close>

text \<open>
  The reader is the list of bytes not yet read. A short read ends the outer loop and drops the
  partial block; every complete block must have exactly two ledgers.
\<close>

definition HEADER_SIZE :: nat where "HEADER_SIZE = 33"
definition LEDGER_ITEM_SIZE :: nat where "LEDGER_ITEM_SIZE = 40"
definition EXPECTED_NUM_LEDGERS :: nat where "EXPECTED_NUM_LEDGERS = 2"

fun load_ledgers ::
  "nat list \<Rightarrow> byte list \<Rightarrow> index_error + (ledger_index_item list \<times> byte list) option"
where
  "load_ledgers [] bs = Inr (Some ([], bs))"
| "load_ledgers (i # is) bs =
     (if length bs < LEDGER_ITEM_SIZE then Inr None
      else rbind (ok_or (ledger_from_u32 i) (UnknownLedger i)) (\<lambda>l.
           let item = \<lparr>lii_total_chunks = le_value (take 8 bs),
                       lii_tx_root = h256_of_bytes (take 32 (drop 8 bs)), lii_ledger = l\<rparr> in
           rbind (load_ledgers is (drop LEDGER_ITEM_SIZE bs)) (\<lambda>r.
           Inr (map_option (\<lambda>(items, rest). (item # items, rest)) r))))"

lemma load_ledgers_shorter:
  "load_ledgers is bs = Inr (Some (items, rest)) \<Longrightarrow> length rest \<le> length bs"
proof (induction "is" bs arbitrary: items rule: load_ledgers.induct)
  case (2 i "is" bs)
  then show ?case by (fastforce simp: rbind_Inr_iff Let_def split: if_splits)
qed simp

function load_index_from_file :: "byte list \<Rightarrow> index_error + block_index_item list" where
  "load_index_from_file bs =
     (if length bs < HEADER_SIZE then Inr []
      else let n = unat (bs ! 32) in
        if n \<noteq> EXPECTED_NUM_LEDGERS then Inl (CorruptedIndex n)
        else rbind (load_ledgers [0..<n] (drop HEADER_SIZE bs)) (\<lambda>r. case r of
          None \<Rightarrow> Inr []
        | Some (ledgers, rest) \<Rightarrow>
            rbind (load_index_from_file rest) (\<lambda>items.
            Inr (\<lparr>bii_block_hash = h256_of_bytes (take 32 bs), bii_num_ledgers = n,
                  bii_ledgers = ledgers\<rparr> # items))))"
  by auto
termination
proof (relation "measure length")
  fix bs :: "byte list" and n x y ledgers rest
  assume "\<not> length bs < HEADER_SIZE" and "load_ledgers [0..<n] (drop HEADER_SIZE bs) = Inr x"
    and "x = Some y" and "(ledgers, rest) = y"
  then show "(rest, bs) \<in> measure length"
    using load_ledgers_shorter [of "[0..<n]" "drop HEADER_SIZE bs" ledgers rest]
    by (auto simp: HEADER_SIZE_def)
qed simp

declare load_index_from_file.simps [simp del]

section \<open>Reading and writing the index\<close>

text \<open>
  \<open>BlockIndex::new\<close>: an empty index is filled from the legacy file, when there is one.
\<close>

definition new_block_index ::
  "(ledger_index_item \<Rightarrow> ledger_index_item list \<Rightarrow> ledger_index_item list) \<Rightarrow>
   byte list option \<Rightarrow> block_index \<Rightarrow> index_error + block_index"
where
  "new_block_index dup_ins file bi =
     (if block_index_num_blocks bi = 0 then
        case file of
          None \<Rightarrow> Inr bi
        | Some bytes \<Rightarrow>
            rbind (load_index_from_file bytes) (\<lambda>items.
            Inr (fold (\<lambda>(h, item). insert_block_index_item dup_ins h item)
                   (enumerate 0 items) bi))
      else Inr bi)"

definition latest_height :: "block_index \<Rightarrow> nat" where
  "latest_height bi = (case block_index_latest_height bi of None \<Rightarrow> 0 | Some h \<Rightarrow> h)"

definition get_item :: "block_index \<Rightarrow> nat \<Rightarrow> block_index_item option" where
  "get_item bi h = (case block_index_item_by_height bi h of Inl _ \<Rightarrow> None | Inr item \<Rightarrow> Some item)"

definition get_latest_item :: "block_index \<Rightarrow> block_index_item option" where
  "get_latest_item bi = Option.bind (block_index_latest_height bi) (get_item bi)"

definition get_range :: "block_index \<Rightarrow> nat \<Rightarrow> nat \<Rightarrow> block_index_item list" where
  "get_range bi start_height limit =
     (let total = block_index_num_blocks bi;
          start = min start_height total;
          end' = min (min (start + limit) (2 ^ 64 - 1)) total in
      unwrap_or (rmap (block_index_item_by_height bi) [start..<end']) [])"

definition truncate_to_height :: "nat \<Rightarrow> block_index \<Rightarrow> index_error + block_index" where
  "truncate_to_height target_height bi =
     (if target_height + 1 < 2 ^ 64
      then Inr (delete_block_index_range (\<lambda>h. target_height + 1 \<le> h) bi)
      else Inl ArithmeticPanic)"

text \<open>
  \<open>calculate_chunks_added\<close>: sizes are rounded up to whole chunks. The sum is over \<open>u64\<close> with
  overflow checks, and a chunk size of zero panics in the division.
\<close>

definition div_ceil :: "nat \<Rightarrow> nat \<Rightarrow> nat" where
  "div_ceil a b = a div b + (if a mod b > 0 then 1 else 0)"

definition calculate_chunks_added ::
  "data_transaction_header list \<Rightarrow> nat \<Rightarrow> index_error + nat"
where
  "calculate_chunks_added txs chunk_size =
     (if chunk_size = 0 then Inl ArithmeticPanic
      else rbind (try_fold (\<lambda>tx acc.
                    let bytes = div_ceil (dth_data_size tx) chunk_size * chunk_size in
                    if bytes < 2 ^ 64 \<and> acc + bytes < 2 ^ 64 then Inr (acc + bytes)
                    else Inl ArithmeticPanic) txs 0) (\<lambda>bytes_added.
           Inr (bytes_added div chunk_size)))"

definition push_ledger ::
  "block_transactions sealed_block \<Rightarrow> nat \<Rightarrow> bool \<Rightarrow> block_index_item option \<Rightarrow> data_transaction_ledger \<Rightarrow>
   index_error + ledger_index_item"
where
  "push_ledger sb chunk_size genesis prev_block dl =
     rbind (ok_or (ledger_from_u32 (dtl_ledger_id dl)) (UnknownLedger (dtl_ledger_id dl))) (\<lambda>l.
     rbind (calculate_chunks_added (get_ledger_txs (sb_transactions sb) l) chunk_size) (\<lambda>chunks_added.
     rbind (if genesis \<and> l = Publish then Inr 0
            else case prev_block of
              Some prev \<Rightarrow>
                (let prev_total = (case find_ledger l (bii_ledgers prev) of
                                     None \<Rightarrow> 0 | Some x \<Rightarrow> lii_total_chunks x) in
                 if prev_total + chunks_added < 2 ^ 64 then Inr (prev_total + chunks_added)
                 else Inl (TotalChunksOverflow l (bh_height (sb_header sb))))
            | None \<Rightarrow> Inr chunks_added) (\<lambda>total_chunks.
     Inr \<lparr>lii_total_chunks = total_chunks, lii_tx_root = dtl_tx_root dl, lii_ledger = l\<rparr>)))"

definition push_block ::
  "(ledger_index_item \<Rightarrow> ledger_index_item list \<Rightarrow> ledger_index_item list) \<Rightarrow>
   block_transactions sealed_block \<Rightarrow> nat \<Rightarrow> block_index \<Rightarrow> index_error + block_index"
where
  "push_block dup_ins sb chunk_size bi =
     (let b = sb_header sb;
          genesis = (block_index_num_blocks bi = 0 \<and> bh_height b = 0);
          prev_height = bh_height b - 1 in
      rbind (if genesis then Inr None
             else rbind (block_index_item_by_height bi prev_height) (\<lambda>prev.
                  if bii_block_hash prev \<noteq> bh_previous_block_hash b
                  then Inl (PrevHashMismatch prev_height (bh_previous_block_hash b) (bii_block_hash prev))
                  else Inr (Some prev))) (\<lambda>prev_block.
      rbind (rmap (push_ledger sb chunk_size genesis prev_block) (bh_data_ledgers b)) (\<lambda>ledgers.
      Inr (insert_block_index_item dup_ins (bh_height b)
             \<lparr>bii_block_hash = bh_block_hash b, bii_num_ledgers = length ledgers mod 2 ^ 8,
              bii_ledgers = ledgers\<rparr> bi))))"

section \<open>Searching\<close>

text \<open>
  The binary search of \<open>block_bounds_at_height_in_tx\<close> and of \<open>get_block_index_item\<close>. The two differ
  in what they take as the total of a block that has no entry for the ledger, which is the argument
  \<open>total_at\<close>.
\<close>

function search_loop :: "(nat \<Rightarrow> index_error + nat) \<Rightarrow> nat \<Rightarrow> nat \<Rightarrow> nat \<Rightarrow> index_error + nat" where
  "search_loop total_at off lo hi =
     (if lo < hi then
        let mid = lo + (hi - lo) div 2 in
        rbind (total_at mid) (\<lambda>total.
          if off < total then search_loop total_at off lo mid
          else search_loop total_at off (mid + 1) hi)
      else Inr lo)"
  by auto
termination
  by (relation "measure (\<lambda>(_, _, lo, hi). hi - lo)") auto

declare search_loop.simps [simp del]

definition total_or_zero :: "block_index \<Rightarrow> data_ledger \<Rightarrow> nat \<Rightarrow> index_error + nat" where
  "total_or_zero bi l h =
     rbind (block_index_item_by_height bi h) (\<lambda>item.
     Inr (case find_ledger l (bii_ledgers item) of None \<Rightarrow> 0 | Some x \<Rightarrow> lii_total_chunks x))"

definition total_or_error :: "block_index \<Rightarrow> data_ledger \<Rightarrow> nat \<Rightarrow> index_error + nat" where
  "total_or_error bi l h =
     rbind (block_index_item_by_height bi h) (\<lambda>item.
     ok_or (map_option lii_total_chunks (find_ledger l (bii_ledgers item))) (LedgerNotFound l h))"

definition internal :: "index_error + 'a \<Rightarrow> block_bounds_error + 'a" where
  "internal r = (case r of Inl e \<Rightarrow> Inl (Internal e) | Inr x \<Rightarrow> Inr x)"

definition block_bounds_at_height_in_tx ::
  "block_index \<Rightarrow> data_ledger \<Rightarrow> nat \<Rightarrow> nat \<Rightarrow> block_bounds_error + block_bounds"
where
  "block_bounds_at_height_in_tx bi l off anchor_height =
     rbind (internal (block_index_item_by_height bi anchor_height)) (\<lambda>anchor_item.
     rbind (ok_or (map_option lii_total_chunks (find_ledger l (bii_ledgers anchor_item)))
              (LedgerInactive l anchor_height)) (\<lambda>anchor_max.
     rbind (ensure (off < anchor_max) (OffsetBeyondFrontier l off anchor_max anchor_height)) (\<lambda>_.
     rbind (internal (search_loop (total_or_zero bi l) off 0 anchor_height)) (\<lambda>block_height.
     rbind (internal (block_index_item_by_height bi block_height)) (\<lambda>found_item.
     rbind (if block_height = 0 then Inr 0
            else internal (total_or_zero bi l (block_height - 1))) (\<lambda>prev_total.
     rbind (ok_or (find_ledger l (bii_ledgers found_item))
              (Internal (LedgerNotFound l block_height))) (\<lambda>found_ledger.
     Inr \<lparr>bb_height = block_height, bb_block_hash = bii_block_hash found_item, bb_ledger = l,
          bb_start_chunk_offset = prev_total,
          bb_end_chunk_offset = lii_total_chunks found_ledger,
          bb_tx_root = lii_tx_root found_ledger\<rparr>)))))))"

definition block_bounds_in_tx ::
  "block_index \<Rightarrow> data_ledger \<Rightarrow> nat \<Rightarrow> block_bounds_error + block_bounds"
where
  "block_bounds_in_tx bi l off =
     rbind (ok_or (block_index_latest_height bi) IndexEmpty) (\<lambda>anchor_height.
     block_bounds_at_height_in_tx bi l off anchor_height)"

definition get_block_index_item ::
  "block_index \<Rightarrow> data_ledger \<Rightarrow> nat \<Rightarrow> index_error + (nat \<times> block_index_item)"
where
  "get_block_index_item bi l off =
     rbind (ok_or (block_index_latest_height bi) EmptyIndex) (\<lambda>latest_height.
     rbind (total_or_error bi l latest_height) (\<lambda>last_max.
     rbind (ensure (off < last_max) (OffsetBeyondLastBlock off last_max)) (\<lambda>_.
     rbind (search_loop (total_or_error bi l) off 0 latest_height) (\<lambda>height.
     rbind (block_index_item_by_height bi height) (\<lambda>item.
     Inr (height, item))))))"

end
