(* ===== verification/Block_Index_Correct.thy ===== *)
theory Block_Index_Correct
  imports Block_Index
begin

text \<open>
  Correctness of the block index. \<open>index_wf bi n\<close> says that the index holds exactly the blocks of
  heights \<open>0\<close> to \<open>n - 1\<close>, that no ledger occurs twice at one height, and that a ledger, once
  introduced, stays and never shrinks. Pushing the next block and truncating keep it; under it both
  binary searches find the one block that contains an offset. The legacy file is read back as
  written, up to a torn tail.
\<close>

section \<open>Tables\<close>

lemma dups_dup_put:
  "dups (dup_put dup_ins k v m) k' = (if k' = k then dup_ins v (dups m k) else dups m k')"
  by (simp add: dups_def dup_put_def)

lemma dups_bt_remove: "dups (bt_remove k m) k' = (if k' = k then [] else dups m k')"
  by (simp add: dups_def)

context set_insert
begin

lemma dups_fold_put_other:
  "k' \<noteq> k \<Longrightarrow> dups (fold (dup_put add k) vs m) k' = dups m k'"
  by (induction vs arbitrary: m) (simp_all add: dups_dup_put)

lemma set_dups_fold_put:
  "set (dups (fold (dup_put add k) vs m) k) = set vs \<union> set (dups m k)"
  by (induction vs arbitrary: m) (auto simp: dups_dup_put set_add)

lemma distinct_dups_fold_put:
  "distinct (dups m k) \<Longrightarrow> distinct (dups (fold (dup_put add k) vs m) k)"
  by (induction vs arbitrary: m) (simp_all add: dups_dup_put distinct_add)

end

lemma find_ledger_iff:
  assumes "distinct (map lii_ledger ls)"
  shows "find_ledger l ls = Some x \<longleftrightarrow> x \<in> set ls \<and> lii_ledger x = l"
  using assms by (induction ls) (auto simp: find_ledger_def)

lemma find_ledger_None: "find_ledger l ls = None \<longleftrightarrow> l \<notin> lii_ledger ` set ls"
  by (auto simp: find_ledger_def find_None_iff)

lemma find_ledger_Some_set: "find_ledger l ls = Some x \<Longrightarrow> x \<in> set ls \<and> lii_ledger x = l"
  by (auto simp: find_ledger_def find_Some_iff)

lemma find_ledger_cong:
  assumes "set ls = set ls'" and "distinct (map lii_ledger ls)" and "distinct (map lii_ledger ls')"
  shows "find_ledger l ls = find_ledger l ls'"
proof (cases "find_ledger l ls'")
  case None
  then have "find_ledger l ls = None" by (simp add: find_ledger_None assms(1))
  then show ?thesis using None by simp
next
  case (Some x)
  then have "find_ledger l ls = Some x"
    using find_ledger_iff [OF assms(2)] find_ledger_iff [OF assms(3)] assms(1) by simp
  then show ?thesis using Some by simp
qed

lemma distinct_ledgers_length:
  fixes ls :: "ledger_index_item list"
  assumes "distinct (map lii_ledger ls)"
  shows "length ls \<le> 4"
proof -
  have "set (map lii_ledger ls) \<subseteq> {Publish, Submit, OneYear, ThirtyDay}"
    using data_ledger.exhaust by blast
  then have "card (set (map lii_ledger ls)) \<le> card {Publish, Submit, OneYear, ThirtyDay}"
    by (rule card_mono [rotated]) simp
  then show ?thesis
    using distinct_card [OF assms] by simp
qed

section \<open>Well-formed indices\<close>

definition ledgers_at :: "block_index \<Rightarrow> nat \<Rightarrow> ledger_index_item list" where
  "ledgers_at bi h = dups (bi_items bi) h"

definition total_at :: "block_index \<Rightarrow> data_ledger \<Rightarrow> nat \<Rightarrow> nat option" where
  "total_at bi l h = map_option lii_total_chunks (find_ledger l (ledgers_at bi h))"

definition grows :: "block_index \<Rightarrow> nat \<Rightarrow> bool" where
  "grows bi h \<longleftrightarrow>
     (\<forall>x \<in> set (ledgers_at bi h).
        case total_at bi (lii_ledger x) (Suc h) of None \<Rightarrow> False | Some t \<Rightarrow> lii_total_chunks x \<le> t)"

definition index_wf :: "block_index \<Rightarrow> nat \<Rightarrow> bool" where
  "index_wf bi n \<longleftrightarrow>
     map fst (bi_hashes bi) = [0..<n] \<and>
     (\<forall>h < n. distinct (map lii_ledger (ledgers_at bi h))) \<and>
     (\<forall>h < n - 1. grows bi h)"

lemma index_wf_lists:
  "index_wf bi n \<longleftrightarrow>
     map fst (bi_hashes bi) = [0..<n] \<and>
     list_all (\<lambda>h. distinct (map lii_ledger (ledgers_at bi h))) [0..<n] \<and> list_all (grows bi) [0..<n - 1]"
  by (auto simp: index_wf_def list_all_iff)

definition the_total :: "block_index \<Rightarrow> data_ledger \<Rightarrow> nat \<Rightarrow> nat" where
  "the_total bi l h = (case total_at bi l h of None \<Rightarrow> 0 | Some t \<Rightarrow> t)"

text \<open>The total of a ledger before the block of a height.\<close>

definition total_before :: "block_index \<Rightarrow> data_ledger \<Rightarrow> nat \<Rightarrow> nat" where
  "total_before bi l h = (if h = 0 then 0 else the_total bi l (h - 1))"

lemma index_wf_hash:
  assumes "index_wf bi n"
  shows "h < n \<longleftrightarrow> (\<exists>x. map_of (bi_hashes bi) h = Some x)"
proof -
  have "set (map fst (bi_hashes bi)) = {0..<n}"
    using assms by (simp add: index_wf_def)
  then have "dom (map_of (bi_hashes bi)) = {0..<n}"
    by (simp add: dom_map_of_conv_image_fst)
  then show ?thesis by (auto simp: dom_def)
qed

lemma index_wf_item:
  assumes "index_wf bi n" and "h < n"
  shows "\<exists>x. map_of (bi_hashes bi) h = Some x \<and>
    block_index_item_by_height bi h =
      Inr \<lparr>bii_block_hash = x, bii_num_ledgers = length (ledgers_at bi h),
           bii_ledgers = ledgers_at bi h\<rparr>"
proof -
  from assms have "distinct (map lii_ledger (ledgers_at bi h))"
    by (simp add: index_wf_def)
  then have "length (ledgers_at bi h) \<le> 4" by (rule distinct_ledgers_length)
  moreover from assms obtain x where "map_of (bi_hashes bi) h = Some x"
    using index_wf_hash by blast
  ultimately show ?thesis
    by (simp add: block_index_item_by_height_def Let_def ledgers_at_def ok_or_def ensure_def)
qed

lemma index_wf_no_item:
  assumes "index_wf bi n" and "\<not> h < n"
  shows "block_index_item_by_height bi h = Inl (NoBlockHash h)"
proof -
  have "map_of (bi_hashes bi) h = None"
    using index_wf_hash [OF assms(1), of h] assms(2) by (cases "map_of (bi_hashes bi) h") auto
  then show ?thesis
    by (simp add: block_index_item_by_height_def ok_or_def)
qed

lemma index_wf_total_or_zero:
  assumes "index_wf bi n" and "h < n"
  shows "total_or_zero bi l h = Inr (the_total bi l h)"
  using index_wf_item [OF assms]
  by (auto simp: total_or_zero_def the_total_def total_at_def split: option.splits)

lemma index_wf_total_or_error:
  assumes "index_wf bi n" and "h < n"
  shows "total_or_error bi l h = ok_or (total_at bi l h) (LedgerNotFound l h)"
  using index_wf_item [OF assms] by (auto simp: total_or_error_def total_at_def)

lemma the_total_step:
  assumes "index_wf bi n" and "Suc h < n"
  shows "the_total bi l h \<le> the_total bi l (Suc h)"
proof (cases "find_ledger l (ledgers_at bi h)")
  case None
  then show ?thesis by (simp add: the_total_def total_at_def)
next
  case (Some x)
  then have x: "x \<in> set (ledgers_at bi h)" "lii_ledger x = l"
    by (auto dest: find_ledger_Some_set)
  have "grows bi h" using assms by (simp add: index_wf_def)
  with x Some show ?thesis
    by (auto simp: grows_def the_total_def total_at_def split: option.splits)
qed

lemma the_total_mono:
  assumes "index_wf bi n" and "h \<le> h'" and "h' < n"
  shows "the_total bi l h \<le> the_total bi l h'"
  using assms(2,3)
proof (induction rule: dec_induct)
  case (step m)
  then show ?case using the_total_step [OF assms(1), of m l] by simp
qed simp

lemma index_wf_num_blocks: "index_wf bi n \<Longrightarrow> block_index_num_blocks bi = n"
  unfolding index_wf_def block_index_num_blocks_def
  by (metis diff_zero length_map length_upt)

lemma index_wf_latest:
  assumes "index_wf bi n"
  shows "block_index_latest_height bi = (if n = 0 then None else Some (n - 1))"
proof -
  have *: "map fst (bi_hashes bi) = [0..<n]"
    using assms by (simp add: index_wf_def)
  show ?thesis
  proof (cases n)
    case 0
    then show ?thesis using * by (simp add: block_index_latest_height_def)
  next
    case (Suc m)
    then have "bi_hashes bi \<noteq> []" using * by auto
    then have "fst (last (bi_hashes bi)) = last [0..<n]"
      using * by (metis last_map)
    then show ?thesis
      using Suc \<open>bi_hashes bi \<noteq> []\<close> by (simp add: block_index_latest_height_def)
  qed
qed

section \<open>Binary search\<close>

lemma search_loop_stop [simp]: "search_loop tot off h h = Inr h"
  by (simp add: search_loop.simps [of tot off h h])

text \<open>The contract of a search over totals that do not decrease.\<close>

lemma search_loop_ok:
  assumes "\<And>h. h < hi \<Longrightarrow> tot h = Inr (f h)"
    and "\<And>h h'. h \<le> h' \<Longrightarrow> h' \<le> hi \<Longrightarrow> f h \<le> f h'"
    and "off < f hi" and "lo \<le> hi" and "lo = 0 \<or> f (lo - 1) \<le> off"
  shows "\<exists>h. search_loop tot off lo hi = Inr h \<and> h \<le> hi \<and> off < f h \<and> (h = 0 \<or> f (h - 1) \<le> off)"
  using assms
proof (induction tot off lo hi rule: search_loop.induct)
  case (1 tot off lo hi)
  show ?case
  proof (cases "lo < hi")
    case False
    then have "lo = hi" "search_loop tot off lo hi = Inr hi"
      using "1.prems"(4) by simp_all
    then show ?thesis
      using "1.prems"(3,5) by blast
  next
    case True
    define mid where "mid = lo + (hi - lo) div 2"
    have mid: "lo \<le> mid" "mid < hi" using True by (auto simp: mid_def)
    have t: "tot mid = Inr (f mid)" using "1.prems"(1) mid by simp
    have step: "search_loop tot off lo hi =
        (if off < f mid then search_loop tot off lo mid else search_loop tot off (mid + 1) hi)"
      using True t by (simp add: search_loop.simps [of tot off lo hi] mid_def)
    show ?thesis
    proof (cases "off < f mid")
      case left: True
      have "\<exists>h. search_loop tot off lo mid = Inr h \<and> h \<le> mid \<and> off < f h \<and> (h = 0 \<or> f (h - 1) \<le> off)"
        by (rule "1.IH"(1) [OF True mid_def t left]) (use "1.prems" mid left in auto)
      then show ?thesis
        using step left mid(2) by (auto intro: less_imp_le order_trans)
    next
      case right: False
      have "\<exists>h. search_loop tot off (mid + 1) hi = Inr h \<and> h \<le> hi \<and> off < f h \<and> (h = 0 \<or> f (h - 1) \<le> off)"
        by (rule "1.IH"(2) [OF True mid_def t right]) (use "1.prems" mid right in auto)
      then show ?thesis
        using step right by simp
    qed
  qed
qed

lemma search_loop_cong:
  assumes "\<And>h. h < hi \<Longrightarrow> tot h = tot' h"
  shows "search_loop tot off lo hi = search_loop tot' off lo hi"
  using assms
proof (induction tot off lo hi rule: search_loop.induct)
  case (1 tot off lo hi)
  show ?case
  proof (cases "lo < hi")
    case False
    then show ?thesis by (simp add: search_loop.simps [of tot] search_loop.simps [of tot'])
  next
    case True
    define mid where "mid = lo + (hi - lo) div 2"
    have mid: "mid < hi" using True by (auto simp: mid_def)
    have "rbind (tot mid) (\<lambda>t. if off < t then search_loop tot off lo mid
            else search_loop tot off (mid + 1) hi) =
          rbind (tot' mid) (\<lambda>t. if off < t then search_loop tot' off lo mid
            else search_loop tot' off (mid + 1) hi)"
    proof (rule rbind_cong)
      show "tot mid = tot' mid" using "1.prems" mid by simp
    next
      fix t assume "tot' mid = Inr t"
      then have t: "tot mid = Inr t" using "1.prems" mid by simp
      show "(if off < t then search_loop tot off lo mid else search_loop tot off (mid + 1) hi) =
            (if off < t then search_loop tot' off lo mid else search_loop tot' off (mid + 1) hi)"
        using "1.IH"(1) [OF True mid_def t] "1.IH"(2) [OF True mid_def t] "1.prems" mid by simp
    qed
    then show ?thesis
      using True
      by (simp add: search_loop.simps [of tot off lo hi] search_loop.simps [of tot' off lo hi]
          mid_def [symmetric] Let_def)
  qed
qed

section \<open>Looking up the block of an offset\<close>

text \<open>What a lookup promises: the block at height \<open>h\<close> is the one that added the offset.\<close>

definition contains_offset :: "block_index \<Rightarrow> data_ledger \<Rightarrow> nat \<Rightarrow> nat \<Rightarrow> bool" where
  "contains_offset bi l off h \<longleftrightarrow> total_before bi l h \<le> off \<and> off < the_total bi l h"

lemma contains_offset_unique:
  assumes "index_wf bi n" and "h < n" and "h' < n"
    and "contains_offset bi l off h" and "contains_offset bi l off h'"
  shows "h = h'"
proof (rule ccontr)
  have below: "\<not> (a < b \<and> b < n \<and> contains_offset bi l off a \<and> contains_offset bi l off b)" for a b
  proof
    assume a: "a < b \<and> b < n \<and> contains_offset bi l off a \<and> contains_offset bi l off b"
    then have "the_total bi l a \<le> the_total bi l (b - 1)"
      by (intro the_total_mono [OF assms(1)]) auto
    then show False using a by (auto simp: contains_offset_def total_before_def)
  qed
  assume "h \<noteq> h'"
  then show False using below [of h h'] below [of h' h] assms(2-5) by auto
qed

lemma search_contains:
  assumes "index_wf bi n" and "a < n" and "off < the_total bi l a"
    and "\<And>h. h < a \<Longrightarrow> tot h = Inr (the_total bi l h)"
  shows "\<exists>h. search_loop tot off 0 a = Inr h \<and> h \<le> a \<and> contains_offset bi l off h"
proof -
  have "\<exists>h. search_loop tot off 0 a = Inr h \<and> h \<le> a \<and> off < the_total bi l h \<and>
      (h = 0 \<or> the_total bi l (h - 1) \<le> off)"
  proof (rule search_loop_ok [where f = "the_total bi l"])
    fix h h' assume "h \<le> h'" "h' \<le> a"
    then show "the_total bi l h \<le> the_total bi l h'"
      using assms(2) by (intro the_total_mono [OF assms(1)]) auto
  qed (use assms(3) in \<open>simp_all add: assms(4)\<close>)
  then obtain h where "search_loop tot off 0 a = Inr h" "h \<le> a" "off < the_total bi l h"
    "h = 0 \<or> the_total bi l (h - 1) \<le> off"
    by blast
  then have "contains_offset bi l off h"
    unfolding contains_offset_def total_before_def by (cases "h = 0") simp_all
  then show ?thesis
    using \<open>search_loop tot off 0 a = Inr h\<close> \<open>h \<le> a\<close> by blast
qed

lemma the_total_pos: "off < the_total bi l h \<Longrightarrow> \<exists>x. find_ledger l (ledgers_at bi h) = Some x \<and> lii_total_chunks x = the_total bi l h"
  by (auto simp: the_total_def total_at_def split: option.splits)

lemma bounds_found:
  assumes wf: "index_wf bi n" and a: "a < n" and t: "total_at bi l a = Some t" and off: "off < t"
  shows "\<exists>h x hash. h \<le> a \<and> contains_offset bi l off h \<and> map_of (bi_hashes bi) h = Some hash \<and>
    find_ledger l (ledgers_at bi h) = Some x \<and>
    block_bounds_at_height_in_tx bi l off a =
      Inr \<lparr>bb_height = h, bb_block_hash = hash, bb_ledger = l,
           bb_start_chunk_offset = total_before bi l h,
           bb_end_chunk_offset = the_total bi l h, bb_tx_root = lii_tx_root x\<rparr>"
proof -
  have ta: "off < the_total bi l a" using t off by (simp add: the_total_def)
  have "total_or_zero bi l h = Inr (the_total bi l h)" if "h < a" for h
    using index_wf_total_or_zero [OF wf] a that by simp
  from search_contains [OF wf a ta, OF this]
  obtain h where h: "search_loop (total_or_zero bi l) off 0 a = Inr h" "h \<le> a"
    and c: "contains_offset bi l off h"
    by blast
  have hn: "h < n" using h(2) a by simp
  obtain x where x: "find_ledger l (ledgers_at bi h) = Some x" "lii_total_chunks x = the_total bi l h"
    using c the_total_pos [of off bi l h] by (auto simp: contains_offset_def)
  obtain hash where hash: "map_of (bi_hashes bi) h = Some hash"
    and item: "block_index_item_by_height bi h =
      Inr \<lparr>bii_block_hash = hash, bii_num_ledgers = length (ledgers_at bi h),
           bii_ledgers = ledgers_at bi h\<rparr>"
    using index_wf_item [OF wf hn] by blast
  obtain ahash where anchor: "block_index_item_by_height bi a =
      Inr \<lparr>bii_block_hash = ahash, bii_num_ledgers = length (ledgers_at bi a),
           bii_ledgers = ledgers_at bi a\<rparr>"
    using index_wf_item [OF wf a] by blast
  have prev: "(if h = 0 then Inr 0 else internal (total_or_zero bi l (h - 1))) =
      (Inr (total_before bi l h) :: block_bounds_error + nat)"
    using index_wf_total_or_zero [OF wf, of "h - 1" l] hn
    by (simp add: total_before_def internal_def)
  obtain y where y: "find_ledger l (ledgers_at bi a) = Some y" "lii_total_chunks y = t"
    using t by (auto simp: total_at_def)
  have "block_bounds_at_height_in_tx bi l off a =
      Inr \<lparr>bb_height = h, bb_block_hash = hash, bb_ledger = l,
           bb_start_chunk_offset = total_before bi l h,
           bb_end_chunk_offset = the_total bi l h, bb_tx_root = lii_tx_root x\<rparr>"
    unfolding block_bounds_at_height_in_tx_def anchor h(1)
    using y off item x prev by (simp add: internal_def ok_or_def ensure_def)
  with h(2) c hash x(1) show ?thesis by blast
qed

lemma bounds_errors:
  assumes wf: "index_wf bi n"
  shows "\<not> a < n \<Longrightarrow> block_bounds_at_height_in_tx bi l off a = Inl (Internal (NoBlockHash a))"
    and "a < n \<Longrightarrow> total_at bi l a = None \<Longrightarrow>
      block_bounds_at_height_in_tx bi l off a = Inl (LedgerInactive l a)"
    and "a < n \<Longrightarrow> total_at bi l a = Some t \<Longrightarrow> t \<le> off \<Longrightarrow>
      block_bounds_at_height_in_tx bi l off a = Inl (OffsetBeyondFrontier l off t a)"
proof -
  show "block_bounds_at_height_in_tx bi l off a = Inl (Internal (NoBlockHash a))" if "\<not> a < n"
    using index_wf_no_item [OF wf that]
    by (simp add: block_bounds_at_height_in_tx_def internal_def)
next
  assume "a < n"
  from index_wf_item [OF wf this] obtain x where x: "block_index_item_by_height bi a =
      Inr \<lparr>bii_block_hash = x, bii_num_ledgers = length (ledgers_at bi a),
           bii_ledgers = ledgers_at bi a\<rparr>"
    by blast
  show "block_bounds_at_height_in_tx bi l off a = Inl (LedgerInactive l a)"
    if "total_at bi l a = None"
    using that x
    by (simp add: block_bounds_at_height_in_tx_def internal_def total_at_def ok_or_def)
  show "block_bounds_at_height_in_tx bi l off a = Inl (OffsetBeyondFrontier l off t a)"
    if "total_at bi l a = Some t" "t \<le> off"
    using that x
    by (auto simp: block_bounds_at_height_in_tx_def internal_def total_at_def ok_or_def ensure_def)
qed

text \<open>A lookup reads nothing above its anchor.\<close>

definition agree_to :: "block_index \<Rightarrow> block_index \<Rightarrow> nat \<Rightarrow> bool" where
  "agree_to bi bi' a \<longleftrightarrow>
     (\<forall>h \<le> a. map_of (bi_hashes bi) h = map_of (bi_hashes bi') h \<and>
              dups (bi_items bi) h = dups (bi_items bi') h)"

lemma agree_to_item:
  "agree_to bi bi' a \<Longrightarrow> h \<le> a \<Longrightarrow> block_index_item_by_height bi h = block_index_item_by_height bi' h"
  by (simp add: agree_to_def block_index_item_by_height_def)

lemma agree_to_total:
  "agree_to bi bi' a \<Longrightarrow> h \<le> a \<Longrightarrow> total_or_zero bi l h = total_or_zero bi' l h"
  by (simp add: total_or_zero_def agree_to_item)

lemma search_loop_le: "search_loop tot off lo hi = Inr h \<Longrightarrow> lo \<le> hi \<Longrightarrow> h \<le> hi"
proof (induction tot off lo hi rule: search_loop.induct)
  case (1 tot off lo hi)
  show ?case
  proof (cases "lo < hi")
    case False
    then show ?thesis using "1.prems" by simp
  next
    case True
    define mid where "mid = lo + (hi - lo) div 2"
    have mid: "lo \<le> mid" "mid < hi" using True by (auto simp: mid_def)
    obtain t where t: "tot mid = Inr t"
      and r: "(if off < t then search_loop tot off lo mid else search_loop tot off (mid + 1) hi) = Inr h"
      using "1.prems"(1) True
      by (auto simp: search_loop.simps [of tot off lo hi] mid_def [symmetric] Let_def rbind_Inr_iff)
    show ?thesis
    proof (cases "off < t")
      case left: True
      have "h \<le> mid" using "1.IH"(1) [OF True mid_def t left] r left mid by simp
      then show ?thesis using mid by simp
    next
      case right: False
      then show ?thesis using "1.IH"(2) [OF True mid_def t right] r mid by simp
    qed
  qed
qed

lemma bounds_agree:
  assumes ag: "agree_to bi bi' a"
  shows "block_bounds_at_height_in_tx bi l off a = block_bounds_at_height_in_tx bi' l off a"
proof -
  have s: "search_loop (total_or_zero bi l) off 0 a = search_loop (total_or_zero bi' l) off 0 a"
    by (rule search_loop_cong) (simp add: agree_to_total [OF ag])
  show ?thesis
  proof (cases "search_loop (total_or_zero bi' l) off 0 a")
    case (Inl e)
    then show ?thesis
      unfolding block_bounds_at_height_in_tx_def s agree_to_item [OF ag order_refl]
      by (simp add: internal_def)
  next
    case (Inr h)
    then have h: "h \<le> a" "h - 1 \<le> a" using search_loop_le [OF Inr] by auto
    show ?thesis
      unfolding block_bounds_at_height_in_tx_def s agree_to_item [OF ag order_refl] Inr
      using agree_to_item [OF ag h(1)] agree_to_total [OF ag h(2)]
      by (simp add: internal_def)
  qed
qed

lemma found_block_eq:
  assumes wf: "index_wf bi n" and n: "0 < n"
    and t: "\<And>h. h < n \<Longrightarrow> total_at bi l h \<noteq> None" and off: "off < the_total bi l (n - 1)"
  shows "\<exists>h item. get_block_index_item bi l off = Inr (h, item) \<and> h < n \<and>
    contains_offset bi l off h \<and> block_index_item_by_height bi h = Inr item"
proof -
  have tot: "total_or_error bi l h = Inr (the_total bi l h)" if "h < n" for h
    using index_wf_total_or_error [OF wf that, of l] t [OF that]
    by (auto simp: the_total_def ok_or_def)
  have "\<exists>h. search_loop (total_or_error bi l) off 0 (n - 1) = Inr h \<and> h \<le> n - 1 \<and>
      contains_offset bi l off h"
    by (rule search_contains [OF wf _ off]) (use n tot in auto)
  then obtain h where h: "search_loop (total_or_error bi l) off 0 (n - 1) = Inr h" "h \<le> n - 1"
    "contains_offset bi l off h"
    by blast
  have hn: "h < n" using h(2) n by simp
  obtain item where item: "block_index_item_by_height bi h = Inr item"
    using index_wf_item [OF wf hn] by blast
  have "get_block_index_item bi l off = Inr (h, item)"
    unfolding get_block_index_item_def index_wf_latest [OF wf]
    using n tot [of "n - 1"] off h(1) item by (simp add: ok_or_def ensure_def)
  with hn h(3) item show ?thesis by blast
qed

section \<open>Writing\<close>

lemma bt_insert_last:
  "(\<And>k'. k' \<in> fst ` set m \<Longrightarrow> k' < k) \<Longrightarrow> bt_insert k v m = m @ [(k, v)]"
proof (induction m)
  case (Cons p m)
  have "fst p < k" using Cons.prems by simp
  moreover have "bt_insert k v m = m @ [(k, v)]"
    by (rule Cons.IH) (use Cons.prems in auto)
  ultimately show ?case by (cases p) auto
qed simp

lemma ledgers_at_insert:
  assumes "set_insert dup_ins"
  shows "h \<noteq> k \<Longrightarrow> ledgers_at (insert_block_index_item dup_ins k item bi) h = ledgers_at bi h"
    and "set (ledgers_at (insert_block_index_item dup_ins k item bi) k) = set (bii_ledgers item)"
    and "distinct (ledgers_at (insert_block_index_item dup_ins k item bi) k)"
  by (simp_all add: ledgers_at_def insert_block_index_item_def Let_def dups_bt_remove
      set_insert.dups_fold_put_other [OF assms] set_insert.set_dups_fold_put [OF assms]
      set_insert.distinct_dups_fold_put [OF assms])

lemma find_ledger_insert:
  assumes "set_insert dup_ins" and "distinct (map lii_ledger (bii_ledgers item))"
  shows "distinct (map lii_ledger (ledgers_at (insert_block_index_item dup_ins k item bi) k))"
    and "find_ledger l (ledgers_at (insert_block_index_item dup_ins k item bi) k) =
      find_ledger l (bii_ledgers item)"
proof -
  note at = ledgers_at_insert(2,3) [OF assms(1), of k item bi]
  show d: "distinct (map lii_ledger (ledgers_at (insert_block_index_item dup_ins k item bi) k))"
    using assms(2) at by (simp add: distinct_map)
  show "find_ledger l (ledgers_at (insert_block_index_item dup_ins k item bi) k) =
      find_ledger l (bii_ledgers item)"
    by (rule find_ledger_cong [OF at(1) d assms(2)])
qed

lemma insert_hashes:
  "map_of (bi_hashes (insert_block_index_item dup_ins k item bi)) =
     (map_of (bi_hashes bi))(k \<mapsto> bii_block_hash item)"
  by (simp add: insert_block_index_item_def Let_def)

lemma insert_agree:
  "set_insert dup_ins \<Longrightarrow> a < k \<Longrightarrow> agree_to (insert_block_index_item dup_ins k item bi) bi a"
  using ledgers_at_insert(1) [of dup_ins _ k item bi]
  by (auto simp: agree_to_def insert_hashes ledgers_at_def)

lemma insert_next_wf:
  assumes si: "set_insert dup_ins" and wf: "index_wf bi n"
    and d: "distinct (map lii_ledger (bii_ledgers item))"
    and g: "\<And>x. 0 < n \<Longrightarrow> x \<in> set (ledgers_at bi (n - 1)) \<Longrightarrow>
      \<exists>y. find_ledger (lii_ledger x) (bii_ledgers item) = Some y \<and> lii_total_chunks x \<le> lii_total_chunks y"
  shows "index_wf (insert_block_index_item dup_ins n item bi) (Suc n)"
proof -
  let ?bi = "insert_block_index_item dup_ins n item bi"
  have keys: "map fst (bi_hashes bi) = [0..<n]" using wf by (simp add: index_wf_def)
  then have "k < n" if "k \<in> fst ` set (bi_hashes bi)" for k
    using that by (metis atLeastLessThan_iff atLeast_upt list.set_map set_upt)
  then have "bt_insert n (bii_block_hash item) (bi_hashes bi) =
      bi_hashes bi @ [(n, bii_block_hash item)]"
    by (rule bt_insert_last)
  then have k: "map fst (bi_hashes ?bi) = [0..<Suc n]"
    by (simp add: insert_block_index_item_def Let_def keys)
  have dist: "distinct (map lii_ledger (ledgers_at ?bi h))" if "h < Suc n" for h
  proof (cases "h = n")
    case True
    then show ?thesis using find_ledger_insert(1) [OF si d] by simp
  next
    case False
    then show ?thesis using that wf by (simp add: ledgers_at_insert(1) [OF si] index_wf_def)
  qed
  have old: "total_at ?bi l h = total_at bi l h" if "h \<noteq> n" for l h
    using that by (simp add: total_at_def ledgers_at_insert(1) [OF si])
  have "grows ?bi h" if "h < n" for h
  proof (cases "Suc h = n")
    case True
    have "total_at ?bi l n = map_option lii_total_chunks (find_ledger l (bii_ledgers item))" for l
      by (simp add: total_at_def find_ledger_insert(2) [OF si d])
    then show ?thesis
      using g True that by (fastforce simp: grows_def ledgers_at_insert(1) [OF si])
  next
    case False
    then have "grows bi h" using wf that by (simp add: index_wf_def)
    then show ?thesis
      using False that by (simp add: grows_def ledgers_at_insert(1) [OF si] old)
  qed
  with k dist show ?thesis by (simp add: index_wf_def)
qed

lemma dups_filter: "dups (filter (\<lambda>(h, _). \<not> rng h) m) h = (if rng h then [] else dups m h)"
  by (induction m) (auto simp: dups_def)

lemma map_of_filter: "map_of (filter (\<lambda>(h, _). \<not> rng h) m) h = (if rng h then None else map_of m h)"
  by (induction m) auto

lemma truncate_agree:
  assumes "truncate_to_height t bi = Inr bi'" and "a \<le> t"
  shows "agree_to bi' bi a"
  using assms
  by (auto simp: agree_to_def truncate_to_height_def delete_block_index_range_def dups_filter
      map_of_filter split: if_splits)

lemma map_fst_filter: "map fst (filter (\<lambda>(h, _). P h) m) = filter P (map fst m)"
  by (induction m) auto

lemma filter_upt_le: "filter (\<lambda>h. \<not> Suc t \<le> h) [0..<n] = [0..<min n (Suc t)]"
  by (induction n) (auto simp: min_def not_less_eq_eq)

lemma truncate_wf:
  assumes wf: "index_wf bi n" and t: "t + 1 < 2 ^ 64"
  shows "\<exists>bi'. truncate_to_height t bi = Inr bi' \<and> index_wf bi' (min n (Suc t)) \<and> agree_to bi' bi t"
proof -
  define bi' where "bi' = delete_block_index_range (\<lambda>h. t + 1 \<le> h) bi"
  have eq: "truncate_to_height t bi = Inr bi'"
    using t by (simp add: truncate_to_height_def bi'_def)
  have old: "ledgers_at bi' h = ledgers_at bi h" if "h \<le> t" for h
    using that by (simp add: bi'_def ledgers_at_def delete_block_index_range_def dups_filter)
  have k: "map fst (bi_hashes bi') = [0..<min n (Suc t)]"
    using wf by (simp add: bi'_def delete_block_index_range_def map_fst_filter index_wf_def
        filter_upt_le del: upt_Suc)
  have "grows bi' h" if "h < min n (Suc t) - 1" for h
    using wf that by (simp add: index_wf_def grows_def total_at_def old)
  then have "index_wf bi' (min n (Suc t))"
    using k wf by (simp add: index_wf_def old del: upt_Suc)
  then show ?thesis using eq truncate_agree [OF eq] by blast
qed

section \<open>Pushing a block\<close>

definition chunks_of :: "nat \<Rightarrow> data_transaction_header list \<Rightarrow> nat" where
  "chunks_of chunk_size txs = (\<Sum>tx \<leftarrow> txs. div_ceil (dth_data_size tx) chunk_size)"

lemma calculate_chunks_added_ok:
  assumes "0 < c" and "chunks_of c txs * c < 2 ^ 64"
  shows "calculate_chunks_added txs c = Inr (chunks_of c txs)"
proof -
  let ?f = "\<lambda>tx acc. let bytes = div_ceil (dth_data_size tx) c * c in
      if bytes < 2 ^ 64 \<and> acc + bytes < 2 ^ 64 then Inr (acc + bytes) else Inl ArithmeticPanic"
  have "try_fold ?f txs acc = Inr (acc + chunks_of c txs * c)"
    if "acc + chunks_of c txs * c < 2 ^ 64" for acc
    using that
    by (induction txs arbitrary: acc) (simp_all add: chunks_of_def Let_def add_mult_distrib add.assoc)
  from this [of 0] show ?thesis
    using assms by (simp add: calculate_chunks_added_def)
qed

lemma div_ceil_bounds: "0 < c \<Longrightarrow> a \<le> div_ceil a c * c \<and> div_ceil a c * c < a + c"
proof -
  assume c: "0 < c"
  define q where "q = a div c * c"
  define r where "r = a mod c"
  have "r < c" "a = q + r" using c by (simp_all add: q_def r_def)
  then show ?thesis
    unfolding div_ceil_def add_mult_distrib q_def [symmetric] r_def [symmetric] by auto
qed

text \<open>What a caller guarantees when it pushes the block of the next height.\<close>

definition ledger_pushable :: "block_transactions sealed_block \<Rightarrow> nat \<Rightarrow> block_index \<Rightarrow> nat \<Rightarrow> data_transaction_ledger \<Rightarrow> bool" where
  "ledger_pushable sb c bi n dl =
     (case ledger_from_u32 (dtl_ledger_id dl) of
        None \<Rightarrow> False
      | Some l \<Rightarrow> chunks_of c (get_ledger_txs (sb_transactions sb) l) * c < 2 ^ 64 \<and>
          total_before bi l n + chunks_of c (get_ledger_txs (sb_transactions sb) l) < 2 ^ 64)"

definition pushable :: "block_transactions sealed_block \<Rightarrow> nat \<Rightarrow> block_index \<Rightarrow> nat \<Rightarrow> bool" where
  "pushable sb c bi n \<longleftrightarrow>
     bh_height (sb_header sb) = n \<and> 0 < c \<and>
     (n = 0 \<or> map_of (bi_hashes bi) (n - 1) = Some (bh_previous_block_hash (sb_header sb))) \<and>
     distinct (map dtl_ledger_id (bh_data_ledgers (sb_header sb))) \<and>
     (\<forall>dl \<in> set (bh_data_ledgers (sb_header sb)). ledger_pushable sb c bi n dl) \<and>
     (n = 0 \<or> (\<forall>x \<in> set (ledgers_at bi (n - 1)). has_data_ledger (sb_header sb) (lii_ledger x)))"

definition pushed_item :: "block_transactions sealed_block \<Rightarrow> nat \<Rightarrow> block_index \<Rightarrow> nat \<Rightarrow> data_transaction_ledger \<Rightarrow> ledger_index_item" where
  "pushed_item sb c bi n dl =
     (let l = the (ledger_from_u32 (dtl_ledger_id dl)) in
      \<lparr>lii_total_chunks = (if n = 0 \<and> l = Publish then 0
         else total_before bi l n + chunks_of c (get_ledger_txs (sb_transactions sb) l)),
       lii_tx_root = dtl_tx_root dl, lii_ledger = l\<rparr>)"

lemma push_ledger_ok:
  assumes "0 < c" and "ledger_pushable sb c bi n dl" and "bh_height (sb_header sb) = n"
    and "0 < n \<Longrightarrow> prev = Some p \<and> bii_ledgers p = ledgers_at bi (n - 1)" and "n = 0 \<Longrightarrow> prev = None"
  shows "push_ledger sb c (n = 0) prev dl = Inr (pushed_item sb c bi n dl)"
proof -
  from assms(2) obtain l where l: "dtl_ledger_id dl = ledger_u32 l"
    and f: "chunks_of c (get_ledger_txs (sb_transactions sb) l) * c < 2 ^ 64"
      "total_before bi l n + chunks_of c (get_ledger_txs (sb_transactions sb) l) < 2 ^ 64"
    by (auto simp: ledger_pushable_def split: option.splits)
  have "(case find_ledger l (ledgers_at bi (n - 1)) of None \<Rightarrow> 0 | Some x \<Rightarrow> lii_total_chunks x) =
      total_before bi l n" if "0 < n"
    using that by (simp add: total_before_def the_total_def total_at_def split: option.splits)
  then show ?thesis
    using assms(4,5) f(2) calculate_chunks_added_ok [OF assms(1) f(1)] l
    by (cases "n = 0")
      (simp_all add: push_ledger_def pushed_item_def ok_or_def total_before_def Let_def)
qed

lemma pushed_ledger:
  "ledger_pushable sb c bi n dl \<Longrightarrow> dtl_ledger_id dl = ledger_u32 (lii_ledger (pushed_item sb c bi n dl))"
  by (auto simp: ledger_pushable_def pushed_item_def Let_def split: option.splits)

lemma push_block_ok:
  assumes wf: "index_wf bi n" and p: "pushable sb c bi n"
  shows "push_block dup_ins sb c bi =
    Inr (insert_block_index_item dup_ins n
      \<lparr>bii_block_hash = bh_block_hash (sb_header sb),
       bii_num_ledgers = length (bh_data_ledgers (sb_header sb)) mod 2 ^ 8,
       bii_ledgers = map (pushed_item sb c bi n) (bh_data_ledgers (sb_header sb))\<rparr> bi)"
proof -
  have h: "bh_height (sb_header sb) = n" and c: "0 < c"
    and lp: "dl \<in> set (bh_data_ledgers (sb_header sb)) \<Longrightarrow> ledger_pushable sb c bi n dl" for dl
    using p by (auto simp: pushable_def)
  have gen: "(block_index_num_blocks bi = 0 \<and> n = 0) = (n = 0)"
    using index_wf_num_blocks [OF wf] by auto
  show ?thesis
  proof (cases "n = 0")
    case True
    have "rmap (push_ledger sb c True None) (bh_data_ledgers (sb_header sb)) =
        Inr (map (pushed_item sb c bi n) (bh_data_ledgers (sb_header sb)))"
      by (rule rmap_total) (use push_ledger_ok [OF c lp h, of _ None] True in auto)
    then show ?thesis
      unfolding push_block_def Let_def h gen using True by simp
  next
    case False
    obtain item where item: "block_index_item_by_height bi (n - 1) = Inr item"
      "bii_block_hash item = bh_previous_block_hash (sb_header sb)"
      "bii_ledgers item = ledgers_at bi (n - 1)"
      using index_wf_item [OF wf, of "n - 1"] False p by (auto simp: pushable_def)
    have "rmap (push_ledger sb c False (Some item)) (bh_data_ledgers (sb_header sb)) =
        Inr (map (pushed_item sb c bi n) (bh_data_ledgers (sb_header sb)))"
      by (rule rmap_total) (use push_ledger_ok [OF c lp h, of _ "Some item" item] item False in auto)
    then show ?thesis
      unfolding push_block_def Let_def h gen using False item by simp
  qed
qed

lemma pushed_distinct:
  assumes "pushable sb c bi n"
  shows "distinct (map lii_ledger (map (pushed_item sb c bi n) (bh_data_ledgers (sb_header sb))))"
proof -
  let ?dls = "bh_data_ledgers (sb_header sb)"
  have "map dtl_ledger_id ?dls = map ledger_u32 (map lii_ledger (map (pushed_item sb c bi n) ?dls))"
    using assms pushed_ledger by (auto simp: pushable_def)
  then show ?thesis
    using assms by (metis distinct_map pushable_def)
qed

lemma pushed_find:
  assumes "pushable sb c bi n" and "dl \<in> set (bh_data_ledgers (sb_header sb))"
    and "dtl_ledger_id dl = ledger_u32 l"
  shows "find_ledger l (map (pushed_item sb c bi n) (bh_data_ledgers (sb_header sb))) =
    Some (pushed_item sb c bi n dl)"
proof -
  have "ledger_u32 (lii_ledger (pushed_item sb c bi n dl)) = ledger_u32 l"
    using pushed_ledger [of sb c bi n dl] assms by (simp add: pushable_def)
  then show ?thesis
    using assms(2) find_ledger_iff [OF pushed_distinct [OF assms(1)]] by simp
qed

lemma push_block_wf:
  assumes si: "set_insert dup_ins" and wf: "index_wf bi n" and p: "pushable sb c bi n"
  shows "\<exists>bi'. push_block dup_ins sb c bi = Inr bi' \<and> index_wf bi' (Suc n) \<and>
    map_of (bi_hashes bi') n = Some (bh_block_hash (sb_header sb)) \<and>
    (\<forall>dl \<in> set (bh_data_ledgers (sb_header sb)). \<forall>l. dtl_ledger_id dl = ledger_u32 l \<longrightarrow>
       find_ledger l (ledgers_at bi' n) = Some (pushed_item sb c bi n dl)) \<and>
    (\<forall>a < n. agree_to bi' bi a)"
proof -
  let ?dls = "bh_data_ledgers (sb_header sb)"
  define item where "item = \<lparr>bii_block_hash = bh_block_hash (sb_header sb),
       bii_num_ledgers = length ?dls mod 2 ^ 8, bii_ledgers = map (pushed_item sb c bi n) ?dls\<rparr>"
  have ls: "bii_ledgers item = map (pushed_item sb c bi n) ?dls" by (simp add: item_def)
  have d: "distinct (map lii_ledger (bii_ledgers item))"
    unfolding ls by (rule pushed_distinct [OF p])
  have "\<exists>y. find_ledger (lii_ledger x) (bii_ledgers item) = Some y \<and>
      lii_total_chunks x \<le> lii_total_chunks y" if n: "0 < n" and x: "x \<in> set (ledgers_at bi (n - 1))" for x
  proof -
    obtain dl where dl: "dl \<in> set ?dls" "dtl_ledger_id dl = ledger_u32 (lii_ledger x)"
      using p n x by (auto simp: pushable_def has_data_ledger_def list_ex_iff)
    have "find_ledger (lii_ledger x) (ledgers_at bi (n - 1)) = Some x"
      using find_ledger_iff [of "ledgers_at bi (n - 1)"] wf n x by (simp add: index_wf_def)
    then have "total_before bi (lii_ledger x) n = lii_total_chunks x"
      using n by (simp add: total_before_def the_total_def total_at_def)
    then have "lii_total_chunks x \<le> lii_total_chunks (pushed_item sb c bi n dl)"
      using n dl(2) by (simp add: pushed_item_def Let_def)
    then show ?thesis using pushed_find [OF p dl] by (simp add: ls)
  qed
  from insert_next_wf [OF si wf d this]
  have "index_wf (insert_block_index_item dup_ins n item bi) (Suc n)" .
  moreover have "\<forall>dl \<in> set ?dls. \<forall>l. dtl_ledger_id dl = ledger_u32 l \<longrightarrow>
       find_ledger l (ledgers_at (insert_block_index_item dup_ins n item bi) n) =
         Some (pushed_item sb c bi n dl)"
    using pushed_find [OF p] by (simp add: find_ledger_insert(2) [OF si d] ls)
  ultimately show ?thesis
    using push_block_ok [OF wf p, of dup_ins] insert_agree [OF si]
    by (simp add: item_def [symmetric] insert_hashes) (simp add: item_def)
qed

section \<open>The legacy file\<close>

definition legacy_item :: "block_index_item \<Rightarrow> bool" where
  "legacy_item item \<longleftrightarrow>
     bii_num_ledgers item = 2 \<and> map lii_ledger (bii_ledgers item) = [Publish, Submit] \<and>
     list_all (\<lambda>x. lii_total_chunks x < 2 ^ 64) (bii_ledgers item)"

lemma length_ledger_item_to_bytes [simp]: "length (ledger_item_to_bytes x) = 40"
  by (simp add: ledger_item_to_bytes_def)

lemma ledger_item_fields:
  assumes "lii_total_chunks x < 2 ^ 64"
  shows "le_value (take 8 (ledger_item_to_bytes x @ bs)) = lii_total_chunks x"
    and "h256_of_bytes (take 32 (drop 8 (ledger_item_to_bytes x @ bs))) = lii_tx_root x"
  using assms by (simp_all add: ledger_item_to_bytes_def)

lemma load_ledgers_Cons:
  assumes "lii_total_chunks x < 2 ^ 64" and "ledger_u32 (lii_ledger x) = i"
    and "load_ledgers is bs = Inr (Some (xs, rest))"
  shows "load_ledgers (i # is) (ledger_item_to_bytes x @ bs) = Inr (Some (x # xs, rest))"
  using assms(2,3)
  by (auto simp: ledger_item_fields [OF assms(1)] LEDGER_ITEM_SIZE_def ok_or_def simp del: take_append drop_append)
    (simp_all add: ok_or_def)

lemma legacy_item_ledgers:
  assumes "legacy_item item"
  obtains a b where "bii_ledgers item = [a, b]" "lii_ledger a = Publish" "lii_ledger b = Submit"
    "lii_total_chunks a < 2 ^ 64" "lii_total_chunks b < 2 ^ 64"
  using assms by (auto simp: legacy_item_def map_eq_Cons_conv)

lemma load_ledgers_item:
  assumes "legacy_item item"
  shows "load_ledgers [0..<2] (concat (map ledger_item_to_bytes (bii_ledgers item)) @ rest) =
    Inr (Some (bii_ledgers item, rest))"
proof -
  from assms obtain a b where ab: "bii_ledgers item = [a, b]" "lii_ledger a = Publish"
    "lii_ledger b = Submit" "lii_total_chunks a < 2 ^ 64" "lii_total_chunks b < 2 ^ 64"
    by (rule legacy_item_ledgers)
  have "load_ledgers [0, 1] (ledger_item_to_bytes a @ ledger_item_to_bytes b @ rest) =
      Inr (Some ([a, b], rest))"
    using ab by (intro load_ledgers_Cons) (simp_all add: ledger_u32_def)
  then show ?thesis by (simp add: ab(1) upt_rec)
qed

lemma load_block:
  assumes "legacy_item item"
  shows "load_index_from_file (block_item_to_bytes item @ rest) =
    rbind (load_index_from_file rest) (\<lambda>items. Inr (item # items))"
proof -
  let ?bs = "block_item_to_bytes item @ rest"
  have two: "bii_num_ledgers item = 2" using assms by (simp add: legacy_item_def)
  have bs: "?bs = h256_bytes (bii_block_hash item) @ 2 #
      concat (map ledger_item_to_bytes (bii_ledgers item)) @ rest"
    by (simp add: block_item_to_bytes_def two)
  have n: "?bs ! 32 = 2" and hash: "h256_of_bytes (take 32 ?bs) = bii_block_hash item"
    and d: "drop 33 ?bs = concat (map ledger_item_to_bytes (bii_ledgers item)) @ rest"
    unfolding bs by (simp_all add: nth_append)
  have len: "\<not> length ?bs < HEADER_SIZE" unfolding bs by (simp add: HEADER_SIZE_def)
  have item: "\<lparr>bii_block_hash = bii_block_hash item, bii_num_ledgers = 2, bii_ledgers = bii_ledgers item\<rparr> = item"
    using two by simp
  show ?thesis
    using len n hash d load_ledgers_item [OF assms, of rest] item
    by (subst load_index_from_file.simps)
      (simp add: HEADER_SIZE_def EXPECTED_NUM_LEDGERS_def Let_def del: upt_Suc)
qed

lemma load_items:
  assumes "list_all legacy_item items" and "length rest < 33"
  shows "load_index_from_file (concat (map block_item_to_bytes items) @ rest) = Inr items"
  using assms
proof (induction items)
  case Nil
  then show ?case by (subst load_index_from_file.simps) (simp add: HEADER_SIZE_def)
next
  case (Cons item items)
  then show ?case using load_block [of item] by simp
qed

lemma migrate_items:
  assumes si: "set_insert dup_ins" and "list_all legacy_item items"
  shows "\<exists>bi'. fold (\<lambda>(h, item). insert_block_index_item dup_ins h item) (enumerate k items) bi = bi' \<and>
    (\<forall>i < length items. map_of (bi_hashes bi') (k + i) = Some (bii_block_hash (items ! i)) \<and>
       (\<forall>l. find_ledger l (ledgers_at bi' (k + i)) = find_ledger l (bii_ledgers (items ! i)))) \<and>
    (\<forall>h < k. map_of (bi_hashes bi') h = map_of (bi_hashes bi) h \<and> ledgers_at bi' h = ledgers_at bi h)"
  using assms(2)
proof (induction items arbitrary: k bi)
  case Nil
  then show ?case by simp
next
  case (Cons item items)
  let ?bi = "insert_block_index_item dup_ins k item bi"
  have d: "distinct (map lii_ledger (bii_ledgers item))"
    using Cons.prems by (simp add: legacy_item_def)
  define bi' where "bi' = fold (\<lambda>(h, item). insert_block_index_item dup_ins h item)
      (enumerate (Suc k) items) ?bi"
  have IH: "\<forall>i < length items. map_of (bi_hashes bi') (Suc k + i) = Some (bii_block_hash (items ! i)) \<and>
       (\<forall>l. find_ledger l (ledgers_at bi' (Suc k + i)) = find_ledger l (bii_ledgers (items ! i)))"
    and low: "\<forall>h < Suc k. map_of (bi_hashes bi') h = map_of (bi_hashes ?bi) h \<and>
      ledgers_at bi' h = ledgers_at ?bi h"
    using Cons.IH [of "Suc k" ?bi] Cons.prems by (auto simp: bi'_def)
  have "map_of (bi_hashes bi') (k + i) = Some (bii_block_hash ((item # items) ! i)) \<and>
       (\<forall>l. find_ledger l (ledgers_at bi' (k + i)) = find_ledger l (bii_ledgers ((item # items) ! i)))"
    if "i < length (item # items)" for i
  proof (cases i)
    case 0
    then show ?thesis
      using low find_ledger_insert(2) [OF si d] by (simp add: insert_hashes)
  next
    case (Suc j)
    then show ?thesis using IH that by simp
  qed
  moreover have "map_of (bi_hashes bi') h = map_of (bi_hashes bi) h \<and> ledgers_at bi' h = ledgers_at bi h"
    if "h < k" for h
    using low that by (simp add: insert_hashes ledgers_at_insert(1) [OF si])
  ultimately show ?case by (simp add: bi'_def)
qed

lemma from_bytes_items:
  assumes "list_all (\<lambda>x. lii_total_chunks x < 2 ^ 64) xs"
  shows "ledger_items_from_bytes (length xs) (concat (map ledger_item_to_bytes xs) @ rest) =
    Some (map (\<lambda>x. x\<lparr>lii_ledger := Publish\<rparr>) xs)"
  using assms
proof (induction xs)
  case (Cons x xs)
  have "ledger_item_from_bytes (ledger_item_to_bytes x) = Some (x\<lparr>lii_ledger := Publish\<rparr>)"
    using ledger_item_fields [of x "[]"] Cons.prems
    by (cases x) (simp add: ledger_item_from_bytes_def)
  then show ?case using Cons by simp
qed simp

section \<open>Properties\<close>

text \<open>An index of three blocks, the second of which adds four chunks to Submit, and a next block.\<close>

definition ex_ledger :: "nat \<Rightarrow> h256 \<Rightarrow> data_ledger \<Rightarrow> ledger_index_item" where
  "ex_ledger t r l = \<lparr>lii_total_chunks = t, lii_tx_root = r, lii_ledger = l\<rparr>"

definition ex_index :: block_index where
  "ex_index =
     \<lparr>bi_hashes = [(0, 10), (1, 11), (2, 12)],
      bi_items = [(0, [ex_ledger 0 100 Publish, ex_ledger 2 110 Submit]),
                  (1, [ex_ledger 0 101 Publish, ex_ledger 6 111 Submit]),
                  (2, [ex_ledger 4 102 Publish, ex_ledger 6 112 Submit])]\<rparr>"

definition ex_data_ledger :: "data_ledger \<Rightarrow> h256 \<Rightarrow> data_transaction_ledger" where
  "ex_data_ledger l r =
     \<lparr>dtl_ledger_id = ledger_u32 l, dtl_tx_root = r, dtl_tx_ids = [], dtl_total_chunks = 0,
      dtl_expires = None, dtl_required_proof_count = None\<rparr>"

definition ex_sealed :: "block_transactions sealed_block" where
  "ex_sealed =
     \<lparr>sb_header =
        \<lparr>bh_block_hash = 13, bh_height = 3, bh_diff = 0, bh_cumulative_diff = 0, bh_solution_hash = 0,
         bh_last_epoch_hash = 0, bh_previous_block_hash = 12, bh_previous_cumulative_diff = 0,
         bh_last_diff_timestamp = 0, bh_timestamp = 0, bh_system_ledgers = [],
         bh_data_ledgers = [ex_data_ledger Publish 103, ex_data_ledger Submit 113],
         bh_vdf_limiter_info = \<lparr>vdf_output = 0, vdf_global_step_number = 0, vdf_seed = 0,
           vdf_next_seed = 0, vdf_steps = []\<rparr>,
         bh_oracle_irys_price = 0, bh_ema_irys_price = 0, bh_poa_chunk = Some []\<rparr>,
      sb_transactions = \<lparr>btx_system_txs = [],
        btx_data_txs = [(Submit, [\<lparr>dth_id = 1, dth_signer = 2, dth_data_root = 3, dth_data_size = 600,
         dth_term_fee = 0, dth_perm_fee = None, dth_ledger_id = 0\<rparr>])]\<rparr>\<rparr>"

lemma ex_index_wf: "index_wf ex_index 3"
  unfolding index_wf_lists by code_simp

lemma ex_sealed_pushable: "pushable ex_sealed 256 ex_index 3"
  by (simp add: pushable_def ledger_pushable_def chunks_of_def div_ceil_def get_ledger_txs_def
      total_before_def the_total_def total_at_def find_ledger_def ledgers_at_def dups_def
      has_data_ledger_def ledger_from_u32_def ledger_u32_def
      ex_sealed_def ex_index_def ex_data_ledger_def ex_ledger_def)

text \<open>
  \<^bold>\<open>C17.\<close> Finding the block of a chunk offset. On a well-formed index, a lookup anchored at an indexed
  height reports a ledger the anchor does not have, or an offset at or past the anchor's frontier, as
  such. Every other offset is found: the search returns the bounds of the one block at or below the
  anchor whose range contains the offset, with that block's hash and transaction root.
\<close>

theorem block_bounds_correct:
  assumes wf: "index_wf bi n" and a: "a < n"
  shows "case total_at bi l a of
      None \<Rightarrow> block_bounds_at_height_in_tx bi l off a = Inl (LedgerInactive l a)
    | Some t \<Rightarrow>
        (if t \<le> off then block_bounds_at_height_in_tx bi l off a = Inl (OffsetBeyondFrontier l off t a)
         else \<exists>h x hash. h \<le> a \<and> contains_offset bi l off h \<and>
           (\<forall>h' \<le> a. contains_offset bi l off h' \<longrightarrow> h' = h) \<and>
           map_of (bi_hashes bi) h = Some hash \<and> find_ledger l (ledgers_at bi h) = Some x \<and>
           block_bounds_at_height_in_tx bi l off a =
             Inr \<lparr>bb_height = h, bb_block_hash = hash, bb_ledger = l,
                  bb_start_chunk_offset = total_before bi l h,
                  bb_end_chunk_offset = the_total bi l h, bb_tx_root = lii_tx_root x\<rparr>)"
proof (cases "total_at bi l a")
  case None
  then show ?thesis using bounds_errors(2) [OF wf a] by simp
next
  case (Some t)
  show ?thesis
  proof (cases "t \<le> off")
    case True
    then show ?thesis using Some bounds_errors(3) [OF wf a Some] by simp
  next
    case False
    have "h' = h" if "h \<le> a" "contains_offset bi l off h" "h' \<le> a" "contains_offset bi l off h'" for h h'
      by (rule contains_offset_unique [OF wf _ _ that(4,2)]) (use that a in auto)
    then show ?thesis
      using Some False bounds_found [OF wf a Some, of off] by simp blast
  qed
qed

theorem block_bounds_correct_witness:
  "\<exists>h (x :: ledger_index_item) hash. contains_offset ex_index Submit 5 h \<and>
     block_bounds_at_height_in_tx ex_index Submit 5 2 =
       Inr \<lparr>bb_height = h, bb_block_hash = hash, bb_ledger = Submit,
            bb_start_chunk_offset = total_before ex_index Submit h,
            bb_end_chunk_offset = the_total ex_index Submit h, bb_tx_root = lii_tx_root x\<rparr>"
proof -
  have "total_at ex_index Submit 2 = Some 6" by code_simp
  with block_bounds_correct [OF ex_index_wf, of 2 Submit 5]
  have "\<exists>h x hash. h \<le> 2 \<and> contains_offset ex_index Submit 5 h \<and>
      (\<forall>h' \<le> 2. contains_offset ex_index Submit 5 h' \<longrightarrow> h' = h) \<and>
      map_of (bi_hashes ex_index) h = Some hash \<and> find_ledger Submit (ledgers_at ex_index h) = Some x \<and>
      block_bounds_at_height_in_tx ex_index Submit 5 2 =
        Inr \<lparr>bb_height = h, bb_block_hash = hash, bb_ledger = Submit,
             bb_start_chunk_offset = total_before ex_index Submit h,
             bb_end_chunk_offset = the_total ex_index Submit h, bb_tx_root = lii_tx_root x\<rparr>"
    by simp
  then show ?thesis by blast
qed

text \<open>
  \<^bold>\<open>C18.\<close> Lookups do not depend on what lies above the anchor. Removing the blocks above a target
  height, as a deep reorganisation does, and pushing the next block both leave every lookup anchored
  at a height that was and stays indexed unchanged, results and errors alike.
\<close>

theorem block_bounds_anchored:
  assumes "set_insert dup_ins"
  shows "(truncate_to_height t bi = Inr bi1 \<and> a \<le> t \<longrightarrow>
      block_bounds_at_height_in_tx bi1 l off a = block_bounds_at_height_in_tx bi l off a) \<and>
    (index_wf bi n \<and> pushable sb c bi n \<and> push_block dup_ins sb c bi = Inr bi2 \<and> a < n \<longrightarrow>
      block_bounds_at_height_in_tx bi2 l off a = block_bounds_at_height_in_tx bi l off a)"
proof -
  have "block_bounds_at_height_in_tx bi1 l off a = block_bounds_at_height_in_tx bi l off a"
    if "truncate_to_height t bi = Inr bi1" "a \<le> t"
    using bounds_agree [OF truncate_agree [OF that]] .
  moreover have "block_bounds_at_height_in_tx bi2 l off a = block_bounds_at_height_in_tx bi l off a"
    if "index_wf bi n" "pushable sb c bi n" "push_block dup_ins sb c bi = Inr bi2" "a < n"
    using push_block_wf [OF assms that(1,2)] that(3,4) bounds_agree by auto
  ultimately show ?thesis by blast
qed

theorem block_bounds_anchored_witness:
  "(\<exists>bi1. truncate_to_height 1 ex_index = Inr bi1 \<and>
     block_bounds_at_height_in_tx bi1 Submit 5 1 = block_bounds_at_height_in_tx ex_index Submit 5 1) \<and>
   (\<exists>bi2. push_block List.insert ex_sealed 256 ex_index = Inr bi2 \<and>
     block_bounds_at_height_in_tx bi2 Submit 5 2 = block_bounds_at_height_in_tx ex_index Submit 5 2)"
proof -
  have si: "set_insert (List.insert :: ledger_index_item \<Rightarrow> _)" by (rule hash_set.set_insert_axioms)
  obtain bi1 where 1: "truncate_to_height 1 ex_index = Inr bi1"
    by (simp add: truncate_to_height_def)
  obtain bi2 where 2: "push_block List.insert ex_sealed 256 ex_index = Inr bi2"
    using push_block_wf [OF si ex_index_wf ex_sealed_pushable] by blast
  have "block_bounds_at_height_in_tx bi1 Submit 5 1 = block_bounds_at_height_in_tx ex_index Submit 5 1"
    using block_bounds_anchored [OF si, of 1 ex_index bi1 1 Submit 5] 1 by simp
  moreover have "block_bounds_at_height_in_tx bi2 Submit 5 2 = block_bounds_at_height_in_tx ex_index Submit 5 2"
    using block_bounds_anchored [OF si, of _ ex_index _ 2 Submit 5 3 ex_sealed 256 bi2]
      ex_index_wf ex_sealed_pushable 2 by simp
  ultimately show ?thesis using 1 2 by auto
qed

text \<open>
  \<^bold>\<open>C19.\<close> Pushing a block. When the block of the next height extends the indexed tip, keeps every
  ledger the tip has and no total leaves 64 bits, the push succeeds and keeps the index well formed.
  The new entry of each ledger of the header has its transaction root, and its total is the total
  before the block plus the chunks of the block's transactions, each size rounded up to whole chunks
  (zero for Publish in the genesis block).
\<close>

theorem push_block_correct:
  assumes "set_insert dup_ins" and "index_wf bi n" and "pushable sb c bi n"
  shows "\<exists>bi'. push_block dup_ins sb c bi = Inr bi' \<and> index_wf bi' (Suc n) \<and>
    map_of (bi_hashes bi') n = Some (bh_block_hash (sb_header sb)) \<and>
    (\<forall>dl \<in> set (bh_data_ledgers (sb_header sb)). \<forall>l. dtl_ledger_id dl = ledger_u32 l \<longrightarrow>
       find_ledger l (ledgers_at bi' n) = Some
         \<lparr>lii_total_chunks = (if n = 0 \<and> l = Publish then 0
            else total_before bi l n + chunks_of c (get_ledger_txs (sb_transactions sb) l)),
          lii_tx_root = dtl_tx_root dl, lii_ledger = l\<rparr>)"
proof -
  have "pushed_item sb c bi n dl =
      \<lparr>lii_total_chunks = (if n = 0 \<and> l = Publish then 0
            else total_before bi l n + chunks_of c (get_ledger_txs (sb_transactions sb) l)),
          lii_tx_root = dtl_tx_root dl, lii_ledger = l\<rparr>"
    if "dtl_ledger_id dl = ledger_u32 l" for dl l
    using that by (simp add: pushed_item_def Let_def)
  then show ?thesis
    using push_block_wf [OF assms] by auto
qed

theorem push_block_correct_witness:
  "\<exists>bi'. push_block List.insert ex_sealed 256 ex_index = Inr bi' \<and> index_wf bi' 4 \<and>
     find_ledger Submit (ledgers_at bi' 3) = Some (ex_ledger 9 113 Submit)"
proof -
  have mem: "ex_data_ledger Submit 113 \<in> set (bh_data_ledgers (sb_header ex_sealed))"
    by (simp add: ex_sealed_def)
  have "total_before ex_index Submit 3 + chunks_of 256 (get_ledger_txs (sb_transactions ex_sealed) Submit) = 9"
    by code_simp
  moreover have "dtl_ledger_id (ex_data_ledger Submit 113) = ledger_u32 Submit"
    "dtl_tx_root (ex_data_ledger Submit 113) = 113"
    by (simp_all add: ex_data_ledger_def)
  ultimately show ?thesis
    using push_block_correct [OF hash_set.set_insert_axioms ex_index_wf ex_sealed_pushable] mem
    by (fastforce simp: ex_ledger_def)
qed

text \<open>
  \<^bold>\<open>C20.\<close> Truncation. Removing the blocks above a target height leaves a well-formed index that holds
  exactly the blocks up to the target, unchanged.
\<close>

theorem truncate_to_height_correct:
  assumes "index_wf bi n" and "t + 1 < 2 ^ 64"
  shows "\<exists>bi'. truncate_to_height t bi = Inr bi' \<and> index_wf bi' (min n (Suc t)) \<and>
    (\<forall>h \<le> t. get_item bi' h = get_item bi h) \<and> (\<forall>h > t. get_item bi' h = None)"
proof -
  obtain bi' where bi': "truncate_to_height t bi = Inr bi'" "index_wf bi' (min n (Suc t))" "agree_to bi' bi t"
    using truncate_wf [OF assms] by blast
  have "get_item bi' h = get_item bi h" if "h \<le> t" for h
    using agree_to_item [OF bi'(3) that] by (simp add: get_item_def)
  moreover have "get_item bi' h = None" if "h > t" for h
    using index_wf_no_item [OF bi'(2), of h] that by (simp add: get_item_def)
  ultimately show ?thesis using bi'(1,2) by blast
qed

theorem truncate_to_height_correct_witness:
  "\<exists>bi'. truncate_to_height 1 ex_index = Inr bi' \<and> index_wf bi' 2 \<and> get_item bi' 2 = None"
proof -
  have "(1 :: nat) + 1 < 2 ^ 64" "min 3 (Suc 1) = 2" "(1 :: nat) < 2" by simp_all
  with truncate_to_height_correct [OF ex_index_wf, of 1] show ?thesis by metis
qed


definition ex_item :: block_index_item where
  "ex_item = \<lparr>bii_block_hash = 77, bii_num_ledgers = 2,
     bii_ledgers = [ex_ledger 3 8 Publish, ex_ledger 300 9 Submit]\<rparr>"


text \<open>
  \<^bold>\<open>C22.\<close> The stand-alone byte codec of an index item. Decoding the encoding of an item returns its
  hash, ledger count, totals and roots, and marks every ledger as Publish: the encoding does not
  carry the ledger and the decoder leaves the default.
\<close>

theorem block_item_bytes_roundtrip:
  assumes "bii_num_ledgers item = length (bii_ledgers item)" and "length (bii_ledgers item) < 256"
    and "list_all (\<lambda>x. lii_total_chunks x < 2 ^ 64) (bii_ledgers item)"
  shows "block_item_from_bytes (block_item_to_bytes item) =
    Some (item\<lparr>bii_ledgers := map (\<lambda>x. x\<lparr>lii_ledger := Publish\<rparr>) (bii_ledgers item)\<rparr>)"
proof -
  have "unat (of_nat (length (bii_ledgers item)) :: byte) = length (bii_ledgers item)"
    using assms(2) by (simp add: unat_of_nat take_bit_eq_mod)
  then show ?thesis
    using assms(1) from_bytes_items [OF assms(3), of "[]"]
    by (cases item) (simp add: block_item_from_bytes_def block_item_to_bytes_def nth_append)
qed

theorem block_item_bytes_roundtrip_witness:
  "map_option bii_ledgers (block_item_from_bytes (block_item_to_bytes ex_item)) =
     Some [ex_ledger 3 8 Publish, ex_ledger 300 9 Publish]"
proof -
  have "bii_num_ledgers ex_item = length (bii_ledgers ex_item)" "length (bii_ledgers ex_item) < 256"
    "list_all (\<lambda>x. lii_total_chunks x < 2 ^ 64) (bii_ledgers ex_item)"
    by (simp_all add: ex_item_def ex_ledger_def)
  from block_item_bytes_roundtrip [OF this] show ?thesis
    by (simp add: ex_item_def ex_ledger_def)
qed

end
