(* ===== verification/Fork_Choice.thy ===== *)
theory Fork_Choice
  imports Block_Tree_Correct Block_Index_Correct
begin

text \<open>
  The fork-choice markers (\<open>crates/domain/src/models/forkchoice_markers.rs\<close>): the head, the block to
  migrate into the block index and the block to finalize, computed from the block tree and the block
  index or, at startup, from the index alone. The table of block headers is the argument
  \<open>header_by_hash\<close>. Heights are \<open>u64\<close>; the source uses saturating operations on them, of which only
  the addition in \<open>restore_cache_floor\<close> can reach the upper bound.
\<close>

section \<open>Heights\<close>

record fork_choice_markers =
  fc_head :: irys_block_header
  fc_migration_block :: irys_block_header
  fc_prune_block :: irys_block_header

datatype fork_choice_error =
    CanonicalChainEmpty
  | MissingIndexEntry nat
  | HeaderNotInDatabase h256
  | BlockIndexEmpty

definition compute_depth_delta :: "nat \<Rightarrow> nat \<Rightarrow> nat" where
  "compute_depth_delta prune_depth migration_depth = prune_depth - migration_depth"

definition compute_migration_height :: "nat \<Rightarrow> nat \<Rightarrow> nat \<Rightarrow> nat" where
  "compute_migration_height head_height tree_safe_height index_safe_height =
     min (max tree_safe_height index_safe_height) head_height"

definition compute_prune_height :: "nat \<Rightarrow> nat \<Rightarrow> nat \<Rightarrow> nat" where
  "compute_prune_height migration_height index_safe_height depth_delta =
     (let index_final_height = index_safe_height - depth_delta;
          desired_prune = migration_height - depth_delta in
      min (max desired_prune index_final_height) migration_height)"

definition finalized_height :: "nat \<Rightarrow> nat \<Rightarrow> nat \<Rightarrow> nat" where
  "finalized_height confirmed_height tree_depth migration_depth =
     (let depth_delta = tree_depth - migration_depth in confirmed_height - depth_delta)"

definition restore_cache_floor :: "nat \<Rightarrow> nat \<Rightarrow> nat \<Rightarrow> nat" where
  "restore_cache_floor confirmed_tip tree_depth migration_depth =
     (let precrash_head = min (confirmed_tip + migration_depth) (2 ^ 64 - 1) in
      precrash_head - (tree_depth - 1))"

definition entry_height :: "'b sealed_block \<Rightarrow> nat" where
  "entry_height b = bh_height (sb_header b)"

definition tree_head_height :: "'b sealed_block list \<Rightarrow> fork_choice_error + nat" where
  "tree_head_height chain =
     (if chain = [] then Inl CanonicalChainEmpty else Inr (entry_height (last chain)))"

definition tree_safe_height :: "'b sealed_block list \<Rightarrow> nat \<Rightarrow> fork_choice_error + nat" where
  "tree_safe_height chain migration_depth =
     (if length chain > migration_depth
      then Inr (entry_height (chain ! (length chain - 1 - migration_depth)))
      else case chain of [] \<Rightarrow> Inl CanonicalChainEmpty | b # _ \<Rightarrow> Inr (entry_height b))"

section \<open>Headers\<close>

definition load_header_from_db ::
  "(h256 \<Rightarrow> irys_block_header option) \<Rightarrow> h256 \<Rightarrow> fork_choice_error + irys_block_header"
where
  "load_header_from_db header_by_hash hash = ok_or (header_by_hash hash) (HeaderNotInDatabase hash)"

definition load_header ::
  "(h256 \<Rightarrow> irys_block_header option) \<Rightarrow> ('b, 'e, 'c, 'm) block_tree \<Rightarrow> h256 \<Rightarrow>
   fork_choice_error + irys_block_header"
where
  "load_header header_by_hash t hash =
     (case get_block hash t of
        Some header \<Rightarrow> Inr header
      | None \<Rightarrow> load_header_from_db header_by_hash hash)"

definition marker_from_index_height ::
  "(h256 \<Rightarrow> irys_block_header option) \<Rightarrow> block_index \<Rightarrow> nat \<Rightarrow> fork_choice_error + irys_block_header"
where
  "marker_from_index_height header_by_hash bi height =
     rbind (ok_or (get_item bi height) (MissingIndexEntry height)) (\<lambda>item.
     load_header_from_db header_by_hash (bii_block_hash item))"

definition block_at_height ::
  "(h256 \<Rightarrow> irys_block_header option) \<Rightarrow> nat \<Rightarrow> 'b sealed_block list \<Rightarrow> ('b, 'e, 'c, 'm) block_tree \<Rightarrow>
   block_index \<Rightarrow> fork_choice_error + irys_block_header"
where
  "block_at_height header_by_hash height chain t bi =
     (case find (\<lambda>b. entry_height b = height) chain of
        Some b \<Rightarrow> load_header header_by_hash t (bh_block_hash (sb_header b))
      | None \<Rightarrow> marker_from_index_height header_by_hash bi height)"

section \<open>Markers\<close>

definition from_block_tree ::
  "(h256 \<Rightarrow> irys_block_header option) \<Rightarrow> ('b, 'e, 'c, 'm) block_tree \<Rightarrow> block_index \<Rightarrow> nat \<Rightarrow> nat \<Rightarrow>
   fork_choice_error + fork_choice_markers"
where
  "from_block_tree header_by_hash t bi migration_depth prune_depth =
     (let chain = fst (get_canonical_chain t) in
      rbind (ensure (chain \<noteq> []) CanonicalChainEmpty) (\<lambda>_.
      rbind (tree_head_height chain) (\<lambda>head_height.
      rbind (tree_safe_height chain migration_depth) (\<lambda>safe_height.
      let index_safe_height = latest_height bi;
          migration_height = compute_migration_height head_height safe_height index_safe_height;
          depth_delta = compute_depth_delta prune_depth migration_depth;
          prune_height = compute_prune_height migration_height index_safe_height depth_delta in
      rbind (block_at_height header_by_hash head_height chain t bi) (\<lambda>head_block.
      rbind (block_at_height header_by_hash migration_height chain t bi) (\<lambda>migration_block.
      rbind (block_at_height header_by_hash prune_height chain t bi) (\<lambda>prune_block.
      Inr \<lparr>fc_head = head_block, fc_migration_block = migration_block,
           fc_prune_block = prune_block\<rparr>)))))))"

definition from_index ::
  "(h256 \<Rightarrow> irys_block_header option) \<Rightarrow> block_index \<Rightarrow> nat \<Rightarrow> nat \<Rightarrow>
   fork_choice_error + fork_choice_markers"
where
  "from_index header_by_hash bi migration_depth prune_depth =
     (if block_index_num_blocks bi = 0 then Inl BlockIndexEmpty
      else let head_height = latest_height bi;
               migration_height = head_height;
               prune_height = finalized_height head_height prune_depth migration_depth in
        rbind (marker_from_index_height header_by_hash bi head_height) (\<lambda>head_block.
        rbind (marker_from_index_height header_by_hash bi migration_height) (\<lambda>migration_block.
        rbind (marker_from_index_height header_by_hash bi prune_height) (\<lambda>prune_block.
        Inr \<lparr>fc_head = head_block, fc_migration_block = migration_block,
             fc_prune_block = prune_block\<rparr>))))"

section \<open>The canonical chain as a segment of heights\<close>

text \<open>The lowest height of the cached chain.\<close>

definition chain_floor :: "('b, 'e, 'c, 'm) block_tree \<Rightarrow> nat" where
  "chain_floor t =
     Suc (bht (blocks t) (tip t)) - min (Suc (block_tree_depth t)) (depth (blocks t) (tip t))"

lemma chain_heights:
  assumes inv: "tree_inv t"
  shows "map entry_height (fst (get_canonical_chain t)) = [chain_floor t ..< Suc (bht (blocks t) (tip t))]"
proof -
  let ?bs = "blocks t" and ?d = "Suc (block_tree_depth t)"
  note wf = tree_invD(1) [OF inv]
  obtain e where e: "map_of ?bs (tip t) = Some e"
    using chain_inv_tip [OF tree_invD(2) [OF inv]] by blast
  note le = depth_le_height [OF wf e]
  have "map entry_height (fst (get_canonical_chain t)) =
      rev (take ?d (map (\<lambda>p. height_of (snd p)) (ancestry ?bs (tip t))))"
    unfolding get_canonical_chain_def longest_chain_cache_eq [OF inv] fst_conv rev_map take_map [symmetric]
    by (simp add: rev_map take_map comp_def entry_height_def)
  also have "\<dots> = rev (take ?d (rev [Suc (bht ?bs (tip t)) - depth ?bs (tip t) ..< Suc (bht ?bs (tip t))]))"
    unfolding ancestry_heights [OF wf e] ..
  also have "\<dots> = drop (depth ?bs (tip t) - ?d) [Suc (bht ?bs (tip t)) - depth ?bs (tip t) ..< Suc (bht ?bs (tip t))]"
    using le by (simp add: take_rev del: upt_Suc)
  also have "\<dots> = [chain_floor t ..< Suc (bht ?bs (tip t))]"
    using le by (simp add: drop_upt chain_floor_def min_def del: upt_Suc)
  finally show ?thesis .
qed

lemma chain_floor_le: "tree_inv t \<Longrightarrow> chain_floor t \<le> bht (blocks t) (tip t)"
proof -
  assume inv: "tree_inv t"
  obtain e where e: "map_of (blocks t) (tip t) = Some e"
    using chain_inv_tip [OF tree_invD(2) [OF inv]] by blast
  show ?thesis
    using depth_Some [OF tree_invD(1) [OF inv] e] by (simp add: chain_floor_def)
qed

lemma chain_member:
  assumes inv: "tree_inv t" and "b \<in> set (fst (get_canonical_chain t))"
  shows "\<exists>e. map_of (blocks t) (bh_block_hash (sb_header b)) = Some e \<and> bm_block e = b \<and>
    banc (blocks t) (bh_block_hash (sb_header b)) (tip t)"
proof -
  note wf = tree_invD(1) [OF inv]
  obtain x e where "(x, e) \<in> set (ancestry (blocks t) (tip t))" "b = bm_block e"
    using assms(2) unfolding get_canonical_chain_def longest_chain_cache_eq [OF inv]
    by (auto dest: in_set_takeD)
  then show ?thesis
    using ancestry_set [OF wf] ancestry_hash [OF wf] by blast
qed

lemma block_at_chain_height:
  assumes inv: "tree_inv t" and h: "chain_floor t \<le> h" "h \<le> bht (blocks t) (tip t)"
  shows "\<exists>hdr e. block_at_height db h (fst (get_canonical_chain t)) t bi = Inr hdr \<and>
    bh_height hdr = h \<and> map_of (blocks t) (bh_block_hash hdr) = Some e \<and> header_of e = hdr \<and>
    banc (blocks t) (bh_block_hash hdr) (tip t)"
proof -
  let ?c = "fst (get_canonical_chain t)"
  have "h \<in> set (map entry_height ?c)"
    unfolding chain_heights [OF inv] using h by (simp del: upt_Suc)
  then have "find (\<lambda>b. entry_height b = h) ?c \<noteq> None"
    by (auto simp: find_None_iff)
  then obtain b where f: "find (\<lambda>b. entry_height b = h) ?c = Some b" by blast
  then have b: "b \<in> set ?c" "entry_height b = h" by (auto simp: find_Some_iff)
  from chain_member [OF inv b(1)] obtain e where
    e: "map_of (blocks t) (bh_block_hash (sb_header b)) = Some e" "bm_block e = b"
      "banc (blocks t) (bh_block_hash (sb_header b)) (tip t)" by blast
  then show ?thesis
    using f b(2) by (simp add: block_at_height_def load_header_def get_block_def entry_height_def)
qed

lemma tree_safe_height_ok:
  assumes inv: "tree_inv t"
  shows "tree_head_height (fst (get_canonical_chain t)) = Inr (bht (blocks t) (tip t))"
    and "tree_safe_height (fst (get_canonical_chain t)) d = Inr (max (chain_floor t) (bht (blocks t) (tip t) - d))"
    and "fst (get_canonical_chain t) \<noteq> []"
proof -
  let ?c = "fst (get_canonical_chain t)" and ?H = "bht (blocks t) (tip t)"
  note hs = chain_heights [OF inv] and fl = chain_floor_le [OF inv]
  have ne: "map entry_height ?c \<noteq> []" unfolding hs using fl by (simp del: upt_Suc)
  then show ne': "?c \<noteq> []" by simp
  have len: "length ?c = Suc ?H - chain_floor t"
    using arg_cong [OF hs, of length] by (simp del: upt_Suc)
  have "entry_height (last ?c) = last (map entry_height ?c)" using ne' by (simp add: last_map)
  also have "\<dots> = ?H" unfolding hs using fl by simp
  finally show "tree_head_height ?c = Inr ?H" using ne' by (simp add: tree_head_height_def)
  have nth: "entry_height (?c ! i) = chain_floor t + i" if "i < length ?c" for i
  proof -
    have "entry_height (?c ! i) = map entry_height ?c ! i" using that by simp
    also have "\<dots> = chain_floor t + i" unfolding hs using that len by (simp del: upt_Suc)
    finally show ?thesis .
  qed
  have hd0: "entry_height (hd ?c) = chain_floor t" using nth [of 0] ne' by (simp add: hd_conv_nth)
  show "tree_safe_height ?c d = Inr (max (chain_floor t) (?H - d))"
  proof (cases "d < length ?c")
    case True
    then show ?thesis using nth [of "length ?c - 1 - d"] len fl by (simp add: tree_safe_height_def max_def)
  next
    case False
    then have "max (chain_floor t) (?H - d) = chain_floor t" using len fl by linarith
    then show ?thesis using False hd0 ne' by (cases ?c) (simp_all add: tree_safe_height_def)
  qed
qed

section \<open>The markers name canonical blocks\<close>

text \<open>The header table has the header of every indexed block.\<close>

definition headers_stored :: "(h256 \<Rightarrow> irys_block_header option) \<Rightarrow> block_index \<Rightarrow> bool" where
  "headers_stored db bi \<longleftrightarrow>
     list_all (\<lambda>(h, hash). case db hash of None \<Rightarrow> False
       | Some hdr \<Rightarrow> bh_height hdr = h \<and> bh_block_hash hdr = hash) (bi_hashes bi)"

lemma marker_from_index_ok:
  assumes "index_wf bi n" and "headers_stored db bi" and "h < n"
  shows "\<exists>hdr. marker_from_index_height db bi h = Inr hdr \<and> bh_height hdr = h \<and>
    map_of (bi_hashes bi) h = Some (bh_block_hash hdr)"
proof -
  obtain x where x: "map_of (bi_hashes bi) h = Some x" and
    "block_index_item_by_height bi h = Inr \<lparr>bii_block_hash = x, bii_num_ledgers = length (ledgers_at bi h),
       bii_ledgers = ledgers_at bi h\<rparr>"
    using index_wf_item [OF assms(1,3)] by blast
  then have item: "get_item bi h = Some \<lparr>bii_block_hash = x, bii_num_ledgers = length (ledgers_at bi h),
       bii_ledgers = ledgers_at bi h\<rparr>" by (simp add: get_item_def)
  have "(h, x) \<in> set (bi_hashes bi)" using x by (rule map_of_SomeD)
  then obtain hdr where "db x = Some hdr" "bh_height hdr = h" "bh_block_hash hdr = x"
    using assms(2) by (auto simp: headers_stored_def list_all_iff split: option.splits)
  then show ?thesis
    using item x by (simp add: marker_from_index_height_def load_header_from_db_def ok_or_def)
qed

lemma latest_height_wf: "index_wf bi n \<Longrightarrow> latest_height bi = n - 1"
  by (simp add: latest_height_def index_wf_latest)

lemma compute_heights:
  assumes "index \<le> head"
  shows "compute_migration_height head safe index \<le> head" and "index \<le> compute_migration_height head safe index"
    and "compute_prune_height (compute_migration_height head safe index) index (compute_depth_delta p m) =
      finalized_height (compute_migration_height head safe index) p m"
  using assms
  by (auto simp: compute_migration_height_def compute_prune_height_def finalized_height_def Let_def
      compute_depth_delta_def) (simp add: min_def)

text \<open>The height of the migration marker for an index of \<open>n\<close> blocks.\<close>

definition migration_target :: "('b, 'e, 'c, 'm) block_tree \<Rightarrow> nat \<Rightarrow> nat \<Rightarrow> nat" where
  "migration_target t md n =
     compute_migration_height (bht (blocks t) (tip t))
       (max (chain_floor t) (bht (blocks t) (tip t) - md)) (n - 1)"

lemma from_block_tree_ok:
  assumes inv: "tree_inv t" and ix: "index_wf bi n" "0 < n" "headers_stored db bi"
    and gap: "chain_floor t \<le> n" "n - 1 \<le> bht (blocks t) (tip t)"
  shows "\<exists>m. from_block_tree db t bi md pd = Inr m \<and>
    get_block (tip t) t = Some (fc_head m) \<and>
    bh_height (fc_migration_block m) = migration_target t md n \<and>
    banc (blocks t) (bh_block_hash (fc_migration_block m)) (tip t) \<and>
    get_block (bh_block_hash (fc_migration_block m)) t = Some (fc_migration_block m) \<and>
    bh_height (fc_prune_block m) = finalized_height (migration_target t md n) pd md"
proof -
  let ?c = "fst (get_canonical_chain t)" and ?H = "bht (blocks t) (tip t)"
  note wf = tree_invD(1) [OF inv] and fl = chain_floor_le [OF inv]
  define mig where "mig = migration_target t md n"
  note ch = compute_heights [OF gap(2), of "max (chain_floor t) (?H - md)",
      folded migration_target_def, folded mig_def]
  have fm: "chain_floor t \<le> mig" using fl by (auto simp: mig_def migration_target_def compute_migration_height_def)
  obtain hh he where hh: "block_at_height db ?H ?c t bi = Inr hh" "bh_height hh = ?H"
    "map_of (blocks t) (bh_block_hash hh) = Some he" "header_of he = hh" "banc (blocks t) (bh_block_hash hh) (tip t)"
    using block_at_chain_height [OF inv fl order_refl] by blast
  obtain mh me where mh: "block_at_height db mig ?c t bi = Inr mh" "bh_height mh = mig"
    "map_of (blocks t) (bh_block_hash mh) = Some me" "header_of me = mh" "banc (blocks t) (bh_block_hash mh) (tip t)"
    using block_at_chain_height [OF inv fm ch(1)] by blast
  have "bht (blocks t) (bh_block_hash hh) = ?H" using hh(2-4) by simp
  then have tip: "bh_block_hash hh = tip t" using banc_eq [OF wf hh(5)] by simp
  define pr where "pr = finalized_height mig pd md"
  have "\<exists>ph. block_at_height db pr ?c t bi = Inr ph \<and> bh_height ph = pr"
  proof (cases "chain_floor t \<le> pr")
    case True
    have "pr \<le> ?H" using ch(1) by (auto simp: pr_def finalized_height_def Let_def)
    then show ?thesis using block_at_chain_height [OF inv True] by blast
  next
    case False
    then have "pr < n" using gap(1) by simp
    moreover have "find (\<lambda>b. entry_height b = pr) ?c = None"
    proof -
      have "pr \<notin> set (map entry_height ?c)"
        unfolding chain_heights [OF inv] using False by (simp del: upt_Suc)
      then show ?thesis by (auto simp: find_None_iff)
    qed
    ultimately show ?thesis
      using marker_from_index_ok [OF ix(1,3), of pr] by (auto simp: block_at_height_def)
  qed
  then obtain ph where ph: "block_at_height db pr ?c t bi = Inr ph" "bh_height ph = pr" by blast
  have heights: "compute_migration_height ?H (max (chain_floor t) (?H - md)) (latest_height bi) = mig"
    "compute_prune_height mig (latest_height bi) (compute_depth_delta pd md) = pr"
    using ch(3) [of pd md] unfolding latest_height_wf [OF ix(1)] mig_def migration_target_def pr_def
    by simp_all
  have "from_block_tree db t bi md pd =
      Inr \<lparr>fc_head = hh, fc_migration_block = mh, fc_prune_block = ph\<rparr>"
    using tree_safe_height_ok [OF inv] hh(1) mh(1) ph(1)
    by (simp add: from_block_tree_def ensure_def Let_def heights)
  moreover have "get_block (tip t) t = Some hh"
    using hh(3,4) unfolding get_block_def tip by simp
  moreover have "get_block (bh_block_hash mh) t = Some mh"
    unfolding get_block_def mh(3) using mh(4) by simp
  ultimately show ?thesis
    using mh(2,5) ph(2) unfolding pr_def mig_def by simp
qed

section \<open>Properties\<close>

definition ex_tip_index :: block_index where
  "ex_tip_index = \<lparr>bi_hashes = [(0, 1)], bi_items = [(0, [ex_ledger 0 0 Publish])]\<rparr>"

definition ex_headers :: "h256 \<Rightarrow> irys_block_header option" where
  "ex_headers h = (if h = 1 then Some (sb_header (ex_block 1 0 0 1)) else None)"

lemma ex_tip_index_wf: "index_wf ex_tip_index 1"
  unfolding index_wf_lists by code_simp

lemma ex_headers_stored: "headers_stored ex_headers ex_tip_index"
  by code_simp

text \<open>
  \<^bold>\<open>C23.\<close> The fork-choice markers. When the block index reaches the lowest block of the cached chain
  and does not pass the tip, and the header table has the indexed headers, the markers can be
  computed. The head is the tip. The migration marker is the canonical block \<open>migration_depth\<close> below
  the tip, or at the lowest cached or the latest indexed height when that is higher. The finalized
  marker lies at the finalized height of the migration marker, and the three heights are in order.
\<close>

theorem fork_choice_markers_correct:
  assumes "tree_inv t" and "index_wf bi n" and "0 < n" and "headers_stored header_by_hash bi"
    and "chain_floor t \<le> n" and "n - 1 \<le> bht (blocks t) (tip t)"
  shows "\<exists>m. from_block_tree header_by_hash t bi md pd = Inr m \<and>
    get_block (tip t) t = Some (fc_head m) \<and>
    banc (blocks t) (bh_block_hash (fc_migration_block m)) (tip t) \<and>
    bh_height (fc_migration_block m) =
      min (max (max (chain_floor t) (bht (blocks t) (tip t) - md)) (n - 1)) (bht (blocks t) (tip t)) \<and>
    bh_height (fc_prune_block m) = finalized_height (bh_height (fc_migration_block m)) pd md \<and>
    bh_height (fc_prune_block m) \<le> bh_height (fc_migration_block m) \<and>
    bh_height (fc_migration_block m) \<le> bh_height (fc_head m)"
proof -
  obtain m where m: "from_block_tree header_by_hash t bi md pd = Inr m"
    "get_block (tip t) t = Some (fc_head m)" "bh_height (fc_migration_block m) = migration_target t md n"
    "banc (blocks t) (bh_block_hash (fc_migration_block m)) (tip t)"
    "bh_height (fc_prune_block m) = finalized_height (migration_target t md n) pd md"
    using from_block_tree_ok [OF assms] by blast
  have head: "bht (blocks t) (tip t) = bh_height (fc_head m)"
    using m(2) by (auto simp: get_block_def)
  have mt: "migration_target t md n =
      min (max (max (chain_floor t) (bht (blocks t) (tip t) - md)) (n - 1)) (bht (blocks t) (tip t))"
    unfolding migration_target_def compute_migration_height_def ..
  have "bh_height (fc_prune_block m) \<le> bh_height (fc_migration_block m)"
    unfolding m(3,5) by (simp add: finalized_height_def Let_def)
  moreover have "bh_height (fc_migration_block m) \<le> bh_height (fc_head m)"
    unfolding m(3) mt head [symmetric] by simp
  ultimately show ?thesis
    by (intro exI [of _ m] conjI m(1,2,4) m(3) [unfolded mt] m(5) [folded m(3)])
qed

theorem fork_choice_markers_correct_witness:
  "\<exists>m. from_block_tree ex_headers ex_tip ex_tip_index 1 2 = Inr m \<and>
     get_block (tip ex_tip) ex_tip = Some (fc_head m) \<and>
     bh_height (fc_prune_block m) \<le> bh_height (fc_migration_block m)"
proof -
  have "bht (blocks ex_tip) (tip ex_tip) = 1" by code_simp
  then have "chain_floor ex_tip \<le> 1" using chain_floor_le [OF ex_tip_inv] by simp
  with fork_choice_markers_correct [OF ex_tip_inv ex_tip_index_wf _ ex_headers_stored, of 1 2]
  obtain m where "from_block_tree ex_headers ex_tip ex_tip_index 1 2 = Inr m"
    "get_block (tip ex_tip) ex_tip = Some (fc_head m)"
    "bh_height (fc_prune_block m) \<le> bh_height (fc_migration_block m)"
    by simp blast
  then show ?thesis by blast
qed

text \<open>
  One notion of finality. With the migration depth at most the depth of the tree, the
  finalized height taken from a migrated frontier \<open>migration_depth\<close> below a head is the head less the
  depth of the tree. The floor to which a restarted node restores its tree is one above the finalized
  height of the indexed tip once the chain is as deep as the tree, and genesis before that.
\<close>

theorem finality_heights_agree:
  assumes "migration_depth \<le> tree_depth" and "0 < tree_depth" and "confirmed + migration_depth < 2 ^ 64"
  shows "finalized_height (head - migration_depth) tree_depth migration_depth = head - tree_depth \<and>
    restore_cache_floor confirmed tree_depth migration_depth =
      (if tree_depth \<le> confirmed + migration_depth
       then Suc (finalized_height confirmed tree_depth migration_depth) else 0)"
proof -
  have "min (confirmed + migration_depth) (2 ^ 64 - 1) = confirmed + migration_depth"
    using assms(3) by (simp add: min_def)
  then show ?thesis
    using assms(1,2) unfolding finalized_height_def restore_cache_floor_def Let_def by auto
qed

theorem finality_heights_agree_witness:
  "finalized_height (100 - 6) 50 6 = 50 \<and> restore_cache_floor 94 50 6 = Suc (finalized_height 94 50 6)"
proof -
  have "(6 :: nat) \<le> 50" "(0 :: nat) < 50" "(94 :: nat) + 6 < 2 ^ 64" "(50 :: nat) \<le> 94 + 6"
    "(100 :: nat) - 50 = 50"
    by simp_all
  with finality_heights_agree [of 6 50 94 100] show ?thesis by metis
qed

end
