(* ===== verification/Token_Supply.thy ===== *)
theory Token_Supply
  imports Storage_Pricing Fork_Choice
begin

text \<open>
  Emission of tokens: the halving curve (\<open>crates/reward-curve/src/lib.rs\<close>), the reward of a block and
  its split (\<open>crates/actors/src/block_reward.rs\<close>), and the running total the node keeps, with its
  backfill after a restart (\<open>crates/domain/src/models/supply_state.rs\<close>,
  \<open>crates/actors/src/supply_state_calculator.rs\<close>).

  Amounts are natural numbers below \<open>2 ^ 256\<close>. The wall clock of the curve is \<open>u128\<close>; the products of
  a height and a block time, both \<open>u64\<close>, cannot overflow it.
\<close>

section \<open>The halving curve\<close>

record halving_curve =
  hc_inflation_cap :: nat
  hc_half_life_secs :: nat

datatype emission_error =
    HalfLifeZero
  | NewBeforePrev
  | Math math_error

definition math :: "math_error + 'a \<Rightarrow> emission_error + 'a" where
  "math r = (case r of Inl e \<Rightarrow> Inl (Math e) | Inr x \<Rightarrow> Inr x)"

lemma math_iff [simp]: "math r = Inr x \<longleftrightarrow> r = Inr x"
  by (simp add: math_def split: sum.splits)

definition decay_factor :: "nat \<Rightarrow> nat \<Rightarrow> emission_error + nat" where
  "decay_factor t_secs half_life =
     (if half_life = 0 then Inl HalfLifeZero
      else let q = t_secs div half_life; f_secs = t_secs mod half_life in
        rbind (if q = 0 then Inr TOKEN_SCALE
               else if 60 \<le> q then Inr 0
               else math (safe_div TOKEN_SCALE (2 ^ q))) (\<lambda>decay_q_fp18.
        if f_secs = 0 \<or> decay_q_fp18 = 0 then Inr decay_q_fp18
        else rbind (math (mul_div LN2_FP18 f_secs half_life)) (\<lambda>x_fp18.
             rbind (math (exp_neg_fp18 x_fp18)) (\<lambda>decay_f_fp18.
             math (mul_div decay_q_fp18 decay_f_fp18 TOKEN_SCALE)))))"

definition emitted_until :: "halving_curve \<Rightarrow> nat \<Rightarrow> emission_error + nat" where
  "emitted_until curve t =
     rbind (decay_factor t (hc_half_life_secs curve)) (\<lambda>decay_fp18.
     rbind (math (safe_sub TOKEN_SCALE decay_fp18)) (\<lambda>one_minus.
     math (mul_div (hc_inflation_cap curve) one_minus TOKEN_SCALE)))"

definition reward_between :: "halving_curve \<Rightarrow> nat \<Rightarrow> nat \<Rightarrow> emission_error + nat" where
  "reward_between curve prev_ts new_ts =
     (if new_ts < prev_ts then Inl NewBeforePrev
      else if prev_ts = new_ts \<or> hc_inflation_cap curve = 0 then Inr 0
      else rbind (emitted_until curve prev_ts) (\<lambda>emitted_prev.
           rbind (emitted_until curve new_ts) (\<lambda>emitted_new.
           math (safe_sub emitted_new emitted_prev))))"

section \<open>Block rewards\<close>

definition full_block_reward :: "halving_curve \<Rightarrow> nat \<Rightarrow> nat \<Rightarrow> emission_error + nat" where
  "full_block_reward curve block_time_secs parent_height =
     (let parent_block_secs = parent_height * block_time_secs in
      reward_between curve parent_block_secs (parent_block_secs + block_time_secs))"

definition block_emission :: "halving_curve \<Rightarrow> nat \<Rightarrow> nat \<Rightarrow> emission_error + nat" where
  "block_emission curve block_time_secs height =
     (if height = 0 then Inr 0 else full_block_reward curve block_time_secs (height - 1))"

record block_reward_split =
  brs_miner :: nat
  brs_treasury :: nat

definition split_block_reward ::
  "nat \<Rightarrow> irys_hardfork_config \<Rightarrow> nat \<Rightarrow> bool \<Rightarrow> math_error + block_reward_split"
where
  "split_block_reward full_reward hardforks block_timestamp is_capacity_poa =
     (case (is_capacity_poa, delta_for_block hardforks block_timestamp) of
        (True, Some delta) \<Rightarrow>
          rbind (mul_div full_reward (de_capacity_chunk_reward_percent delta) PRECISION_SCALE) (\<lambda>miner.
          rbind (safe_sub full_reward miner) (\<lambda>treasury.
          Inr \<lparr>brs_miner = miner, brs_treasury = treasury\<rparr>))
      | _ \<Rightarrow> Inr \<lparr>brs_miner = full_reward, brs_treasury = 0\<rparr>)"

section \<open>The supply state\<close>

record persisted_supply_state =
  ps_backfill_height :: "nat option"
  ps_backfill_value :: nat
  ps_first_migration_height :: "nat option"

definition write_optional_u64 :: "nat option \<Rightarrow> byte list" where
  "write_optional_u64 v = (case v of Some h \<Rightarrow> 1 # le_bytes 8 h | None \<Rightarrow> 0 # le_bytes 8 0)"

definition STATE_SIZE :: nat where "STATE_SIZE = 50"

definition persisted_to_bytes :: "persisted_supply_state \<Rightarrow> byte list" where
  "persisted_to_bytes p =
     write_optional_u64 (ps_backfill_height p) @ le_bytes 32 (ps_backfill_value p) @
     write_optional_u64 (ps_first_migration_height p)"

definition persisted_from_bytes :: "byte list \<Rightarrow> persisted_supply_state option" where
  "persisted_from_bytes bs =
     (if length bs \<noteq> STATE_SIZE then None
      else Some
        \<lparr>ps_backfill_height = (if bs ! 0 \<noteq> 0 then Some (le_value (take 8 (drop 1 bs))) else None),
         ps_backfill_value = le_value (take 32 (drop 9 bs)),
         ps_first_migration_height =
           (if bs ! 41 \<noteq> 0 then Some (le_value (take 8 (drop 42 bs))) else None)\<rparr>)"

definition default_persisted :: persisted_supply_state where
  "default_persisted = \<lparr>ps_backfill_height = None, ps_backfill_value = 0, ps_first_migration_height = None\<rparr>"

text \<open>A missing file and an empty file both give the default; \<open>None\<close> is a parse error.\<close>

definition load_supply_file :: "byte list option \<Rightarrow> persisted_supply_state option" where
  "load_supply_file file =
     (case file of
        None \<Rightarrow> Some default_persisted
      | Some bytes \<Rightarrow> if bytes = [] then Some default_persisted else persisted_from_bytes bytes)"

record supply_state =
  ss_height :: nat
  ss_cumulative_emitted :: nat
  ss_first_migration_height :: "nat option"
  ss_ready :: bool
  ss_persisted_backfill_height :: "nat option"
  ss_persisted_backfill_value :: nat
  ss_file :: "byte list option"

definition new_supply_state :: "byte list option \<Rightarrow> supply_state option" where
  "new_supply_state file =
     (case load_supply_file file of
        None \<Rightarrow> None
      | Some p \<Rightarrow> Some
          \<lparr>ss_height = 0, ss_cumulative_emitted = 0, ss_first_migration_height = None, ss_ready = False,
           ss_persisted_backfill_height = ps_backfill_height p,
           ss_persisted_backfill_value = ps_backfill_value p, ss_file = file\<rparr>)"

datatype supply_error =
    OverlapsBackfill nat nat
  | HeightMismatch nat nat
  | SaveFailed
  | StaleBackfill nat nat
  | NotInIndex nat
  | HeaderMissing h256
  | EmissionError emission_error

definition rollback_reward :: "nat \<Rightarrow> nat \<Rightarrow> supply_state \<Rightarrow> supply_state" where
  "rollback_reward target_height reward_sum ss =
     ss\<lparr>ss_cumulative_emitted := ss_cumulative_emitted ss - reward_sum, ss_height := target_height\<rparr>"

definition add_block_reward :: "nat \<Rightarrow> nat \<Rightarrow> supply_state \<Rightarrow> supply_error + supply_state" where
  "add_block_reward height reward_amount ss =
     (let is_first = (ss_first_migration_height ss = None);
          write = (\<lambda>first_migration.
            ss\<lparr>ss_height := height,
               ss_cumulative_emitted := saturating_add (ss_cumulative_emitted ss) reward_amount,
               ss_first_migration_height := first_migration\<rparr>) in
      if is_first then
        (case ss_persisted_backfill_height ss of
           Some persisted_height \<Rightarrow>
             if height \<le> persisted_height then Inl (OverlapsBackfill height persisted_height)
             else Inr (write (Some height))
         | None \<Rightarrow> Inr (write (Some height)))
      else let expected = min (ss_height ss + 1) (2 ^ 64 - 1) in
        if height \<noteq> expected then Inl (HeightMismatch expected height)
        else Inr (write (ss_first_migration_height ss)))"

text \<open>Writing the state file may fail, in which case nothing has changed.\<close>

definition add_historical_sum_and_mark_ready ::
  "bool \<Rightarrow> nat \<Rightarrow> supply_state \<Rightarrow> supply_error + supply_state"
where
  "add_historical_sum_and_mark_ready save_ok historical_sum ss =
     (if ss_ready ss then Inr ss
      else let new_backfill_value = saturating_add (ss_persisted_backfill_value ss) historical_sum;
               new_backfill_height = (case ss_first_migration_height ss of
                 None \<Rightarrow> None | Some h \<Rightarrow> if h = 0 then None else Some (h - 1));
               persisted = \<lparr>ps_backfill_height = new_backfill_height, ps_backfill_value = new_backfill_value,
                            ps_first_migration_height = ss_first_migration_height ss\<rparr> in
        if \<not> save_ok then Inl SaveFailed
        else Inr (ss\<lparr>ss_file := Some (persisted_to_bytes persisted),
                    ss_cumulative_emitted := saturating_add (ss_cumulative_emitted ss) new_backfill_value,
                    ss_ready := True\<rparr>))"

section \<open>Backfill\<close>

definition get_block_emissions_batch ::
  "(h256 \<Rightarrow> irys_block_header option) \<Rightarrow> (nat \<Rightarrow> emission_error + nat) \<Rightarrow> block_index \<Rightarrow> nat \<Rightarrow> nat \<Rightarrow>
   supply_error + nat list"
where
  "get_block_emissions_batch header_by_hash emission bi start_height end_height =
     rbind (rmap (\<lambda>h. ok_or (map_option bii_block_hash (get_item bi h)) (NotInIndex h))
              [start_height..<Suc end_height]) (\<lambda>hashes.
     rmap (\<lambda>hash. rbind (ok_or (header_by_hash hash) (HeaderMissing hash)) (\<lambda>hdr.
             case emission (bh_height hdr) of Inl e \<Rightarrow> Inl (EmissionError e) | Inr x \<Rightarrow> Inr x)) hashes)"

definition BATCH_SIZE :: nat where "BATCH_SIZE = 1000"

function backfill_loop ::
  "(nat \<Rightarrow> nat \<Rightarrow> supply_error + nat list) \<Rightarrow> nat \<Rightarrow> nat \<Rightarrow> nat \<Rightarrow> supply_error + nat"
where
  "backfill_loop batch height backfill_end historical_sum =
     (if height \<le> backfill_end then
        let batch_end = min (height + (BATCH_SIZE - 1)) backfill_end in
        rbind (batch height batch_end) (\<lambda>emissions.
        backfill_loop batch (batch_end + 1) backfill_end (fold (\<lambda>e s. saturating_add s e) emissions historical_sum))
      else Inr historical_sum)"
  by auto
termination
  by (relation "measure (\<lambda>(_, height, backfill_end, _). Suc backfill_end - height)") auto

declare backfill_loop.simps [simp del]

text \<open>
  \<open>do_backfill\<close> once the first migration height is known and when it is not cancelled. It waits for
  that height, reads the index and the headers and ends in the call that marks the state ready; the
  migrations that run meanwhile are separate steps on the supply state.
\<close>

definition backfill_sum ::
  "(h256 \<Rightarrow> irys_block_header option) \<Rightarrow> (nat \<Rightarrow> emission_error + nat) \<Rightarrow> block_index \<Rightarrow>
   nat option \<Rightarrow> nat \<Rightarrow> supply_error + nat"
where
  "backfill_sum header_by_hash emission bi persisted_height first_migration_height =
     (case persisted_height of
        Some p \<Rightarrow>
          if first_migration_height \<le> p then Inl (StaleBackfill p first_migration_height)
          else if first_migration_height - 1 < p + 1 \<or> first_migration_height = 0 then Inr 0
          else backfill_loop (get_block_emissions_batch header_by_hash emission bi)
                 (p + 1) (first_migration_height - 1) 0
      | None \<Rightarrow>
          if first_migration_height = 0 then Inr 0
          else backfill_loop (get_block_emissions_batch header_by_hash emission bi)
                 0 (first_migration_height - 1) 0)"

definition do_backfill ::
  "(h256 \<Rightarrow> irys_block_header option) \<Rightarrow> (nat \<Rightarrow> emission_error + nat) \<Rightarrow> bool \<Rightarrow> block_index \<Rightarrow>
   supply_state \<Rightarrow> nat \<Rightarrow> supply_error + supply_state"
where
  "do_backfill header_by_hash emission save_ok bi ss first_migration_height =
     rbind (backfill_sum header_by_hash emission bi (ss_persisted_backfill_height ss) first_migration_height)
       (\<lambda>historical_sum. add_historical_sum_and_mark_ready save_ok historical_sum ss)"

section \<open>The curve\<close>

lemma emitted_until_start: "hc_half_life_secs curve \<noteq> 0 \<Longrightarrow> emitted_until curve 0 = Inr 0"
  by (simp add: emitted_until_def decay_factor_def safe_simps math_def)

lemma emitted_until_cap: "emitted_until curve t = Inr e \<Longrightarrow> e \<le> hc_inflation_cap curve"
proof -
  assume "emitted_until curve t = Inr e"
  then obtain d where e: "e = hc_inflation_cap curve * (TOKEN_SCALE - d) div TOKEN_SCALE"
    by (auto simp: emitted_until_def rbind_Inr_iff safe_iff)
  define om where "om = TOKEN_SCALE - d"
  have om: "om \<le> TOKEN_SCALE" "e = hc_inflation_cap curve * om div TOKEN_SCALE"
    using e by (simp_all add: om_def)
  have "hc_inflation_cap curve * om div TOKEN_SCALE \<le> hc_inflation_cap curve * TOKEN_SCALE div TOKEN_SCALE"
    using om(1) by (intro div_le_mono mult_le_mono) simp_all
  then show ?thesis using om(2) by simp
qed

lemma reward_between_refl [simp]: "reward_between curve t t = Inr 0"
  by (simp add: reward_between_def)

lemma reward_between_add:
  assumes "reward_between curve a b = Inr x" and "reward_between curve b c = Inr y"
  shows "reward_between curve a c = Inr (x + y)"
proof (cases "a = b \<or> b = c \<or> hc_inflation_cap curve = 0")
  case True
  then show ?thesis
    using assms by (auto simp: reward_between_def split: if_splits)
next
  case False
  have ab: "a < b" and bc: "b < c"
    using assms False by (auto simp: reward_between_def split: if_splits)
  obtain ea eb ec where "emitted_until curve a = Inr ea" "emitted_until curve b = Inr eb"
    "emitted_until curve c = Inr ec" "x = eb - ea" "ea \<le> eb" "y = ec - eb" "eb \<le> ec"
    using assms False ab bc by (auto simp: reward_between_def rbind_Inr_iff safe_iff split: if_splits)
  then show ?thesis
    using False ab bc by (simp add: reward_between_def safe_simps)
qed

lemma reward_between_cap: "reward_between curve a b = Inr x \<Longrightarrow> x \<le> hc_inflation_cap curve"
  by (auto simp: reward_between_def rbind_Inr_iff safe_iff split: if_splits dest: emitted_until_cap)

lemma block_emission_Suc: "block_emission curve bt (Suc n) = reward_between curve (n * bt) (Suc n * bt)"
  by (simp add: block_emission_def full_block_reward_def Let_def add.commute)

lemma rmap_append:
  "rmap f (xs @ ys) = rbind (rmap f xs) (\<lambda>as. rbind (rmap f ys) (\<lambda>bs. Inr (as @ bs)))"
proof (induction xs)
  case Nil
  show ?case by (cases "rmap f ys") simp_all
next
  case (Cons x xs)
  then show ?case by (simp add: rbind_assoc)
qed

lemma emissions_telescope:
  assumes "rmap (block_emission curve bt) [0..<Suc n] = Inr es"
  shows "reward_between curve 0 (n * bt) = Inr (sum_list es)"
  using assms
proof (induction n arbitrary: es)
  case 0
  then show ?case by (auto simp: block_emission_def)
next
  case (Suc n)
  then obtain as e where "rmap (block_emission curve bt) [0..<Suc n] = Inr as"
    "block_emission curve bt (Suc n) = Inr e" "es = as @ [e]"
    by (auto simp: rmap_append rbind_Inr_iff upt_Suc_append)
  with Suc.IH reward_between_add show ?case by (simp add: block_emission_Suc)
qed

section \<open>Sums of emissions\<close>

definition emitted_between :: "(nat \<Rightarrow> nat) \<Rightarrow> nat \<Rightarrow> nat \<Rightarrow> nat" where
  "emitted_between em a b = sum_list (map em [a..<b])"

lemma emitted_between_split: "a \<le> b \<Longrightarrow> b \<le> c \<Longrightarrow> emitted_between em a b + emitted_between em b c = emitted_between em a c"
  using upt_add_eq_append [of a b "c - b"] by (simp add: emitted_between_def)

lemma emitted_between_Suc: "a \<le> b \<Longrightarrow> emitted_between em a (Suc b) = emitted_between em a b + em b"
  by (simp add: emitted_between_def)

lemma emitted_between_empty [simp]: "emitted_between em a a = 0"
  by (simp add: emitted_between_def)

lemma emitted_between_zero [simp]: "emitted_between (\<lambda>_. 0) a b = 0"
  by (simp add: emitted_between_def map_replicate_const sum_list_replicate)

lemma emitted_between_le: "b \<le> n \<Longrightarrow> emitted_between em a b \<le> emitted_between em 0 n"
proof (cases "a \<le> b")
  case True
  assume "b \<le> n"
  with True show ?thesis
    using emitted_between_split [of 0 a b em] emitted_between_split [of 0 b n em] by linarith
qed (simp add: emitted_between_def)

lemma fold_saturating:
  "s + sum_list es < U256_BOUND \<Longrightarrow> fold (\<lambda>e s. saturating_add s e) es s = s + sum_list es"
  by (induction es arbitrary: s) (simp_all add: saturating_add_def add.assoc)

lemma backfill_loop_sum:
  assumes batch: "\<And>a b. lo \<le> a \<Longrightarrow> b \<le> hi \<Longrightarrow> batch a b = Inr (map em [a..<Suc b])"
    and fit: "emitted_between em 0 (Suc hi) < U256_BOUND"
    and "lo \<le> h" and "h \<le> Suc hi"
  shows "backfill_loop batch h hi (emitted_between em lo h) = Inr (emitted_between em lo (Suc hi))"
  using assms(3,4)
proof (induction "Suc hi - h" arbitrary: h rule: less_induct)
  case less
  show ?case
  proof (cases "h \<le> hi")
    case False
    then have "h = Suc hi" using less.prems by simp
    then show ?thesis by (simp add: backfill_loop.simps [of batch "Suc hi" hi])
  next
    case True
    define e where "e = min (h + (BATCH_SIZE - 1)) hi"
    have e: "h \<le> e" "e \<le> hi" using True by (auto simp: e_def)
    have all: "emitted_between em lo h + sum_list (map em [h..<Suc e]) = emitted_between em lo (Suc e)"
      using emitted_between_split [of lo h "Suc e" em] less.prems(1) e by (simp add: emitted_between_def)
    have "emitted_between em lo (Suc e) < U256_BOUND"
      using emitted_between_le [of "Suc e" "Suc hi" em lo] e fit by simp
    then have f: "fold (\<lambda>e s. saturating_add s e) (map em [h..<Suc e]) (emitted_between em lo h) =
        emitted_between em lo (Suc e)"
      using fold_saturating [of "emitted_between em lo h" "map em [h..<Suc e]"] all by simp
    have b: "batch h e = Inr (map em [h..<Suc e])" using batch [of h e] less.prems(1) e by simp
    have "backfill_loop batch h hi (emitted_between em lo h) =
        backfill_loop batch (e + 1) hi (emitted_between em lo (Suc e))"
      unfolding backfill_loop.simps [of batch h] Let_def e_def [symmetric] b rbind_simps f using True by simp
    also have "\<dots> = Inr (emitted_between em lo (Suc hi))"
      using less.hyps [of "Suc e"] e less.prems(1) by simp
    finally show ?thesis .
  qed
qed

lemma batch_ok:
  assumes "index_wf bi n" and "headers_stored db bi" and "b < n"
    and "\<And>h. h < n \<Longrightarrow> emission h = Inr (em h)"
  shows "get_block_emissions_batch db emission bi a b = Inr (map em [a..<Suc b])"
proof -
  define hash where "hash h = the (map_of (bi_hashes bi) h)" for h
  have get: "get_item bi h = Some \<lparr>bii_block_hash = hash h, bii_num_ledgers = length (ledgers_at bi h),
      bii_ledgers = ledgers_at bi h\<rparr>" if "h < n" for h
    using index_wf_item [OF assms(1) that] by (auto simp: get_item_def hash_def)
  have hdr: "\<exists>hdr. db (hash h) = Some hdr \<and> bh_height hdr = h" if h: "h < n" for h
  proof -
    obtain x where x: "map_of (bi_hashes bi) h = Some x" using index_wf_hash [OF assms(1)] h by blast
    then have "(h, x) \<in> set (bi_hashes bi)" by (rule map_of_SomeD)
    then show ?thesis
      using assms(2) x by (auto simp: headers_stored_def list_all_iff hash_def split: option.splits)
  qed
  have 1: "rmap (\<lambda>h. ok_or (map_option bii_block_hash (get_item bi h)) (NotInIndex h)) [a..<Suc b] =
      Inr (map hash [a..<Suc b])"
    by (rule rmap_total) (use get assms(3) in \<open>auto simp: ok_or_def\<close>)
  have "list_all2 (\<lambda>x y. rbind (ok_or (db x) (HeaderMissing x)) (\<lambda>hdr. case emission (bh_height hdr) of
        Inl e \<Rightarrow> Inl (EmissionError e) | Inr x \<Rightarrow> Inr x) = Inr y)
      (map hash [a..<Suc b]) (map em [a..<Suc b])"
    unfolding list.rel_map
  proof (rule list.rel_refl_strong)
    fix h assume "h \<in> set [a..<Suc b]"
    then have h: "h < n" using assms(3) by auto
    then obtain x where "db (hash h) = Some x" "bh_height x = h" using hdr by blast
    then show "rbind (ok_or (db (hash h)) (HeaderMissing (hash h))) (\<lambda>hdr. case emission (bh_height hdr) of
        Inl e \<Rightarrow> Inl (EmissionError e) | Inr x \<Rightarrow> Inr x) = Inr (em h)"
      using assms(4) [OF h] by (simp add: ok_or_def)
  qed
  then show ?thesis
    unfolding get_block_emissions_batch_def 1 rbind_simps rmap_Inr_iff .
qed

section \<open>The state file\<close>

definition persisted_fits :: "persisted_supply_state \<Rightarrow> bool" where
  "persisted_fits p \<longleftrightarrow>
     ps_backfill_value p < U256_BOUND \<and>
     (case ps_backfill_height p of None \<Rightarrow> True | Some h \<Rightarrow> h < 2 ^ 64) \<and>
     (case ps_first_migration_height p of None \<Rightarrow> True | Some h \<Rightarrow> h < 2 ^ 64)"

lemma length_write_optional [simp]: "length (write_optional_u64 v) = 9"
  by (simp add: write_optional_u64_def split: option.splits)

lemma read_optional:
  assumes "case v of None \<Rightarrow> True | Some h \<Rightarrow> h < 2 ^ 64"
  shows "(if (write_optional_u64 v @ bs) ! 0 \<noteq> 0 then Some (le_value (take 8 (drop 1 (write_optional_u64 v @ bs)))) else None) = v"
  using assms by (cases v) (simp_all add: write_optional_u64_def)

lemma persisted_bytes_roundtrip:
  assumes "persisted_fits p"
  shows "persisted_from_bytes (persisted_to_bytes p) = Some p"
proof -
  let ?a = "write_optional_u64 (ps_backfill_height p)" and ?c = "write_optional_u64 (ps_first_migration_height p)"
  let ?v = "le_bytes 32 (ps_backfill_value p)"
  have bs: "persisted_to_bytes p = ?a @ ?v @ ?c" by (simp add: persisted_to_bytes_def)
  have len: "length (persisted_to_bytes p) = STATE_SIZE" by (simp add: bs STATE_SIZE_def)
  have fits: "ps_backfill_value p < 256 ^ 32" using assms by (simp add: persisted_fits_def)
  have h: "(if persisted_to_bytes p ! 0 \<noteq> 0 then Some (le_value (take 8 (drop 1 (persisted_to_bytes p)))) else None) =
      ps_backfill_height p"
    unfolding bs by (rule read_optional) (use assms in \<open>simp add: persisted_fits_def\<close>)
  have v: "le_value (take 32 (drop 9 (persisted_to_bytes p))) = ps_backfill_value p"
    unfolding bs using fits by simp
  have tail: "drop 41 (persisted_to_bytes p) = ?c @ []" unfolding bs by simp
  have nth: "persisted_to_bytes p ! 41 = (?c @ []) ! 0"
    unfolding tail [symmetric] using len by (simp add: STATE_SIZE_def)
  have dr: "drop 42 (persisted_to_bytes p) = drop 1 (?c @ [])"
    unfolding tail [symmetric] by simp
  have f: "(if persisted_to_bytes p ! 41 \<noteq> 0 then Some (le_value (take 8 (drop 42 (persisted_to_bytes p)))) else None) =
      ps_first_migration_height p"
    unfolding nth dr by (rule read_optional) (use assms in \<open>simp add: persisted_fits_def\<close>)
  show ?thesis
    unfolding persisted_from_bytes_def h v f using len by simp
qed

section \<open>The running total\<close>

definition backfilled :: "(nat \<Rightarrow> nat) \<Rightarrow> nat option \<Rightarrow> nat \<Rightarrow> bool" where
  "backfilled em height value \<longleftrightarrow>
     value = (case height of None \<Rightarrow> 0 | Some p \<Rightarrow> emitted_between em 0 (Suc p))"

definition file_ok :: "(nat \<Rightarrow> nat) \<Rightarrow> byte list option \<Rightarrow> bool" where
  "file_ok em file \<longleftrightarrow>
     (case load_supply_file file of None \<Rightarrow> False
      | Some p \<Rightarrow> backfilled em (ps_backfill_height p) (ps_backfill_value p))"

text \<open>
  Every height migrated since the start is counted once, the heights below the first of them only
  after the backfill, and the persisted value covers the heights it names.
\<close>

definition supply_inv :: "(nat \<Rightarrow> nat) \<Rightarrow> supply_state \<Rightarrow> bool" where
  "supply_inv em ss \<longleftrightarrow>
     backfilled em (ss_persisted_backfill_height ss) (ss_persisted_backfill_value ss) \<and>
     file_ok em (ss_file ss) \<and>
     (case ss_first_migration_height ss of
        None \<Rightarrow> ss_cumulative_emitted ss = 0 \<and> \<not> ss_ready ss
      | Some first \<Rightarrow>
          first \<le> Suc (ss_height ss) \<and> first < 2 ^ 64 \<and>
          (case ss_persisted_backfill_height ss of None \<Rightarrow> True | Some p \<Rightarrow> p < first) \<and>
          ss_cumulative_emitted ss =
            emitted_between em (if ss_ready ss then 0 else first) (Suc (ss_height ss)))"

text \<open>
  The steps of a node: migrating a block, rolling back to a height not below the last block before
  the first migration, completing the backfill, and restarting from the state file.
\<close>

inductive supply_step :: "(nat \<Rightarrow> nat) \<Rightarrow> supply_state \<Rightarrow> supply_state \<Rightarrow> bool" for em where
  step_migrate:
    "add_block_reward h (em h) ss = Inr ss' \<Longrightarrow> h < 2 ^ 64 - 1 \<Longrightarrow> supply_step em ss ss'"
| step_rollback:
    "ss_first_migration_height ss = Some first \<Longrightarrow> first \<le> Suc target \<Longrightarrow> target \<le> ss_height ss \<Longrightarrow>
     supply_step em ss (rollback_reward target (emitted_between em (Suc target) (Suc (ss_height ss))) ss)"
| step_backfill:
    "ss_first_migration_height ss = Some first \<Longrightarrow>
     add_historical_sum_and_mark_ready save_ok
       (emitted_between em (case ss_persisted_backfill_height ss of None \<Rightarrow> 0 | Some p \<Rightarrow> Suc p) first) ss = Inr ss' \<Longrightarrow>
     supply_step em ss ss'"
| step_restart:
    "new_supply_state (ss_file ss) = Some ss' \<Longrightarrow> supply_step em ss ss'"

lemma migrate_inv:
  assumes inv: "supply_inv em ss" and fit: "\<And>n. emitted_between em 0 n < U256_BOUND"
    and add: "add_block_reward h (em h) ss = Inr ss'" and h: "h < 2 ^ 64 - 1"
  shows "supply_inv em ss'"
proof (cases "ss_first_migration_height ss")
  case None
  have e: "em h < U256_BOUND" using fit [of "Suc h"] emitted_between_Suc [of 0 h em] by simp
  have ss': "ss' = ss\<lparr>ss_height := h, ss_cumulative_emitted := em h, ss_first_migration_height := Some h\<rparr>"
    and p: "case ss_persisted_backfill_height ss of None \<Rightarrow> True | Some p \<Rightarrow> p < h"
    using add None inv e
    by (auto simp: add_block_reward_def Let_def supply_inv_def saturating_add_def split: option.splits if_splits)
  show ?thesis
    using inv None p h emitted_between_Suc [of h h em] unfolding ss' supply_inv_def by simp
next
  case (Some first)
  have first: "first \<le> Suc (ss_height ss)" "first < 2 ^ 64"
    and cum: "ss_cumulative_emitted ss = emitted_between em (if ss_ready ss then 0 else first) (Suc (ss_height ss))"
    and p: "case ss_persisted_backfill_height ss of None \<Rightarrow> True | Some p \<Rightarrow> p < first"
    using inv Some by (simp_all add: supply_inv_def)
  let ?a = "if ss_ready ss then 0 else first"
  have heq: "h = min (ss_height ss + 1) (2 ^ 64 - 1)"
    and ss': "ss' = ss\<lparr>ss_height := h, ss_cumulative_emitted := saturating_add (ss_cumulative_emitted ss) (em h),
        ss_first_migration_height := Some first\<rparr>"
    using add Some by (auto simp: add_block_reward_def Let_def split: if_splits)
  have hs: "h = Suc (ss_height ss)" using heq h by simp
  have "emitted_between em ?a (Suc h) = ss_cumulative_emitted ss + em h"
    using emitted_between_Suc [of ?a h em] first(1) cum hs by simp
  moreover have "emitted_between em ?a (Suc h) < U256_BOUND"
    using emitted_between_le [of "Suc h" "Suc h" em ?a] fit [of "Suc h"] by simp
  ultimately have "saturating_add (ss_cumulative_emitted ss) (em h) = emitted_between em ?a (Suc h)"
    by (simp add: saturating_add_def)
  then show ?thesis using inv Some first p hs unfolding ss' supply_inv_def by simp
qed

lemma rollback_inv:
  assumes inv: "supply_inv em ss" and f: "ss_first_migration_height ss = Some first"
    and t: "first \<le> Suc target" "target \<le> ss_height ss"
  shows "supply_inv em (rollback_reward target (emitted_between em (Suc target) (Suc (ss_height ss))) ss)"
proof -
  let ?a = "if ss_ready ss then 0 else first"
  have cum: "ss_cumulative_emitted ss = emitted_between em ?a (Suc (ss_height ss))"
    using inv f by (simp add: supply_inv_def)
  have "emitted_between em ?a (Suc (ss_height ss)) =
      emitted_between em ?a (Suc target) + emitted_between em (Suc target) (Suc (ss_height ss))"
    by (rule emitted_between_split [symmetric]) (use t in auto)
  then have "ss_cumulative_emitted ss - emitted_between em (Suc target) (Suc (ss_height ss)) =
      emitted_between em ?a (Suc target)"
    using cum by simp
  then show ?thesis using inv f t unfolding supply_inv_def rollback_reward_def by simp
qed

lemma backfill_inv:
  assumes inv: "supply_inv em ss" and fit: "\<And>n. emitted_between em 0 n < U256_BOUND"
    and f: "ss_first_migration_height ss = Some first"
    and add: "add_historical_sum_and_mark_ready save_ok
       (emitted_between em (case ss_persisted_backfill_height ss of None \<Rightarrow> 0 | Some p \<Rightarrow> Suc p) first) ss = Inr ss'"
  shows "supply_inv em ss'"
proof (cases "ss_ready ss")
  case True
  then show ?thesis using add inv by (simp add: add_historical_sum_and_mark_ready_def)
next
  case False
  let ?start = "case ss_persisted_backfill_height ss of None \<Rightarrow> 0 | Some p \<Rightarrow> Suc p"
  let ?hs = "emitted_between em ?start first"
  have first: "first \<le> Suc (ss_height ss)" "first < 2 ^ 64"
    and cum: "ss_cumulative_emitted ss = emitted_between em first (Suc (ss_height ss))"
    and p: "case ss_persisted_backfill_height ss of None \<Rightarrow> True | Some p \<Rightarrow> p < first"
    using inv f False by (simp_all add: supply_inv_def)
  have st: "?start \<le> first" using p by (simp split: option.splits)
  have "ss_persisted_backfill_value ss = emitted_between em 0 ?start"
    using inv by (simp add: supply_inv_def backfilled_def split: option.splits)
  then have bv: "saturating_add (ss_persisted_backfill_value ss) ?hs = emitted_between em 0 first"
    using emitted_between_split [OF le0 st, of em] fit [of first] by (simp add: saturating_add_def)
  have tot: "saturating_add (ss_cumulative_emitted ss) (emitted_between em 0 first) =
      emitted_between em 0 (Suc (ss_height ss))"
    using emitted_between_split [OF le0 first(1), of em] cum fit [of "Suc (ss_height ss)"]
    by (simp add: saturating_add_def add.commute)
  define per where "per = \<lparr>ps_backfill_height = (if first = 0 then None else Some (first - 1)),
      ps_backfill_value = emitted_between em 0 first, ps_first_migration_height = Some first\<rparr>"
  have ss': "ss' = ss\<lparr>ss_file := Some (persisted_to_bytes per),
      ss_cumulative_emitted := emitted_between em 0 (Suc (ss_height ss)), ss_ready := True\<rparr>"
    using add False f bv tot
    by (auto simp: add_historical_sum_and_mark_ready_def Let_def per_def split: if_splits)
  have "first - 1 < 2 ^ 64" using first(2) by linarith
  then have "persisted_fits per" using fit first(2) by (simp add: per_def persisted_fits_def)
  then have "persisted_from_bytes (persisted_to_bytes per) = Some per" by (rule persisted_bytes_roundtrip)
  moreover have "persisted_to_bytes per \<noteq> []"
    by (simp add: persisted_to_bytes_def write_optional_u64_def split: option.splits)
  moreover have "backfilled em (ps_backfill_height per) (ps_backfill_value per)"
    by (simp add: per_def backfilled_def)
  ultimately have "file_ok em (Some (persisted_to_bytes per))"
    by (simp add: file_ok_def load_supply_file_def)
  then show ?thesis using inv f first p unfolding ss' supply_inv_def by simp
qed

lemma restart_inv:
  assumes inv: "supply_inv em ss" and new: "new_supply_state (ss_file ss) = Some ss'"
  shows "supply_inv em ss'"
  using inv new by (auto simp: supply_inv_def file_ok_def new_supply_state_def split: option.splits)

lemma supply_step_inv:
  assumes "supply_step em ss ss'" and "supply_inv em ss" and "\<And>n. emitted_between em 0 n < U256_BOUND"
  shows "supply_inv em ss'"
  using assms
proof (induction rule: supply_step.induct)
  case (step_migrate h ss ss')
  then show ?case using migrate_inv by blast
next
  case (step_rollback ss first target)
  then show ?case using rollback_inv by blast
next
  case (step_backfill ss first save_ok ss')
  then show ?case using backfill_inv by blast
next
  case (step_restart ss ss')
  then show ?case using restart_inv by blast
qed

lemma supply_reachable_inv:
  assumes "(supply_step em)\<^sup>*\<^sup>* ss ss'" and "supply_inv em ss" and "\<And>n. emitted_between em 0 n < U256_BOUND"
  shows "supply_inv em ss'"
  using assms(1,2) by (induction rule: rtranclp_induct) (use supply_step_inv assms(3) in blast)+

section \<open>Properties\<close>

text \<open>
  \<^bold>\<open>C26.\<close> Total emission. When the emissions of all blocks up to some height can be computed, they add
  up to exactly the reward of the whole span of time, so nothing is emitted twice or lost between
  blocks, and the sum never exceeds the inflation cap.
\<close>

theorem block_emissions_below_cap:
  assumes "rmap (block_emission curve block_time) [0..<Suc n] = Inr emissions"
  shows "reward_between curve 0 (n * block_time) = Inr (sum_list emissions) \<and>
    sum_list emissions \<le> hc_inflation_cap curve"
  using emissions_telescope [OF assms] reward_between_cap by blast

theorem block_emissions_below_cap_witness:
  "sum_list [0, 500, 250] \<le> hc_inflation_cap \<lparr>hc_inflation_cap = 1000, hc_half_life_secs = 12\<rparr>"
proof -
  let ?c = "\<lparr>hc_inflation_cap = 1000, hc_half_life_secs = 12\<rparr>"
  have "emitted_until ?c 0 = Inr 0" "emitted_until ?c 12 = Inr 500" "emitted_until ?c 24 = Inr 750"
    by (simp_all add: emitted_until_def decay_factor_def safe_simps math_def TOKEN_SCALE_def)
  then have "rmap (block_emission ?c 12) [0..<Suc 2] = Inr [0, 500, 250]"
    by (simp add: upt_rec block_emission_def full_block_reward_def reward_between_def safe_simps math_def
        numeral_2_eq_2 [symmetric])
  from block_emissions_below_cap [OF this] show ?thesis by blast
qed

text \<open>
  Splitting a reward. Whatever the kind of proof and the hardfork schedule, a split that is
  returned gives the miner and the treasury together exactly the full reward.
\<close>

theorem split_block_reward_conserves:
  assumes "split_block_reward full hardforks ts capacity = Inr split"
  shows "brs_miner split + brs_treasury split = full"
  using assms
  by (auto simp: split_block_reward_def rbind_Inr_iff safe_iff split: option.splits bool.splits)

theorem split_block_reward_conserves_witness:
  "(let split = \<lparr>brs_miner = 101, brs_treasury = 0\<rparr> in brs_miner split + brs_treasury split = 101)"
proof -
  have "split_block_reward 101 (cc_hardforks ex_config) 100 True = Inr \<lparr>brs_miner = 101, brs_treasury = 0\<rparr>"
    by (simp add: split_block_reward_def delta_for_block_def opt_filter_def ex_config_def)
  from split_block_reward_conserves [OF this] show ?thesis by (simp only: Let_def)
qed

text \<open>
  \<^bold>\<open>C27.\<close> The supply state counts every block once. From a fresh state, after any sequence of
  migrations, rollbacks that do not go below the last block before the first migration, backfills and
  restarts, a state that is ready holds the exact emission of all heights up to its own, and one that
  is not ready the emission of the heights migrated since the start. \<open>em\<close> is the emission of a height.
\<close>

theorem supply_state_exact:
  assumes "new_supply_state None = Some ss0" and "(supply_step em)\<^sup>*\<^sup>* ss0 ss"
    and "\<And>n. emitted_between em 0 n < U256_BOUND"
  shows "ss_first_migration_height ss = Some first \<longrightarrow>
    ss_cumulative_emitted ss = emitted_between em (if ss_ready ss then 0 else first) (Suc (ss_height ss))"
proof -
  have "supply_inv em ss0"
    using assms(1)
    by (auto simp: new_supply_state_def load_supply_file_def default_persisted_def supply_inv_def
        file_ok_def backfilled_def)
  from supply_reachable_inv [OF assms(2) this assms(3)] show ?thesis
    by (auto simp: supply_inv_def)
qed

theorem supply_state_exact_witness:
  "ss_cumulative_emitted
     \<lparr>ss_height = 7, ss_cumulative_emitted = 0, ss_first_migration_height = Some 7, ss_ready = False,
      ss_persisted_backfill_height = None, ss_persisted_backfill_value = 0, ss_file = None\<rparr> =
   emitted_between (\<lambda>_. 0) 7 (Suc 7)"
proof -
  let ?s0 = "\<lparr>ss_height = 0, ss_cumulative_emitted = 0, ss_first_migration_height = None, ss_ready = False,
      ss_persisted_backfill_height = None, ss_persisted_backfill_value = 0, ss_file = None\<rparr>"
  let ?s1 = "\<lparr>ss_height = 7, ss_cumulative_emitted = 0, ss_first_migration_height = Some 7, ss_ready = False,
      ss_persisted_backfill_height = None, ss_persisted_backfill_value = 0, ss_file = None\<rparr>"
  have new: "new_supply_state None = Some ?s0"
    by (simp add: new_supply_state_def load_supply_file_def default_persisted_def)
  have "add_block_reward 7 ((\<lambda>_. 0) (7 :: nat)) ?s0 = Inr ?s1"
    by (simp add: add_block_reward_def Let_def saturating_add_def)
  then have "(supply_step (\<lambda>_. 0))\<^sup>*\<^sup>* ?s0 ?s1"
    by (intro r_into_rtranclp step_migrate [where h = 7]) simp_all
  from supply_state_exact [OF new this, of 7] show ?thesis
    by simp
qed

text \<open>
  \<^bold>\<open>C28.\<close> The backfill sums what is missing. On a well-formed index whose headers are stored, for a
  first migration height within the index and above the persisted height, the backfill computes
  exactly the emission of the heights from the one after the persisted height, or genesis, to the one
  before the first migration.
\<close>

theorem backfill_sum_exact:
  assumes "index_wf bi n" and "headers_stored header_by_hash bi" and "first \<le> n"
    and "\<And>h. h < n \<Longrightarrow> emission h = Inr (em h)" and "\<And>k. emitted_between em 0 k < U256_BOUND"
    and "case persisted of None \<Rightarrow> True | Some p \<Rightarrow> p < first"
  shows "backfill_sum header_by_hash emission bi persisted first =
    Inr (emitted_between em (case persisted of None \<Rightarrow> 0 | Some p \<Rightarrow> Suc p) first)"
proof -
  have loop: "backfill_loop (get_block_emissions_batch header_by_hash emission bi) lo (first - 1) 0 =
      Inr (emitted_between em lo first)" if "lo < first" for lo
  proof -
    have "backfill_loop (get_block_emissions_batch header_by_hash emission bi) lo (first - 1)
        (emitted_between em lo lo) = Inr (emitted_between em lo (Suc (first - 1)))"
      by (rule backfill_loop_sum [OF batch_ok [OF assms(1,2)]]) (use assms(3-5) that in auto)
    then show ?thesis using that by simp
  qed
  show ?thesis
  proof (cases persisted)
    case None
    then show ?thesis using loop [of 0] by (cases "first = 0") (simp_all add: backfill_sum_def)
  next
    case (Some p)
    show ?thesis
    proof (cases "Suc p = first")
      case True
      then show ?thesis using Some by (auto simp: backfill_sum_def)
    next
      case False
      then have "Suc p < first" "\<not> first - 1 < p + 1" using Some assms(6) by auto
      then show ?thesis using Some loop [of "Suc p"] by (simp add: backfill_sum_def)
    qed
  qed
qed

theorem backfill_sum_exact_witness:
  "backfill_sum ex_headers (\<lambda>_. Inr 0) ex_tip_index None 1 = Inr (emitted_between (\<lambda>_. 0) 0 1)"
  using backfill_sum_exact [OF ex_tip_index_wf ex_headers_stored, of 1 "\<lambda>_. Inr 0" "\<lambda>_. 0" None]
  by simp

text \<open>
  \<^bold>\<open>C29.\<close> The state file. Encoding a persisted supply state whose fields fit their widths and decoding
  the bytes returns it, and any input that is not exactly 50 bytes long is refused.
\<close>

theorem persisted_supply_roundtrip:
  "(persisted_fits p \<longrightarrow> persisted_from_bytes (persisted_to_bytes p) = Some p) \<and>
   (length bytes \<noteq> 50 \<longrightarrow> persisted_from_bytes bytes = None)"
proof -
  have "length bytes \<noteq> 50 \<longrightarrow> persisted_from_bytes bytes = None"
    by (simp add: persisted_from_bytes_def STATE_SIZE_def)
  then show ?thesis using persisted_bytes_roundtrip by blast
qed

theorem persisted_supply_roundtrip_witness:
  "persisted_from_bytes (persisted_to_bytes default_persisted) = Some default_persisted \<and>
   persisted_from_bytes [1, 2, 3] = None"
proof -
  have "persisted_fits default_persisted" by (simp add: persisted_fits_def default_persisted_def)
  moreover have "length [1, 2, 3 :: byte] \<noteq> 50" by simp
  ultimately show ?thesis using persisted_supply_roundtrip by blast
qed

definition ex_supply :: supply_state where
  "ex_supply =
     \<lparr>ss_height = 12, ss_cumulative_emitted = 3, ss_first_migration_height = Some 10, ss_ready = False,
      ss_persisted_backfill_height = None, ss_persisted_backfill_value = 0, ss_file = None\<rparr>"

text \<open>
  \<^bold>\<open>C30.\<close> A rollback below the first migration during the backfill. A state that has migrated heights
  10 to 12 since its start is rolled back to height 5 before the backfill has completed, migrates the
  heights 6 to 12 of the other fork and then completes the backfill for the heights below 10. With an
  emission of one per height the result is 17, where 13 heights have been emitted: the subtraction
  saturates at zero, and the heights 6 to 9 are counted by the migration and by the backfill.
\<close>

theorem rollback_during_backfill_counts_twice:
  "supply_inv (\<lambda>_. 1) ex_supply \<and>
   (\<exists>ss. rbind (try_fold (\<lambda>h. add_block_reward h 1) [6..<13] (rollback_reward 5 7 ex_supply))
          (add_historical_sum_and_mark_ready True 10) = Inr ss \<and>
      ss_ready ss \<and> ss_height ss = 12 \<and> ss_cumulative_emitted ss = 17 \<and>
      emitted_between (\<lambda>_. 1) 0 13 = 13)"
proof -
  have "supply_inv (\<lambda>_. 1) ex_supply"
    by (simp add: supply_inv_def ex_supply_def backfilled_def file_ok_def load_supply_file_def
        default_persisted_def emitted_between_def upt_rec)
  then show ?thesis
    by (simp add: ex_supply_def rollback_reward_def upt_rec add_block_reward_def Let_def
        saturating_add_def add_historical_sum_and_mark_ready_def emitted_between_def)
qed

end
