(* ===== verification/Irys_Database.thy ===== *)
theory Irys_Database
  imports Block_Index_Correct
begin

text \<open>
  The consensus tables a migrated block is written to and the lookups that read them back: block
  headers and transaction headers (\<open>crates/database/src/database.rs\<close>), the metadata rows that name the
  height a transaction was included or promoted at (\<open>crates/database/src/db_index.rs\<close>), and the cached
  data roots with the blocks that refer to them (\<open>crates/database/src/db_cache.rs\<close>).

  A table is an association list. The database is written in transactions: an operation that returns
  an error leaves the tables as they were, so it is a function to an error or the new tables. Failures
  of the storage engine itself are not modelled.
\<close>

section \<open>Metadata rows\<close>

record data_transaction_metadata =
  dm_included_height :: "nat option"
  dm_promoted_height :: "nat option"

record commitment_transaction_metadata =
  cm_included_height :: "nat option"

datatype db_error =
    CommitmentWithoutInclusion h256
  | DataTxWithoutInclusion h256
  | PromotedWithoutInclusion h256
  | MissingCanonicalHeader nat h256
  | WrongCanonicalHeight nat h256 nat
  | NoGenesis

type_synonym data_metadata_table = "(h256 \<times> data_transaction_metadata) list"
type_synonym commitment_metadata_table = "(h256 \<times> commitment_transaction_metadata) list"

definition data_metadata_new :: data_transaction_metadata where
  "data_metadata_new = \<lparr>dm_included_height = None, dm_promoted_height = None\<rparr>"

definition commitment_metadata_new :: commitment_transaction_metadata where
  "commitment_metadata_new = \<lparr>cm_included_height = None\<rparr>"

definition commitment_is_included :: "commitment_transaction_metadata \<Rightarrow> bool" where
  "commitment_is_included md \<longleftrightarrow> cm_included_height md \<noteq> None"

definition data_is_included :: "data_transaction_metadata \<Rightarrow> bool" where
  "data_is_included md \<longleftrightarrow> dm_included_height md \<noteq> None"

definition get_commitment_tx_metadata ::
  "commitment_metadata_table \<Rightarrow> h256 \<Rightarrow> commitment_transaction_metadata option"
where
  "get_commitment_tx_metadata m tx_id = map_of m tx_id"

definition put_commitment_tx_metadata ::
  "h256 \<Rightarrow> commitment_transaction_metadata \<Rightarrow> commitment_metadata_table \<Rightarrow>
   db_error + commitment_metadata_table"
where
  "put_commitment_tx_metadata tx_id md m =
     (if \<not> commitment_is_included md then Inl (CommitmentWithoutInclusion tx_id)
      else Inr (AList.update tx_id md m))"

definition set_commitment_tx_included_height ::
  "nat \<Rightarrow> h256 \<Rightarrow> commitment_metadata_table \<Rightarrow> db_error + commitment_metadata_table"
where
  "set_commitment_tx_included_height height tx_id m =
     (let md = (case get_commitment_tx_metadata m tx_id of
                  None \<Rightarrow> commitment_metadata_new | Some md \<Rightarrow> md) in
      put_commitment_tx_metadata tx_id (md\<lparr>cm_included_height := Some height\<rparr>) m)"

definition clear_commitment_tx_metadata ::
  "h256 \<Rightarrow> commitment_metadata_table \<Rightarrow> commitment_metadata_table"
where
  "clear_commitment_tx_metadata tx_id m = AList.delete tx_id m"

definition batch_set_commitment_tx_included_height ::
  "h256 list \<Rightarrow> nat \<Rightarrow> commitment_metadata_table \<Rightarrow> db_error + commitment_metadata_table"
where
  "batch_set_commitment_tx_included_height tx_ids height m =
     try_fold (set_commitment_tx_included_height height) tx_ids m"

definition batch_clear_commitment_tx_metadata ::
  "h256 list \<Rightarrow> commitment_metadata_table \<Rightarrow> commitment_metadata_table"
where
  "batch_clear_commitment_tx_metadata tx_ids m = fold clear_commitment_tx_metadata tx_ids m"

definition get_data_tx_metadata :: "data_metadata_table \<Rightarrow> h256 \<Rightarrow> data_transaction_metadata option" where
  "get_data_tx_metadata m tx_id = map_of m tx_id"

definition put_data_tx_metadata ::
  "h256 \<Rightarrow> data_transaction_metadata \<Rightarrow> data_metadata_table \<Rightarrow> db_error + data_metadata_table"
where
  "put_data_tx_metadata tx_id md m =
     (if \<not> data_is_included md then Inl (DataTxWithoutInclusion tx_id)
      else Inr (AList.update tx_id md m))"

definition data_metadata_or_default :: "data_metadata_table \<Rightarrow> h256 \<Rightarrow> data_transaction_metadata" where
  "data_metadata_or_default m tx_id =
     (case get_data_tx_metadata m tx_id of None \<Rightarrow> data_metadata_new | Some md \<Rightarrow> md)"

definition set_data_tx_included_height ::
  "nat \<Rightarrow> h256 \<Rightarrow> data_metadata_table \<Rightarrow> db_error + data_metadata_table"
where
  "set_data_tx_included_height height tx_id m =
     put_data_tx_metadata tx_id
       ((data_metadata_or_default m tx_id)\<lparr>dm_included_height := Some height\<rparr>) m"

definition set_data_tx_promoted_height ::
  "nat \<Rightarrow> h256 \<Rightarrow> data_metadata_table \<Rightarrow> db_error + data_metadata_table"
where
  "set_data_tx_promoted_height height tx_id m =
     (let md = data_metadata_or_default m tx_id in
      if \<not> data_is_included md then Inl (PromotedWithoutInclusion tx_id)
      else put_data_tx_metadata tx_id (md\<lparr>dm_promoted_height := Some height\<rparr>) m)"

definition clear_data_tx_included_height :: "h256 \<Rightarrow> data_metadata_table \<Rightarrow> data_metadata_table" where
  "clear_data_tx_included_height tx_id m = AList.delete tx_id m"

definition clear_data_tx_promoted_height ::
  "h256 \<Rightarrow> data_metadata_table \<Rightarrow> db_error + data_metadata_table"
where
  "clear_data_tx_promoted_height tx_id m =
     (case get_data_tx_metadata m tx_id of
        None \<Rightarrow> Inr m
      | Some md \<Rightarrow>
          let md' = md\<lparr>dm_promoted_height := None\<rparr> in
          if data_is_included md' then put_data_tx_metadata tx_id md' m
          else Inr (AList.delete tx_id m))"

definition batch_set_data_tx_included_height ::
  "h256 list \<Rightarrow> nat \<Rightarrow> data_metadata_table \<Rightarrow> db_error + data_metadata_table"
where
  "batch_set_data_tx_included_height tx_ids height m =
     try_fold (set_data_tx_included_height height) tx_ids m"

definition batch_set_data_tx_promoted_height ::
  "h256 list \<Rightarrow> nat \<Rightarrow> data_metadata_table \<Rightarrow> db_error + data_metadata_table"
where
  "batch_set_data_tx_promoted_height tx_ids height m =
     try_fold (set_data_tx_promoted_height height) tx_ids m"

definition batch_clear_data_tx_promoted_height ::
  "h256 list \<Rightarrow> data_metadata_table \<Rightarrow> db_error + data_metadata_table"
where
  "batch_clear_data_tx_promoted_height tx_ids m = try_fold clear_data_tx_promoted_height tx_ids m"

definition batch_clear_data_tx_included_height ::
  "h256 list \<Rightarrow> data_metadata_table \<Rightarrow> data_metadata_table"
where
  "batch_clear_data_tx_included_height tx_ids m = fold clear_data_tx_included_height tx_ids m"

section \<open>The tables\<close>

record irys_db =
  db_index :: block_index
  db_block_headers :: "(h256 \<times> irys_block_header) list"
  db_poa_chunks :: "(h256 \<times> byte list) list"
  db_data_tx_headers :: "(h256 \<times> data_transaction_header) list"
  db_commitments :: "(h256 \<times> commitment_transaction) list"
  db_data_metadata :: data_metadata_table
  db_commitment_metadata :: commitment_metadata_table

definition insert_block_header :: "irys_block_header \<Rightarrow> irys_db \<Rightarrow> irys_db" where
  "insert_block_header block db =
     (let db' = (case bh_poa_chunk block of
                   Some chunk \<Rightarrow>
                     db\<lparr>db_poa_chunks := AList.update (bh_block_hash block) chunk (db_poa_chunks db)\<rparr>
                 | None \<Rightarrow> db) in
      db'\<lparr>db_block_headers :=
            AList.update (bh_block_hash block) (block\<lparr>bh_poa_chunk := None\<rparr>) (db_block_headers db')\<rparr>)"

definition block_header_by_hash :: "irys_db \<Rightarrow> h256 \<Rightarrow> bool \<Rightarrow> irys_block_header option" where
  "block_header_by_hash db block_hash include_chunk =
     map_option
       (\<lambda>b. if include_chunk then b\<lparr>bh_poa_chunk := map_of (db_poa_chunks db) block_hash\<rparr> else b)
       (map_of (db_block_headers db) block_hash)"

definition canonical_block_height_by_hash :: "irys_db \<Rightarrow> h256 \<Rightarrow> nat option" where
  "canonical_block_height_by_hash db block_hash =
     (case map_of (db_block_headers db) block_hash of
        None \<Rightarrow> None
      | Some hdr \<Rightarrow>
          let canonical_hash = map_of (bi_hashes (db_index db)) (bh_height hdr) in
          if canonical_hash = Some block_hash then Some (bh_height hdr) else None)"

definition canonical_header_at_height :: "irys_db \<Rightarrow> nat \<Rightarrow> db_error + irys_block_header option" where
  "canonical_header_at_height db height =
     (case map_of (bi_hashes (db_index db)) height of
        None \<Rightarrow> Inr None
      | Some canonical_hash \<Rightarrow>
          rbind (ok_or (block_header_by_hash db canonical_hash False)
                   (MissingCanonicalHeader height canonical_hash)) (\<lambda>header.
          if bh_height header \<noteq> height
          then Inl (WrongCanonicalHeight height canonical_hash (bh_height header))
          else Inr (Some header)))"

definition insert_tx_header :: "data_transaction_header \<Rightarrow> irys_db \<Rightarrow> irys_db" where
  "insert_tx_header tx db =
     db\<lparr>db_data_tx_headers := AList.update (dth_id tx) tx (db_data_tx_headers db)\<rparr>"

definition tx_header_by_txid :: "irys_db \<Rightarrow> h256 \<Rightarrow> (data_transaction_header \<times> data_transaction_metadata) option" where
  "tx_header_by_txid db txid =
     map_option (\<lambda>header. (header, data_metadata_or_default (db_data_metadata db) txid))
       (map_of (db_data_tx_headers db) txid)"

definition insert_commitment_tx :: "commitment_transaction \<Rightarrow> irys_db \<Rightarrow> irys_db" where
  "insert_commitment_tx tx db =
     db\<lparr>db_commitments := AList.update (ct_id tx) tx (db_commitments db)\<rparr>"

definition commitment_tx_by_txid :: "irys_db \<Rightarrow> h256 \<Rightarrow> commitment_transaction option" where
  "commitment_tx_by_txid db txid = map_of (db_commitments db) txid"

section \<open>Canonical heights\<close>

definition canonical_metadata_height ::
  "irys_db \<Rightarrow> h256 \<Rightarrow> nat \<Rightarrow> (data_transaction_metadata \<Rightarrow> nat option) \<Rightarrow> data_ledger \<Rightarrow>
   db_error + nat option"
where
  "canonical_metadata_height db txid max_height pick ledger =
     (case get_data_tx_metadata (db_data_metadata db) txid of
        None \<Rightarrow> Inr None
      | Some metadata \<Rightarrow>
          (case pick metadata of
             None \<Rightarrow> Inr None
           | Some height \<Rightarrow>
               if height > max_height then Inr None
               else rbind (canonical_header_at_height db height) (\<lambda>r.
                 case r of
                   None \<Rightarrow> Inr None
                 | Some canonical_header \<Rightarrow>
                     (case get_data_ledger_tx_ids_ordered canonical_header ledger of
                        Some ids \<Rightarrow> if txid \<in> set ids then Inr (Some height) else Inr None
                      | None \<Rightarrow> Inr None))))"

definition canonical_submit_height :: "irys_db \<Rightarrow> h256 \<Rightarrow> nat \<Rightarrow> db_error + nat option" where
  "canonical_submit_height db txid max_height =
     canonical_metadata_height db txid max_height dm_included_height Submit"

definition canonical_promoted_height :: "irys_db \<Rightarrow> h256 \<Rightarrow> nat \<Rightarrow> db_error + nat option" where
  "canonical_promoted_height db txid max_height =
     canonical_metadata_height db txid max_height dm_promoted_height Publish"

definition canonical_commitment_included_height :: "irys_db \<Rightarrow> h256 \<Rightarrow> nat \<Rightarrow> db_error + nat option" where
  "canonical_commitment_included_height db txid max_height =
     (case get_commitment_tx_metadata (db_commitment_metadata db) txid of
        None \<Rightarrow> Inr None
      | Some metadata \<Rightarrow>
          (case cm_included_height metadata of
             None \<Rightarrow> Inr None
           | Some height \<Rightarrow>
               if height > max_height then Inr None
               else rbind (canonical_header_at_height db height) (\<lambda>r.
                 case r of
                   None \<Rightarrow> Inr None
                 | Some canonical_header \<Rightarrow>
                     if txid \<in> set (commitment_tx_ids canonical_header) then Inr (Some height)
                     else Inr None)))"

definition backfill_genesis_commitment_included_height :: "irys_db \<Rightarrow> db_error + irys_db" where
  "backfill_genesis_commitment_included_height db =
     rbind (canonical_header_at_height db 0) (\<lambda>r.
     rbind (ok_or r NoGenesis) (\<lambda>genesis_header.
     let commitment_ids = commitment_tx_ids genesis_header in
     if commitment_ids \<noteq> []
     then rbind (batch_set_commitment_tx_included_height commitment_ids 0 (db_commitment_metadata db))
            (\<lambda>m. Inr (db\<lparr>db_commitment_metadata := m\<rparr>))
     else Inr db))"

section \<open>Cached data roots\<close>

text \<open>Sets kept in a vector are lists; an element is appended when it is not there yet.\<close>

record cached_data_root =
  cdr_data_size :: nat
  cdr_data_size_confirmed :: bool
  cdr_txid_set :: "h256 list"
  cdr_block_set :: "h256 list"
  cdr_expiry_height :: "nat option"
  cdr_cached_at :: nat

type_synonym data_root_table = "(h256 \<times> cached_data_root) list"

definition push_new :: "'a \<Rightarrow> 'a list \<Rightarrow> 'a list" where
  "push_new x xs = (if x \<in> set xs then xs else xs @ [x])"

definition confirm_data_size_for_data_root ::
  "h256 \<Rightarrow> nat \<Rightarrow> data_root_table \<Rightarrow> cached_data_root option \<times> data_root_table"
where
  "confirm_data_size_for_data_root data_root data_size t =
     (case map_of t data_root of
        None \<Rightarrow> (None, t)
      | Some cdr \<Rightarrow>
          let cdr' = cdr\<lparr>cdr_data_size := data_size, cdr_data_size_confirmed := True\<rparr> in
          (Some cdr', AList.update data_root cdr' t))"

definition cache_data_root ::
  "nat \<Rightarrow> data_transaction_header \<Rightarrow> irys_block_header option \<Rightarrow> data_root_table \<Rightarrow>
   cached_data_root \<times> data_root_table"
where
  "cache_data_root now tx block_header t =
     (let key = dth_data_root tx;
          c = (case map_of t key of
                 Some existing \<Rightarrow> existing
               | None \<Rightarrow> \<lparr>cdr_data_size = dth_data_size tx, cdr_data_size_confirmed = False,
                          cdr_txid_set = [dth_id tx], cdr_block_set = [], cdr_expiry_height = None,
                          cdr_cached_at = now\<rparr>);
          c = c\<lparr>cdr_txid_set := push_new (dth_id tx) (cdr_txid_set c)\<rparr>;
          c = (if cdr_data_size c < dth_data_size tx \<and> \<not> cdr_data_size_confirmed c
               then c\<lparr>cdr_data_size := dth_data_size tx\<rparr> else c);
          c = (case block_header of
                 Some b \<Rightarrow> c\<lparr>cdr_block_set := push_new (bh_block_hash b) (cdr_block_set c),
                             cdr_expiry_height := None\<rparr>
               | None \<Rightarrow> c)
      in (c, AList.update key c t))"

definition update_data_root_block_set ::
  "h256 \<Rightarrow> h256 \<Rightarrow> data_root_table \<Rightarrow> bool \<times> data_root_table"
where
  "update_data_root_block_set data_root block_hash t =
     (case map_of t data_root of
        None \<Rightarrow> (False, t)
      | Some cdr \<Rightarrow>
          let already_present = (block_hash \<in> set (cdr_block_set cdr));
              needs_expiry_clear = (cdr_expiry_height cdr \<noteq> None) in
          if already_present \<and> \<not> needs_expiry_clear then (False, t)
          else let cdr' = (if \<not> already_present
                           then cdr\<lparr>cdr_block_set := cdr_block_set cdr @ [block_hash]\<rparr> else cdr);
                   cdr' = (if needs_expiry_clear then cdr'\<lparr>cdr_expiry_height := None\<rparr> else cdr')
               in (True, AList.update data_root cdr' t))"

definition remove_data_root_block_set_entry ::
  "h256 \<Rightarrow> h256 \<Rightarrow> data_root_table \<Rightarrow> bool \<times> data_root_table"
where
  "remove_data_root_block_set_entry data_root block_hash t =
     (case map_of t data_root of
        None \<Rightarrow> (False, t)
      | Some cdr \<Rightarrow>
          let cdr' = cdr\<lparr>cdr_block_set := filter (\<lambda>h. h \<noteq> block_hash) (cdr_block_set cdr)\<rparr> in
          if length (cdr_block_set cdr') = length (cdr_block_set cdr) then (False, t)
          else (True, AList.update data_root cdr' t))"

end
