(* ===== verification/Block_Migration.thy ===== *)
theory Block_Migration
  imports Token_Supply Irys_Database
begin

text \<open>
  The migration of confirmed blocks out of the block tree into the database
  (\<open>crates/actors/src/block_migration_service.rs\<close>): the metadata maintenance that runs at every change
  of the tip, the migration of the canonical branch up to a given block, and the rollback of migrated
  blocks after a network partition.

  \<open>migration_config\<close> holds the parameters of the service and \<open>migration_state\<close> what it writes: the
  database, the cached data roots, the supply state, and the messages to the chunk migration service
  and to the storage modules, which are logs here. The durable block stream is modelled in its
  disabled setting (\<open>StreamEmission::Disabled\<close>, \<open>emit_stream = false\<close>), in which it writes nothing.

  A method that fails after it has written something is a function to a pair of the result and the
  state. A database transaction is atomic.
\<close>

section \<open>State\<close>

record migration_config =
  mc_dup_ins :: "ledger_index_item \<Rightarrow> ledger_index_item list \<Rightarrow> ledger_index_item list"
  mc_reward_curve :: halving_curve
  mc_block_time_secs :: nat
  mc_chunk_size :: nat
  mc_num_blocks_in_epoch :: nat
  mc_block_tree_depth :: nat
  mc_block_migration_depth :: nat
  mc_storage_modules_set :: bool

type_synonym full_block = "block_transactions sealed_block"
type_synonym ('e, 'c, 'm) full_tree = "(block_transactions, 'e, 'c, 'm) block_tree"

record block_rollback_info =
  bri_ledger_ranges :: "(data_ledger \<times> nat \<times> nat) list"
  bri_data_roots :: "h256 list"
  bri_emission :: nat

record migration_state =
  ms_db :: irys_db
  ms_cached_data_roots :: data_root_table
  ms_supply :: "supply_state option"
  ms_chunk_service_open :: bool
  ms_migrated :: "(irys_block_header \<times> (data_ledger \<times> data_transaction_header list) list) list"
  ms_rolled_back :: "block_rollback_info list list"

datatype migration_error =
    HeaderBodyMismatch h256 data_ledger
  | UnknownLedgerId nat
  | DuplicateLedger data_ledger
  | MigrationDb db_error
  | MigrationIndex index_error
  | MigrationEmission emission_error
  | MigrationSupply supply_error
  | MigrationIndexEmpty
  | BlockNotFoundWhileCollecting h256
  | CollectingDiverges
  | HeightGap nat nat
  | ChainBreak h256 h256
  | PoaChunkMissing h256
  | ChunkServiceClosed
  | StorageModulesNotSet
  | BelowFinalized nat nat
  | IndexEntryMissing nat
  | BlockHeaderMissing h256
  | NodePanic

definition map_error :: "('e \<Rightarrow> 'f) \<Rightarrow> 'e + 'a \<Rightarrow> 'f + 'a" where
  "map_error f r = (case r of Inl e \<Rightarrow> Inl (f e) | Inr x \<Rightarrow> Inr x)"

lemma map_error_iff [simp, result_simps]:
  "map_error f r = Inr x \<longleftrightarrow> r = Inr x"
  "map_error f (Inr x) = Inr x"
  by (auto simp: map_error_def split: sum.splits)

section \<open>Header and body\<close>

definition header_tx_ids :: "irys_block_header \<Rightarrow> data_ledger \<Rightarrow> h256 list" where
  "header_tx_ids b l =
     (case find (\<lambda>dl. dtl_ledger_id dl = ledger_u32 l) (bh_data_ledgers b) of
        None \<Rightarrow> [] | Some dl \<Rightarrow> dtl_tx_ids dl)"

definition ensure_header_body_consistent :: "full_block \<Rightarrow> migration_error + unit" where
  "ensure_header_body_consistent sb =
     try_fold (\<lambda>l _.
       let header_ids = header_tx_ids (sb_header sb) l;
           body_ids = map dth_id (get_ledger_txs (sb_transactions sb) l) in
       ensure (sort header_ids = sort body_ids) (HeaderBodyMismatch (bh_block_hash (sb_header sb)) l))
       [Submit, Publish, OneYear, ThirtyDay] ()"

section \<open>Metadata of a block\<close>

definition write_data_ledger_metadata ::
  "data_transaction_ledger list \<Rightarrow> nat \<Rightarrow> data_metadata_table \<Rightarrow> db_error + data_metadata_table"
where
  "write_data_ledger_metadata data_ledgers height m =
     rbind (try_fold (\<lambda>dl m.
              if dtl_tx_ids dl \<noteq> [] then batch_set_data_tx_included_height (dtl_tx_ids dl) height m
              else Inr m)
              (filter (\<lambda>dl. dtl_ledger_id dl \<noteq> ledger_u32 Publish) data_ledgers) m) (\<lambda>m.
     try_fold (\<lambda>dl m.
       if dtl_tx_ids dl \<noteq> [] then batch_set_data_tx_promoted_height (dtl_tx_ids dl) height m
       else Inr m)
       (filter (\<lambda>dl. dtl_ledger_id dl = ledger_u32 Publish) data_ledgers) m)"

definition is_non_genesis_epoch_block :: "migration_config \<Rightarrow> nat \<Rightarrow> bool" where
  "is_non_genesis_epoch_block cfg height \<longleftrightarrow> height \<noteq> 0 \<and> mc_num_blocks_in_epoch cfg dvd height"

definition persist_commitment_inclusions ::
  "migration_config \<Rightarrow> irys_block_header \<Rightarrow> commitment_metadata_table \<Rightarrow>
   db_error + commitment_metadata_table"
where
  "persist_commitment_inclusions cfg header m =
     (let commitment_ids = commitment_tx_ids header in
      if commitment_ids = [] \<or> is_non_genesis_epoch_block cfg (bh_height header) then Inr m
      else batch_set_commitment_tx_included_height commitment_ids (bh_height header) m)"

definition clear_commitment_inclusions ::
  "migration_config \<Rightarrow> irys_block_header \<Rightarrow> commitment_metadata_table \<Rightarrow> commitment_metadata_table"
where
  "clear_commitment_inclusions cfg header m =
     (let commitment_ids = commitment_tx_ids header in
      if commitment_ids = [] \<or> is_non_genesis_epoch_block cfg (bh_height header) then m
      else batch_clear_commitment_tx_metadata commitment_ids m)"

section \<open>Confirmation\<close>

definition clear_block_metadata ::
  "migration_config \<Rightarrow> full_block \<Rightarrow> irys_db \<Rightarrow> db_error + irys_db"
where
  "clear_block_metadata cfg sb db =
     rbind (try_fold (\<lambda>dl m.
              if dtl_tx_ids dl = [] then Inr m
              else if dtl_ledger_id dl = ledger_u32 Publish
              then batch_clear_data_tx_promoted_height (dtl_tx_ids dl) m
              else Inr (batch_clear_data_tx_included_height (dtl_tx_ids dl) m))
              (bh_data_ledgers (sb_header sb)) (db_data_metadata db)) (\<lambda>m.
     Inr (db\<lparr>db_data_metadata := m,
             db_commitment_metadata :=
               clear_commitment_inclusions cfg (sb_header sb) (db_commitment_metadata db)\<rparr>))"

definition scrub_block_set :: "full_block \<Rightarrow> data_root_table \<Rightarrow> data_root_table" where
  "scrub_block_set sb t =
     fold (\<lambda>tx t. snd (remove_data_root_block_set_entry (dth_data_root tx)
                          (bh_block_hash (sb_header sb)) t))
       (get_ledger_txs (sb_transactions sb) Submit) t"

definition confirm_block_set :: "full_block \<Rightarrow> data_root_table \<Rightarrow> data_root_table" where
  "confirm_block_set sb t =
     fold (\<lambda>tx t. snd (update_data_root_block_set (dth_data_root tx)
                          (bh_block_hash (sb_header sb)) t))
       (get_ledger_txs (sb_transactions sb) Submit) t"

definition persist_metadata ::
  "migration_config \<Rightarrow> full_block list \<Rightarrow> full_block list \<Rightarrow> migration_state \<Rightarrow>
   migration_error + migration_state"
where
  "persist_metadata cfg blocks_to_clear blocks_to_confirm s =
     rbind (try_fold (\<lambda>sb _. ensure_header_body_consistent sb)
              (blocks_to_clear @ blocks_to_confirm) ()) (\<lambda>_.
     rbind (map_error MigrationDb
              (try_fold (clear_block_metadata cfg) blocks_to_clear (ms_db s))) (\<lambda>db.
     Inr (s\<lparr>ms_db := db,
            ms_cached_data_roots :=
              fold confirm_block_set blocks_to_confirm
                (fold scrub_block_set blocks_to_clear (ms_cached_data_roots s))\<rparr>)))"

section \<open>Migration\<close>

text \<open>
  The walk from the migration block back to the last migrated one. It leaves the tree or reaches that
  block; a walk with more steps than the tree has blocks would not end.
\<close>

fun collect_to_migrate ::
  "nat \<Rightarrow> ('b, 'e, 'c, 'm) block_map \<Rightarrow> h256 \<Rightarrow> h256 \<Rightarrow> 'b sealed_block list \<Rightarrow>
   migration_error + 'b sealed_block list"
where
  "collect_to_migrate n bs last_migrated_hash current_hash acc =
     (if current_hash = last_migrated_hash then Inr acc
      else (case n of
              0 \<Rightarrow> Inl CollectingDiverges
            | Suc n' \<Rightarrow>
                (case map_of bs current_hash of
                   None \<Rightarrow> Inl (BlockNotFoundWhileCollecting current_hash)
                 | Some e \<Rightarrow>
                     collect_to_migrate n' bs last_migrated_hash (parent_of e) (bm_block e # acc))))"

declare collect_to_migrate.simps [simp del]

definition get_blocks_to_migrate ::
  "irys_block_header \<Rightarrow> ('b, 'e, 'c, 'm) block_tree \<Rightarrow> block_index \<Rightarrow>
   migration_error + 'b sealed_block list"
where
  "get_blocks_to_migrate migration_block cache bi =
     rbind (ok_or (get_latest_item bi) MigrationIndexEmpty) (\<lambda>last_migrated.
     collect_to_migrate (fuel_of (blocks cache)) (blocks cache) (bii_block_hash last_migrated)
       (bh_block_hash migration_block) [])"

fun check_windows :: "'b sealed_block list \<Rightarrow> migration_error + unit" where
  "check_windows (p # c # bs) =
     (let prev = sb_header p; curr = sb_header c in
      rbind (ensure (bh_height curr = bh_height prev + 1) (HeightGap (bh_height prev) (bh_height curr)))
        (\<lambda>_. rbind (ensure (bh_previous_block_hash curr = bh_block_hash prev)
                      (ChainBreak (bh_block_hash prev) (bh_block_hash curr)))
        (\<lambda>_. check_windows (c # bs))))"
| "check_windows bs = Inr ()"

definition validate_migration_continuity ::
  "'b sealed_block list \<Rightarrow> block_index \<Rightarrow> migration_error + unit"
where
  "validate_migration_continuity blocks_to_migrate bi =
     (case blocks_to_migrate of
        [] \<Rightarrow> Inr ()
      | b # _ \<Rightarrow>
          let first = sb_header b in
          rbind (ok_or (get_latest_item bi) MigrationIndexEmpty) (\<lambda>latest_indexed.
          rbind (ensure (latest_height bi + 1 = bh_height first)
                   (HeightGap (latest_height bi) (bh_height first))) (\<lambda>_.
          rbind (ensure (bii_block_hash latest_indexed = bh_previous_block_hash first)
                   (ChainBreak (bii_block_hash latest_indexed) (bh_previous_block_hash first))) (\<lambda>_.
          check_windows blocks_to_migrate))))"

definition persist_ledger_txs ::
  "full_block \<Rightarrow> data_transaction_ledger \<Rightarrow> irys_db \<Rightarrow> migration_error + irys_db"
where
  "persist_ledger_txs sb dl db =
     rbind (ok_or (ledger_from_u32 (dtl_ledger_id dl)) (UnknownLedgerId (dtl_ledger_id dl))) (\<lambda>l.
     Inr (fold insert_tx_header (get_ledger_txs (sb_transactions sb) l) db))"

definition persist_block ::
  "migration_config \<Rightarrow> full_block \<Rightarrow> irys_db \<Rightarrow> migration_error + irys_db"
where
  "persist_block cfg sb db =
     (let header = sb_header sb in
      rbind (ensure_header_body_consistent sb) (\<lambda>_.
      let db = fold insert_commitment_tx (get_ledger_system_txs (sb_transactions sb) Commitment) db in
      rbind (try_fold (persist_ledger_txs sb) (bh_data_ledgers header) db) (\<lambda>db.
      rbind (map_error MigrationDb
               (write_data_ledger_metadata (bh_data_ledgers header) (bh_height header)
                  (db_data_metadata db))) (\<lambda>dm.
      rbind (map_error MigrationDb
               (persist_commitment_inclusions cfg header (db_commitment_metadata db))) (\<lambda>cm.
      let db = insert_block_header header
                 (db\<lparr>db_data_metadata := dm, db_commitment_metadata := cm\<rparr>) in
      rbind (map_error MigrationIndex
               (push_block (mc_dup_ins cfg) sb (mc_chunk_size cfg) (db_index db))) (\<lambda>bi.
      Inr (db\<lparr>db_index := bi\<rparr>)))))))"

definition send_chunk_migration :: "full_block \<Rightarrow> migration_state \<Rightarrow> migration_error + migration_state" where
  "send_chunk_migration sb s =
     (let txs = fold (\<lambda>dl m.
                  case ledger_from_u32 (dtl_ledger_id dl) of
                    Some l \<Rightarrow> AList.update l (get_ledger_txs (sb_transactions sb) l) m
                  | None \<Rightarrow> m) (bh_data_ledgers (sb_header sb)) [] in
      if ms_chunk_service_open s then Inr (s\<lparr>ms_migrated := ms_migrated s @ [(sb_header sb, txs)]\<rparr>)
      else Inl ChunkServiceClosed)"

definition reward_migrated_block ::
  "migration_config \<Rightarrow> nat \<Rightarrow> supply_state option \<Rightarrow> migration_error + supply_state option"
where
  "reward_migrated_block cfg height supply =
     (case supply of
        None \<Rightarrow> Inr None
      | Some ss \<Rightarrow>
          rbind (map_error MigrationEmission
                   (block_emission (mc_reward_curve cfg) (mc_block_time_secs cfg) height)) (\<lambda>emission.
          rbind (map_error MigrationSupply (add_block_reward height emission ss)) (\<lambda>ss'.
          Inr (Some ss'))))"

definition migrate_one ::
  "migration_config \<Rightarrow> full_block \<Rightarrow> migration_state \<Rightarrow> (migration_error + unit) \<times> migration_state"
where
  "migrate_one cfg sb s =
     (case persist_block cfg sb (ms_db s) of
        Inl e \<Rightarrow> (Inl e, s)
      | Inr db \<Rightarrow>
          let s = s\<lparr>ms_db := db\<rparr> in
          (case reward_migrated_block cfg (bh_height (sb_header sb)) (ms_supply s) of
             Inl e \<Rightarrow> (Inl e, s)
           | Inr supply \<Rightarrow>
               let s = s\<lparr>ms_supply := supply\<rparr> in
               (case send_chunk_migration sb s of
                  Inl e \<Rightarrow> (Inl e, s)
                | Inr s \<Rightarrow> (Inr (), s))))"

definition prepare_migration ::
  "irys_block_header \<Rightarrow> ('b, 'e, 'c, 'm) block_tree \<Rightarrow> block_index \<Rightarrow>
   migration_error + 'b sealed_block list"
where
  "prepare_migration migration_block cache bi =
     rbind (get_blocks_to_migrate migration_block cache bi) (\<lambda>bs.
     rbind (validate_migration_continuity bs bi) (\<lambda>_.
     rbind (try_fold (\<lambda>b _. ensure (bh_poa_chunk (sb_header b) \<noteq> None)
                               (PoaChunkMissing (bh_block_hash (sb_header b)))) bs ()) (\<lambda>_.
     Inr bs)))"

definition migrate_blocks ::
  "migration_config \<Rightarrow> irys_block_header \<Rightarrow> ('e, 'c, 'm) full_tree \<Rightarrow> migration_state \<Rightarrow>
   (migration_error + unit) \<times> migration_state"
where
  "migrate_blocks cfg migration_block cache s =
     (case prepare_migration migration_block cache (db_index (ms_db s)) of
        Inl e \<Rightarrow> (Inl e, s)
      | Inr prepared \<Rightarrow> st_fold (migrate_one cfg) prepared s)"

section \<open>Recovery from a network partition\<close>

text \<open>
  The chunk ranges and data roots of the blocks rolled back are handed to the storage modules, whose
  own state is not modelled. The ledgers of a header are a map there; its order is the order of the
  header here and does not matter to the receivers.
\<close>

definition get_data_ledger_tx_ids ::
  "irys_block_header \<Rightarrow> migration_error + (data_ledger \<times> h256 list) list"
where
  "get_data_ledger_tx_ids b =
     try_fold (\<lambda>dl m.
       rbind (ok_or (ledger_from_u32 (dtl_ledger_id dl)) (UnknownLedgerId (dtl_ledger_id dl))) (\<lambda>l.
       rbind (ensure (map_of m l = None) (DuplicateLedger l)) (\<lambda>_.
       Inr (AList.update l (dtl_tx_ids dl) m)))) (bh_data_ledgers b) []"

definition ledger_ranges ::
  "block_index_item \<Rightarrow> block_index_item \<Rightarrow> (data_ledger \<times> nat \<times> nat) list"
where
  "ledger_ranges item prev_item =
     concat (map (\<lambda>x.
       let prev_total = (case find_ledger (lii_ledger x) (bii_ledgers prev_item) of
                           None \<Rightarrow> 0 | Some y \<Rightarrow> lii_total_chunks y) in
       if lii_total_chunks x > prev_total
       then [(lii_ledger x, prev_total, lii_total_chunks x - 1)] else []) (bii_ledgers item))"

definition block_rollback ::
  "migration_config \<Rightarrow> irys_db \<Rightarrow> nat \<Rightarrow> migration_error + block_rollback_info"
where
  "block_rollback cfg db h =
     rbind (ok_or (get_item (db_index db) h) (IndexEntryMissing h)) (\<lambda>item.
     rbind (ok_or (get_item (db_index db) (h - 1)) (IndexEntryMissing (h - 1))) (\<lambda>prev_item.
     rbind (ok_or (block_header_by_hash db (bii_block_hash item) False)
              (BlockHeaderMissing (bii_block_hash item))) (\<lambda>header.
     rbind (get_data_ledger_tx_ids header) (\<lambda>tx_id_map.
     rbind (map_error MigrationEmission
              (block_emission (mc_reward_curve cfg) (mc_block_time_secs cfg) h)) (\<lambda>emission.
     Inr \<lparr>bri_ledger_ranges = ledger_ranges item prev_item,
          bri_data_roots =
            map (\<lambda>(tx, _). dth_data_root tx)
              (List.map_filter (tx_header_by_txid db) (concat (map snd tx_id_map))),
          bri_emission = emission\<rparr>)))))"

definition recover_from_network_partition ::
  "migration_config \<Rightarrow> nat \<Rightarrow> migration_state \<Rightarrow> (migration_error + unit) \<times> migration_state"
where
  "recover_from_network_partition cfg fork_parent_height s =
     (if \<not> mc_storage_modules_set cfg then (Inl StorageModulesNotSet, s)
      else (case block_index_latest_height (db_index (ms_db s)) of
        None \<Rightarrow> (Inr (), s)
      | Some latest \<Rightarrow>
          if fork_parent_height \<ge> latest then (Inr (), s)
          else let finalized =
                     finalized_height latest (mc_block_tree_depth cfg) (mc_block_migration_depth cfg) in
          if fork_parent_height < finalized then (Inl (BelowFinalized fork_parent_height finalized), s)
          else (case rmap (block_rollback cfg (ms_db s)) [fork_parent_height + 1..<Suc latest] of
                  Inl e \<Rightarrow> (Inl e, s)
                | Inr rollback_infos \<Rightarrow>
                    let s = s\<lparr>ms_rolled_back := ms_rolled_back s @ [rollback_infos]\<rparr> in
                    (case truncate_to_height fork_parent_height (db_index (ms_db s)) of
                       Inl _ \<Rightarrow> (Inl NodePanic, s)
                     | Inr bi \<Rightarrow>
                         let reward_sum =
                               fold (\<lambda>info acc. saturating_add acc (bri_emission info)) rollback_infos 0 in
                         (Inr (), s\<lparr>ms_db := (ms_db s)\<lparr>db_index := bi\<rparr>,
                                    ms_supply :=
                                      map_option (rollback_reward fork_parent_height reward_sum)
                                        (ms_supply s)\<rparr>)))))"

end
