(* ===== verification/Tables_Correct.thy ===== *)
theory Tables_Correct
  imports Block_Migration
begin

text \<open>
  What the tables say about transactions. \<open>included\<close> and \<open>promoted\<close> read the metadata rows; the lemmas
  give the effect of the batched writes and clears on them.
\<close>

section \<open>Rows\<close>

definition included :: "data_metadata_table \<Rightarrow> h256 \<Rightarrow> nat option" where
  "included m tx = Option.bind (map_of m tx) dm_included_height"

definition promoted :: "data_metadata_table \<Rightarrow> h256 \<Rightarrow> nat option" where
  "promoted m tx = Option.bind (map_of m tx) dm_promoted_height"

definition commitment_included :: "commitment_metadata_table \<Rightarrow> h256 \<Rightarrow> nat option" where
  "commitment_included m tx = Option.bind (map_of m tx) cm_included_height"

lemma data_metadata_or_default_rows:
  "dm_included_height (data_metadata_or_default m tx) = included m tx"
  "dm_promoted_height (data_metadata_or_default m tx) = promoted m tx"
  by (simp_all add: data_metadata_or_default_def get_data_tx_metadata_def data_metadata_new_def
      included_def promoted_def split: option.splits)

definition override :: "('a \<Rightarrow> 'b option) \<Rightarrow> 'a set \<Rightarrow> 'b option \<Rightarrow> 'a \<Rightarrow> 'b option" where
  "override f A v x = (if x \<in> A then v else f x)"

lemma override_empty [simp]: "override f {} v = f"
  by (simp add: override_def fun_eq_iff)

lemma override_override: "override (override f A v) B v = override f (A \<union> B) v"
  by (auto simp: override_def fun_eq_iff)

lemma set_included_ok:
  "\<exists>m'. set_data_tx_included_height h tx m = Inr m' \<and>
     included m' = override (included m) {tx} (Some h) \<and> promoted m' = promoted m"
  by (auto simp: set_data_tx_included_height_def put_data_tx_metadata_def data_is_included_def fun_eq_iff override_def
      included_def promoted_def data_metadata_or_default_def get_data_tx_metadata_def
      data_metadata_new_def update_conv' split: option.splits)

lemma set_promoted_ok:
  "included m tx \<noteq> None \<Longrightarrow>
   \<exists>m'. set_data_tx_promoted_height h tx m = Inr m' \<and>
     included m' = included m \<and> promoted m' = override (promoted m) {tx} (Some h)"
  by (cases "map_of m tx")
    (auto simp: set_data_tx_promoted_height_def put_data_tx_metadata_def data_is_included_def fun_eq_iff override_def
      included_def promoted_def data_metadata_or_default_def get_data_tx_metadata_def update_conv')

lemma set_promoted_error:
  "included m tx = None \<Longrightarrow> set_data_tx_promoted_height h tx m = Inl (PromotedWithoutInclusion tx)"
  by (simp add: set_data_tx_promoted_height_def data_is_included_def data_metadata_or_default_rows Let_def)

lemma clear_promoted_ok:
  "\<exists>m'. clear_data_tx_promoted_height tx m = Inr m' \<and>
     included m' = included m \<and> promoted m' = override (promoted m) {tx} None"
  by (auto simp: clear_data_tx_promoted_height_def put_data_tx_metadata_def data_is_included_def fun_eq_iff override_def
      included_def promoted_def get_data_tx_metadata_def update_conv' delete_conv' Let_def
      split: option.splits)

lemma clear_included_rows:
  "included (clear_data_tx_included_height tx m) = override (included m) {tx} None"
  "promoted (clear_data_tx_included_height tx m) = override (promoted m) {tx} None"
  by (auto simp: clear_data_tx_included_height_def fun_eq_iff override_def included_def promoted_def delete_conv')

lemma batch_set_included_ok:
  "\<exists>m'. batch_set_data_tx_included_height ids h m = Inr m' \<and>
     included m' = override (included m) (set ids) (Some h) \<and> promoted m' = promoted m"
  unfolding batch_set_data_tx_included_height_def
proof (induction ids arbitrary: m)
  case (Cons tx ids)
  obtain m1 where "set_data_tx_included_height h tx m = Inr m1"
    "included m1 = override (included m) {tx} (Some h)" "promoted m1 = promoted m"
    using set_included_ok by blast
  then show ?case using Cons.IH [of m1] by (simp add: override_override)
qed simp

lemma batch_set_promoted_ok:
  "(\<And>tx. tx \<in> set ids \<Longrightarrow> included m tx \<noteq> None) \<Longrightarrow>
   \<exists>m'. batch_set_data_tx_promoted_height ids h m = Inr m' \<and>
     included m' = included m \<and> promoted m' = override (promoted m) (set ids) (Some h)"
  unfolding batch_set_data_tx_promoted_height_def
proof (induction ids arbitrary: m)
  case (Cons tx ids)
  obtain m1 where "set_data_tx_promoted_height h tx m = Inr m1"
    "included m1 = included m" "promoted m1 = override (promoted m) {tx} (Some h)"
    using set_promoted_ok Cons.prems by (metis list.set_intros(1))
  then show ?case using Cons.IH [of m1] Cons.prems by (simp add: override_override)
qed simp

lemma batch_set_promoted_error:
  "\<exists>tx \<in> set ids. included m tx = None \<Longrightarrow>
   \<exists>tx \<in> set ids. batch_set_data_tx_promoted_height ids h m = Inl (PromotedWithoutInclusion tx)"
  unfolding batch_set_data_tx_promoted_height_def
proof (induction ids arbitrary: m)
  case (Cons tx ids)
  show ?case
  proof (cases "included m tx = None")
    case True
    then show ?thesis by (simp add: set_promoted_error)
  next
    case False
    then obtain m1 where "set_data_tx_promoted_height h tx m = Inr m1" "included m1 = included m"
      using set_promoted_ok by blast
    then show ?thesis using Cons.IH [of m1] Cons.prems False by auto
  qed
qed simp

lemma batch_clear_promoted_ok:
  "\<exists>m'. batch_clear_data_tx_promoted_height ids m = Inr m' \<and>
     included m' = included m \<and> promoted m' = override (promoted m) (set ids) None"
  unfolding batch_clear_data_tx_promoted_height_def
proof (induction ids arbitrary: m)
  case (Cons tx ids)
  obtain m1 where "clear_data_tx_promoted_height tx m = Inr m1"
    "included m1 = included m" "promoted m1 = override (promoted m) {tx} None"
    using clear_promoted_ok by blast
  then show ?case using Cons.IH [of m1] by (simp add: override_override)
qed simp

lemma batch_clear_included_rows:
  "included (batch_clear_data_tx_included_height ids m) = override (included m) (set ids) None"
  "promoted (batch_clear_data_tx_included_height ids m) = override (promoted m) (set ids) None"
  by (induction ids arbitrary: m)
    (simp_all add: batch_clear_data_tx_included_height_def clear_included_rows override_override)

lemma set_commitment_ok:
  "\<exists>m'. set_commitment_tx_included_height h tx m = Inr m' \<and>
     commitment_included m' = override (commitment_included m) {tx} (Some h)"
  by (auto simp: set_commitment_tx_included_height_def put_commitment_tx_metadata_def Let_def
      commitment_is_included_def fun_eq_iff override_def commitment_included_def update_conv')

lemma batch_set_commitment_ok:
  "\<exists>m'. batch_set_commitment_tx_included_height ids h m = Inr m' \<and>
     commitment_included m' = override (commitment_included m) (set ids) (Some h)"
  unfolding batch_set_commitment_tx_included_height_def
proof (induction ids arbitrary: m)
  case (Cons tx ids)
  obtain m1 where "set_commitment_tx_included_height h tx m = Inr m1"
    "commitment_included m1 = override (commitment_included m) {tx} (Some h)"
    using set_commitment_ok by blast
  then show ?case using Cons.IH [of m1] by (simp add: override_override)
qed simp

lemma batch_clear_commitment_rows:
  "commitment_included (batch_clear_commitment_tx_metadata ids m) =
     override (commitment_included m) (set ids) None"
  by (induction ids arbitrary: m)
    (simp_all add: batch_clear_commitment_tx_metadata_def clear_commitment_tx_metadata_def
      commitment_included_def delete_conv' fun_eq_iff override_def)

section \<open>The rows a block writes and clears\<close>

definition ledgers_ids :: "(nat \<Rightarrow> bool) \<Rightarrow> data_transaction_ledger list \<Rightarrow> h256 set" where
  "ledgers_ids P dls = (\<Union>dl \<in> {dl \<in> set dls. P (dtl_ledger_id dl)}. set (dtl_tx_ids dl))"

abbreviation term_ids :: "irys_block_header \<Rightarrow> h256 set" where
  "term_ids b \<equiv> ledgers_ids (\<lambda>i. i \<noteq> ledger_u32 Publish) (bh_data_ledgers b)"

abbreviation publish_ids :: "irys_block_header \<Rightarrow> h256 set" where
  "publish_ids b \<equiv> ledgers_ids (\<lambda>i. i = ledger_u32 Publish) (bh_data_ledgers b)"

lemma ledgers_ids_simps [simp]:
  "ledgers_ids P [] = {}"
  "ledgers_ids P (dl # dls) =
     (if P (dtl_ledger_id dl) then set (dtl_tx_ids dl) else {}) \<union> ledgers_ids P dls"
  by (auto simp: ledgers_ids_def)

lemma ordered_ids_term:
  "get_data_ledger_tx_ids_ordered b l = Some ids \<Longrightarrow>
   set ids \<subseteq> ledgers_ids (\<lambda>i. i = ledger_u32 l) (bh_data_ledgers b)"
  by (auto simp: get_data_ledger_tx_ids_ordered_def ledgers_ids_def find_Some_iff) (metis nth_mem)

lemma ledgers_ids_mono: "(\<And>i. P i \<Longrightarrow> Q i) \<Longrightarrow> ledgers_ids P dls \<subseteq> ledgers_ids Q dls"
  by (auto simp: ledgers_ids_def)

lemma write_included_ok:
  "\<exists>m'. try_fold (\<lambda>dl m.
       if dtl_tx_ids dl \<noteq> [] then batch_set_data_tx_included_height (dtl_tx_ids dl) h m else Inr m)
       (filter (\<lambda>dl. P (dtl_ledger_id dl)) dls) m = Inr m' \<and>
     included m' = override (included m) (ledgers_ids P dls) (Some h) \<and> promoted m' = promoted m"
proof (induction dls arbitrary: m)
  case (Cons dl dls)
  obtain m1 where m1: "batch_set_data_tx_included_height (dtl_tx_ids dl) h m = Inr m1"
    "included m1 = override (included m) (set (dtl_tx_ids dl)) (Some h)" "promoted m1 = promoted m"
    using batch_set_included_ok by blast
  show ?case
    using Cons.IH [of m] Cons.IH [of m1] m1 by (cases "dtl_tx_ids dl = []") (simp_all add: override_override)
qed simp

lemma write_promoted_ok:
  "(\<And>tx. tx \<in> ledgers_ids P dls \<Longrightarrow> included m tx \<noteq> None) \<Longrightarrow>
   \<exists>m'. try_fold (\<lambda>dl m.
       if dtl_tx_ids dl \<noteq> [] then batch_set_data_tx_promoted_height (dtl_tx_ids dl) h m else Inr m)
       (filter (\<lambda>dl. P (dtl_ledger_id dl)) dls) m = Inr m' \<and>
     included m' = included m \<and> promoted m' = override (promoted m) (ledgers_ids P dls) (Some h)"
proof (induction dls arbitrary: m)
  case (Cons dl dls)
  show ?case
  proof (cases "P (dtl_ledger_id dl)")
    case True
    obtain m1 where m1: "batch_set_data_tx_promoted_height (dtl_tx_ids dl) h m = Inr m1"
      "included m1 = included m" "promoted m1 = override (promoted m) (set (dtl_tx_ids dl)) (Some h)"
      using batch_set_promoted_ok [of "dtl_tx_ids dl" m h] Cons.prems True by auto
    show ?thesis
      using Cons.IH [of m] Cons.IH [of m1] m1 Cons.prems True
      by (cases "dtl_tx_ids dl = []") (simp_all add: override_override)
  next
    case False
    then show ?thesis using Cons.IH [of m] Cons.prems by simp
  qed
qed simp

lemma write_promoted_error:
  "\<exists>tx \<in> ledgers_ids P dls. included m tx = None \<Longrightarrow>
   \<exists>tx \<in> ledgers_ids P dls. try_fold (\<lambda>dl m.
       if dtl_tx_ids dl \<noteq> [] then batch_set_data_tx_promoted_height (dtl_tx_ids dl) h m else Inr m)
       (filter (\<lambda>dl. P (dtl_ledger_id dl)) dls) m = Inl (PromotedWithoutInclusion tx)"
proof (induction dls arbitrary: m)
  case (Cons dl dls)
  show ?case
  proof (cases "P (dtl_ledger_id dl)")
    case False
    then show ?thesis using Cons.IH [of m] Cons.prems by simp
  next
    case True
    show ?thesis
    proof (cases "\<exists>tx \<in> set (dtl_tx_ids dl). included m tx = None")
      case found: True
      from batch_set_promoted_error [OF this, of h] found True show ?thesis by fastforce
    next
      case False
      then obtain m1 where "batch_set_data_tx_promoted_height (dtl_tx_ids dl) h m = Inr m1"
        "included m1 = included m" using batch_set_promoted_ok [of "dtl_tx_ids dl" m h] by auto
      then show ?thesis
        using Cons.IH [of m] Cons.IH [of m1] Cons.prems True False
        by (cases "dtl_tx_ids dl = []") auto
    qed
  qed
qed simp

lemma write_metadata_ok:
  assumes "\<And>tx. tx \<in> publish_ids b \<Longrightarrow> tx \<in> term_ids b \<or> included m tx \<noteq> None"
  shows "\<exists>m'. write_data_ledger_metadata (bh_data_ledgers b) h m = Inr m' \<and>
    included m' = override (included m) (term_ids b) (Some h) \<and>
    promoted m' = override (promoted m) (publish_ids b) (Some h)"
proof -
  obtain m1 where m1: "included m1 = override (included m) (term_ids b) (Some h)" "promoted m1 = promoted m"
    "try_fold (\<lambda>dl m. if dtl_tx_ids dl \<noteq> []
       then batch_set_data_tx_included_height (dtl_tx_ids dl) h m else Inr m)
       (filter (\<lambda>dl. dtl_ledger_id dl \<noteq> ledger_u32 Publish) (bh_data_ledgers b)) m = Inr m1"
    using write_included_ok [of h "\<lambda>i. i \<noteq> ledger_u32 Publish" "bh_data_ledgers b" m] by blast
  have "included m1 tx \<noteq> None" if "tx \<in> publish_ids b" for tx
    using assms [OF that] by (auto simp: m1(1) override_def)
  from write_promoted_ok [of "\<lambda>i. i = ledger_u32 Publish" "bh_data_ledgers b" m1 h, OF this]
  show ?thesis unfolding write_data_ledger_metadata_def m1(3) by (simp add: m1(1,2))
qed

lemma write_metadata_error:
  assumes "tx \<in> publish_ids b" and "tx \<notin> term_ids b" and "included m tx = None"
  shows "\<exists>tx \<in> publish_ids b. write_data_ledger_metadata (bh_data_ledgers b) h m = Inl (PromotedWithoutInclusion tx)"
proof -
  obtain m1 where m1: "included m1 = override (included m) (term_ids b) (Some h)"
    "try_fold (\<lambda>dl m. if dtl_tx_ids dl \<noteq> []
       then batch_set_data_tx_included_height (dtl_tx_ids dl) h m else Inr m)
       (filter (\<lambda>dl. dtl_ledger_id dl \<noteq> ledger_u32 Publish) (bh_data_ledgers b)) m = Inr m1"
    using write_included_ok [of h "\<lambda>i. i \<noteq> ledger_u32 Publish" "bh_data_ledgers b" m] by blast
  have "\<exists>tx \<in> publish_ids b. included m1 tx = None"
    using assms by (auto simp: m1(1) override_def)
  from write_promoted_error [of "\<lambda>i. i = ledger_u32 Publish", OF this, of h]
  show ?thesis unfolding write_data_ledger_metadata_def m1(2) by simp
qed

lemma write_metadata_iff:
  assumes "write_data_ledger_metadata (bh_data_ledgers b) h m = Inr m'"
  shows "included m' = override (included m) (term_ids b) (Some h)"
    and "promoted m' = override (promoted m) (publish_ids b) (Some h)"
    and "tx \<in> publish_ids b \<Longrightarrow> included m' tx \<noteq> None"
proof -
  have ok: "tx \<in> term_ids b \<or> included m tx \<noteq> None" if "tx \<in> publish_ids b" for tx
    using write_metadata_error [OF that, of m h] assms by auto
  with write_metadata_ok [of b m h] assms
  show 1: "included m' = override (included m) (term_ids b) (Some h)"
    and "promoted m' = override (promoted m) (publish_ids b) (Some h)" by auto
  show "tx \<in> publish_ids b \<Longrightarrow> included m' tx \<noteq> None"
    using ok by (auto simp: 1 override_def)
qed

lemma clear_block_metadata_ok:
  "\<exists>m. clear_block_metadata cfg sb db = Inr (db\<lparr>db_data_metadata := m,
       db_commitment_metadata := clear_commitment_inclusions cfg (sb_header sb) (db_commitment_metadata db)\<rparr>) \<and>
     included m = override (included (db_data_metadata db)) (term_ids (sb_header sb)) None \<and>
     promoted m = override (promoted (db_data_metadata db)) (term_ids (sb_header sb) \<union> publish_ids (sb_header sb)) None"
proof -
  have "\<exists>m'. try_fold (\<lambda>dl m.
              if dtl_tx_ids dl = [] then Inr m
              else if dtl_ledger_id dl = ledger_u32 Publish
              then batch_clear_data_tx_promoted_height (dtl_tx_ids dl) m
              else Inr (batch_clear_data_tx_included_height (dtl_tx_ids dl) m)) dls m = Inr m' \<and>
      included m' = override (included m) (ledgers_ids (\<lambda>i. i \<noteq> ledger_u32 Publish) dls) None \<and>
      promoted m' = override (promoted m) (ledgers_ids (\<lambda>i. i \<noteq> ledger_u32 Publish) dls \<union>
        ledgers_ids (\<lambda>i. i = ledger_u32 Publish) dls) None" for dls m
  proof (induction dls arbitrary: m)
    case (Cons dl dls)
    obtain m1 where "batch_clear_data_tx_promoted_height (dtl_tx_ids dl) m = Inr m1"
      "included m1 = included m" "promoted m1 = override (promoted m) (set (dtl_tx_ids dl)) None"
      using batch_clear_promoted_ok by blast
    then show ?case
      using Cons.IH [of m] Cons.IH [of m1] Cons.IH [of "batch_clear_data_tx_included_height (dtl_tx_ids dl) m"]
      by (cases "dtl_tx_ids dl = []") (simp_all add: override_override batch_clear_included_rows Un_ac)
  qed simp
  from this [of "bh_data_ledgers (sb_header sb)" "db_data_metadata db"] obtain m where
    "included m = override (included (db_data_metadata db)) (term_ids (sb_header sb)) None"
    "promoted m = override (promoted (db_data_metadata db)) (term_ids (sb_header sb) \<union> publish_ids (sb_header sb)) None"
    "try_fold (\<lambda>dl m.
              if dtl_tx_ids dl = [] then Inr m
              else if dtl_ledger_id dl = ledger_u32 Publish
              then batch_clear_data_tx_promoted_height (dtl_tx_ids dl) m
              else Inr (batch_clear_data_tx_included_height (dtl_tx_ids dl) m))
       (bh_data_ledgers (sb_header sb)) (db_data_metadata db) = Inr m" by blast
  then show ?thesis by (intro exI [of _ m]) (simp add: clear_block_metadata_def)
qed

section \<open>Tables that agree with the index\<close>

text \<open>
  \<open>tables_wf\<close> is the invariant of the database: the index is well formed and has \<open>n\<close> blocks, the header
  of every indexed block is stored under its hash, the ledgers of an indexed block are ledgers of its
  header, and the rows of the transactions of that header name its height.
\<close>

definition rows_name :: "migration_config \<Rightarrow> irys_db \<Rightarrow> nat \<Rightarrow> irys_block_header \<Rightarrow> bool" where
  "rows_name cfg db h hdr \<longleftrightarrow>
     (\<forall>tx \<in> term_ids hdr. included (db_data_metadata db) tx = Some h) \<and>
     (\<forall>tx \<in> publish_ids hdr. promoted (db_data_metadata db) tx = Some h) \<and>
     (\<not> is_non_genesis_epoch_block cfg h \<longrightarrow>
        (\<forall>tx \<in> set (commitment_tx_ids hdr). commitment_included (db_commitment_metadata db) tx = Some h))"

definition indexed_header :: "irys_db \<Rightarrow> nat \<Rightarrow> irys_block_header option" where
  "indexed_header db h =
     Option.bind (map_of (bi_hashes (db_index db)) h) (map_of (db_block_headers db))"

definition header_matches :: "irys_db \<Rightarrow> nat \<Rightarrow> irys_block_header \<Rightarrow> bool" where
  "header_matches db h hdr \<longleftrightarrow>
     bh_height hdr = h \<and> map_of (bi_hashes (db_index db)) h = Some (bh_block_hash hdr) \<and>
     (\<forall>x \<in> set (ledgers_at (db_index db) h). has_data_ledger hdr (lii_ledger x))"

definition tables_wf :: "migration_config \<Rightarrow> irys_db \<Rightarrow> nat \<Rightarrow> bool" where
  "tables_wf cfg db n \<longleftrightarrow>
     index_wf (db_index db) n \<and>
     (\<forall>h < n. case indexed_header db h of
        None \<Rightarrow> False | Some hdr \<Rightarrow> header_matches db h hdr \<and> rows_name cfg db h hdr)"

lemma tables_wfD:
  assumes "tables_wf cfg db n"
  shows "index_wf (db_index db) n"
    and "h < n \<Longrightarrow> \<exists>hdr. indexed_header db h = Some hdr \<and> header_matches db h hdr \<and> rows_name cfg db h hdr"
  using assms by (auto simp: tables_wf_def split: option.splits)

lemma canonical_header_ok:
  assumes "tables_wf cfg db n"
  shows "canonical_header_at_height db h = Inr (if h < n then indexed_header db h else None)"
proof (cases "h < n")
  case True
  then obtain hdr where "indexed_header db h = Some hdr" "header_matches db h hdr"
    using tables_wfD(2) [OF assms] by blast
  then show ?thesis
    using True by (auto simp: canonical_header_at_height_def indexed_header_def header_matches_def
        block_header_by_hash_def ok_or_def bind_eq_Some_conv)
next
  case False
  then have "map_of (bi_hashes (db_index db)) h = None"
    using index_wf_hash [OF tables_wfD(1) [OF assms], of h] by (cases "map_of (bi_hashes (db_index db)) h") auto
  then show ?thesis using False by (simp add: canonical_header_at_height_def)
qed

text \<open>The indexed block of a height has a transaction in a ledger, or a commitment.\<close>

definition carries :: "irys_db \<Rightarrow> nat \<Rightarrow> data_ledger \<Rightarrow> h256 \<Rightarrow> bool" where
  "carries db h l tx =
     (case Option.bind (indexed_header db h) (\<lambda>hdr. get_data_ledger_tx_ids_ordered hdr l) of
        None \<Rightarrow> False | Some ids \<Rightarrow> tx \<in> set ids)"

definition carries_commitment :: "irys_db \<Rightarrow> nat \<Rightarrow> h256 \<Rightarrow> bool" where
  "carries_commitment db h tx =
     (case indexed_header db h of None \<Rightarrow> False | Some hdr \<Rightarrow> tx \<in> set (commitment_tx_ids hdr))"

lemma canonical_metadata_exact:
  assumes wf: "tables_wf cfg db n"
  shows "canonical_metadata_height db tx mx pick l =
    Inr (case Option.bind (map_of (db_data_metadata db) tx) pick of
           None \<Rightarrow> None
         | Some h \<Rightarrow> if h \<le> mx \<and> h < n \<and> carries db h l tx then Some h else None)"
  using canonical_header_ok [OF wf]
  by (auto simp: canonical_metadata_height_def get_data_tx_metadata_def carries_def
      split: option.splits)

lemma canonical_metadata_iff:
  assumes wf: "tables_wf cfg db n"
    and row: "\<And>h. h < n \<Longrightarrow> carries db h l tx \<Longrightarrow> Option.bind (map_of (db_data_metadata db) tx) pick = Some h"
  shows "\<exists>r. canonical_metadata_height db tx mx pick l = Inr r \<and>
    (\<forall>h. r = Some h \<longleftrightarrow> h \<le> mx \<and> h < n \<and> carries db h l tx)"
proof (cases "Option.bind (map_of (db_data_metadata db) tx) pick")
  case None
  then show ?thesis using row unfolding canonical_metadata_exact [OF wf] by auto
next
  case (Some h)
  then have "h' = h" if "h' < n" "carries db h' l tx" for h' using row [OF that] by simp
  then show ?thesis unfolding canonical_metadata_exact [OF wf] Some by auto
qed

lemma carries_term:
  assumes "tables_wf cfg db n" and "h < n" and "carries db h l tx" and "l \<noteq> Publish"
  shows "included (db_data_metadata db) tx = Some h"
proof -
  obtain hdr ids where hdr: "indexed_header db h = Some hdr" "rows_name cfg db h hdr"
    and ids: "get_data_ledger_tx_ids_ordered hdr l = Some ids" "tx \<in> set ids"
    using tables_wfD(2) [OF assms(1,2)] assms(3)
    by (auto simp: carries_def bind_eq_Some_conv split: option.splits)
  have "tx \<in> term_ids hdr"
    using ordered_ids_term [OF ids(1)] ids(2) ledgers_ids_mono [of "\<lambda>i. i = ledger_u32 l" "\<lambda>i. i \<noteq> ledger_u32 Publish"]
      assms(4) by auto
  then show ?thesis using hdr(2) by (simp add: rows_name_def)
qed

lemma carries_publish:
  assumes "tables_wf cfg db n" and "h < n" and "carries db h Publish tx"
  shows "promoted (db_data_metadata db) tx = Some h"
proof -
  obtain hdr ids where hdr: "indexed_header db h = Some hdr" "rows_name cfg db h hdr"
    and ids: "get_data_ledger_tx_ids_ordered hdr Publish = Some ids" "tx \<in> set ids"
    using tables_wfD(2) [OF assms(1,2)] assms(3)
    by (auto simp: carries_def bind_eq_Some_conv split: option.splits)
  then have "tx \<in> publish_ids hdr" using ordered_ids_term [OF ids(1)] by auto
  then show ?thesis using hdr(2) by (simp add: rows_name_def)
qed

lemma canonical_submit_iff:
  assumes wf: "tables_wf cfg db n"
  shows "\<exists>r. canonical_submit_height db tx mx = Inr r \<and>
    (\<forall>h. r = Some h \<longleftrightarrow> h \<le> mx \<and> h < n \<and> carries db h Submit tx)"
  unfolding canonical_submit_height_def
  by (rule canonical_metadata_iff [OF wf]) (use carries_term [OF wf] in \<open>auto simp: included_def\<close>)

lemma canonical_promoted_iff:
  assumes wf: "tables_wf cfg db n"
  shows "\<exists>r. canonical_promoted_height db tx mx = Inr r \<and>
    (\<forall>h. r = Some h \<longleftrightarrow> h \<le> mx \<and> h < n \<and> carries db h Publish tx)"
  unfolding canonical_promoted_height_def
  by (rule canonical_metadata_iff [OF wf]) (use carries_publish [OF wf] in \<open>auto simp: promoted_def\<close>)

lemma canonical_commitment_sound:
  assumes wf: "tables_wf cfg db n"
  shows "\<exists>r. canonical_commitment_included_height db tx mx = Inr r \<and>
    (\<forall>h. r = Some h \<longrightarrow> h \<le> mx \<and> h < n \<and> carries_commitment db h tx) \<and>
    (\<forall>h. h \<le> mx \<and> h < n \<and> carries_commitment db h tx \<and> \<not> is_non_genesis_epoch_block cfg h \<longrightarrow> r = Some h)"
proof -
  have row: "commitment_included (db_commitment_metadata db) tx = Some h"
    if "h < n" "carries_commitment db h tx" "\<not> is_non_genesis_epoch_block cfg h" for h
    using tables_wfD(2) [OF wf that(1)] that(2,3)
    by (auto simp: carries_commitment_def rows_name_def split: option.splits)
  have eq: "canonical_commitment_included_height db tx mx =
      Inr (case commitment_included (db_commitment_metadata db) tx of
             None \<Rightarrow> None
           | Some h \<Rightarrow> if h \<le> mx \<and> h < n \<and> carries_commitment db h tx then Some h else None)"
    using canonical_header_ok [OF wf]
    by (auto simp: canonical_commitment_included_height_def get_commitment_tx_metadata_def
        commitment_included_def carries_commitment_def split: option.splits)
  show ?thesis
  proof (cases "commitment_included (db_commitment_metadata db) tx")
    case None
    then show ?thesis using row unfolding eq by auto
  next
    case (Some h)
    then have "h' = h" if "h' < n" "carries_commitment db h' tx" "\<not> is_non_genesis_epoch_block cfg h'" for h'
      using row [OF that] by simp
    then show ?thesis unfolding eq Some by auto
  qed
qed

end
