(* ===== verification/Migration_Correct.thy ===== *)
theory Migration_Correct
  imports Tables_Correct
begin

text \<open>
  What migration does to the database and the index: the blocks collected for migration are the branch
  of the tree from the last indexed block to the migration block, persisting them extends the index by
  exactly that branch and keeps the tables in agreement with it, and recovery from a network partition
  followed by the clearing of the abandoned blocks does the same for a shorter index.
\<close>

lemma tables_wfI:
  assumes "index_wf (db_index db) n"
    and "\<And>h. h < n \<Longrightarrow> \<exists>hdr. indexed_header db h = Some hdr \<and> header_matches db h hdr \<and> rows_name cfg db h hdr"
  shows "tables_wf cfg db n"
  using assms unfolding tables_wf_def by fastforce

section \<open>When a push succeeds\<close>

lemma calculate_chunks_added_Inr:
  assumes c: "0 < c" and "calculate_chunks_added txs c = Inr k"
  shows "k = chunks_of c txs \<and> chunks_of c txs * c < 2 ^ 64"
proof -
  let ?f = "\<lambda>tx acc. let bytes = div_ceil (dth_data_size tx) c * c in
      if bytes < 2 ^ 64 \<and> acc + bytes < 2 ^ 64 then Inr (acc + bytes) else Inl ArithmeticPanic"
  have fold: "acc < 2 ^ 64 \<Longrightarrow> try_fold ?f txs acc = Inr r \<Longrightarrow>
      r = acc + chunks_of c txs * c \<and> r < 2 ^ 64" for acc r
  proof (induction txs arbitrary: acc)
    case Nil
    then show ?case by (simp add: chunks_of_def)
  next
    case (Cons tx txs)
    let ?b = "div_ceil (dth_data_size tx) c * c"
    have "acc + ?b < 2 ^ 64" and "try_fold ?f txs (acc + ?b) = Inr r"
      using Cons.prems by (auto simp: rbind_Inr_iff Let_def split: if_splits)
    from Cons.IH [OF this] show ?case by (simp add: chunks_of_def add_mult_distrib add.assoc)
  qed
  obtain r where "try_fold ?f txs 0 = Inr r" "k = r div c"
    using assms by (auto simp: calculate_chunks_added_def rbind_Inr_iff)
  with fold [of 0 r] c show ?thesis by simp
qed

definition ledgers_grow :: "irys_block_header \<Rightarrow> irys_block_header \<Rightarrow> bool" where
  "ledgers_grow p b \<longleftrightarrow>
     distinct (map dtl_ledger_id (bh_data_ledgers b)) \<and>
     list_all (\<lambda>l. has_data_ledger p l \<longrightarrow> has_data_ledger b l) [Publish, Submit, OneYear, ThirtyDay]"

lemma ledgers_growD:
  "ledgers_grow p b \<Longrightarrow> distinct (map dtl_ledger_id (bh_data_ledgers b))"
  "ledgers_grow p b \<Longrightarrow> has_data_ledger p l \<Longrightarrow> has_data_ledger b l"
  by (cases l; simp add: ledgers_grow_def)+

lemma push_success:
  assumes wf: "index_wf bi n" and n: "0 < n" and h: "bh_height (sb_header sb) = n" and c: "0 < c"
    and d: "distinct (map dtl_ledger_id (bh_data_ledgers (sb_header sb)))"
    and g: "\<And>x. x \<in> set (ledgers_at bi (n - 1)) \<Longrightarrow> has_data_ledger (sb_header sb) (lii_ledger x)"
    and ok: "push_block dup_ins sb c bi = Inr bi'"
  shows "pushable sb c bi n"
proof -
  obtain x where x: "map_of (bi_hashes bi) (n - 1) = Some x" "block_index_item_by_height bi (n - 1) =
      Inr \<lparr>bii_block_hash = x, bii_num_ledgers = length (ledgers_at bi (n - 1)), bii_ledgers = ledgers_at bi (n - 1)\<rparr>"
    using index_wf_item [OF wf, of "n - 1"] n by auto
  define p where "p = \<lparr>bii_block_hash = x, bii_num_ledgers = length (ledgers_at bi (n - 1)),
    bii_ledgers = ledgers_at bi (n - 1)\<rparr>"
  obtain ls where prev: "x = bh_previous_block_hash (sb_header sb)"
    and ls: "rmap (push_ledger sb c False (Some p)) (bh_data_ledgers (sb_header sb)) = Inr ls"
    using ok n unfolding push_block_def Let_def h x(2) p_def [symmetric]
    by (auto simp: rbind_Inr_iff p_def split: if_splits)
  have "ledger_pushable sb c bi n dl" if dl: "dl \<in> set (bh_data_ledgers (sb_header sb))" for dl
  proof -
    obtain item where "push_ledger sb c False (Some p) dl = Inr item"
      using list_all2_left [OF ls [unfolded rmap_Inr_iff] dl] by blast
    then obtain l k where l: "ledger_from_u32 (dtl_ledger_id dl) = Some l"
      and k: "calculate_chunks_added (get_ledger_txs (sb_transactions sb) l) c = Inr k"
      and t: "(case find_ledger l (bii_ledgers p) of None \<Rightarrow> 0 | Some x \<Rightarrow> lii_total_chunks x) + k < 2 ^ 64"
      by (auto simp: push_ledger_def rbind_Inr_iff Let_def split: if_splits)
    have "(case find_ledger l (bii_ledgers p) of None \<Rightarrow> 0 | Some x \<Rightarrow> lii_total_chunks x) = total_before bi l n"
      using n by (simp add: p_def total_before_def the_total_def total_at_def split: option.splits)
    then show ?thesis
      using l t calculate_chunks_added_Inr [OF c k] by (simp add: ledger_pushable_def)
  qed
  then show ?thesis using h c d g n x(1) prev by (simp add: pushable_def)
qed

lemma pushed_ledgers:
  assumes si: "set_insert dup_ins" and wf: "index_wf bi n" and p: "pushable sb c bi n"
    and ok: "push_block dup_ins sb c bi = Inr bi'" and x: "x \<in> set (ledgers_at bi' n)"
  shows "has_data_ledger (sb_header sb) (lii_ledger x)"
proof -
  have bi': "bi' = insert_block_index_item dup_ins n
      \<lparr>bii_block_hash = bh_block_hash (sb_header sb),
       bii_num_ledgers = length (bh_data_ledgers (sb_header sb)) mod 2 ^ 8,
       bii_ledgers = map (pushed_item sb c bi n) (bh_data_ledgers (sb_header sb))\<rparr> bi"
    using ok push_block_ok [OF wf p, of dup_ins] by (metis sum.inject(2))
  obtain dl where dl: "dl \<in> set (bh_data_ledgers (sb_header sb))" "x = pushed_item sb c bi n dl"
    using x unfolding bi' ledgers_at_insert(2) [OF si] by auto
  have "dtl_ledger_id dl = ledger_u32 (lii_ledger x)"
    unfolding dl(2) by (rule pushed_ledger) (use p dl(1) in \<open>simp add: pushable_def\<close>)
  then show ?thesis using dl(1) by (auto simp: has_data_ledger_def list_ex_iff)
qed

section \<open>Persisting one block\<close>

text \<open>
  What holds of two blocks of one chain, \<open>a\<close> before \<open>b\<close>: they are different blocks, no transaction is
  included or promoted twice or included after it was promoted, and no commitment is included twice
  (the epoch blocks list the commitments of their epoch again).
\<close>

definition txs_apart :: "migration_config \<Rightarrow> irys_block_header \<Rightarrow> irys_block_header \<Rightarrow> bool" where
  "txs_apart cfg a b \<longleftrightarrow>
     bh_block_hash a \<noteq> bh_block_hash b \<and>
     term_ids a \<inter> term_ids b = {} \<and> publish_ids a \<inter> publish_ids b = {} \<and>
     publish_ids a \<inter> term_ids b = {} \<and>
     (is_non_genesis_epoch_block cfg (bh_height a) \<or> is_non_genesis_epoch_block cfg (bh_height b) \<or>
      set (commitment_tx_ids a) \<inter> set (commitment_tx_ids b) = {})"

definition apart_from_index :: "migration_config \<Rightarrow> irys_db \<Rightarrow> nat \<Rightarrow> irys_block_header \<Rightarrow> bool" where
  "apart_from_index cfg db n b \<longleftrightarrow> (\<forall>h < n. \<forall>a. indexed_header db h = Some a \<longrightarrow> txs_apart cfg a b)"

abbreviation stored :: "irys_block_header \<Rightarrow> irys_block_header" where
  "stored b \<equiv> b\<lparr>bh_poa_chunk := None\<rparr>"

lemma stored_ids [simp]:
  "commitment_tx_ids (stored b) = commitment_tx_ids b"
  "has_data_ledger (stored b) l = has_data_ledger b l"
  "get_data_ledger_tx_ids_ordered (stored b) l = get_data_ledger_tx_ids_ordered b l"
  by (simp_all add: commitment_tx_ids_def has_data_ledger_def get_data_ledger_tx_ids_ordered_def)

lemma txs_apart_stored [simp]: "txs_apart cfg (stored a) b = txs_apart cfg a b"
  by (simp add: txs_apart_def)

lemma insert_tx_headers_frame: "\<exists>hs. fold insert_tx_header txs db = db\<lparr>db_data_tx_headers := hs\<rparr>"
proof (induction txs arbitrary: db)
  case Nil
  show ?case by (intro exI [of _ "db_data_tx_headers db"]) simp
next
  case (Cons tx txs)
  obtain hs where "fold insert_tx_header txs (insert_tx_header tx db) =
      (insert_tx_header tx db)\<lparr>db_data_tx_headers := hs\<rparr>" using Cons.IH by blast
  then show ?case by (intro exI [of _ hs]) (simp add: insert_tx_header_def [of tx db])
qed

lemma persist_ledger_txs_frame:
  "try_fold (persist_ledger_txs sb) dls db = Inr db' \<Longrightarrow> \<exists>hs. db' = db\<lparr>db_data_tx_headers := hs\<rparr>"
proof (induction dls arbitrary: db)
  case Nil
  then show ?case by (intro exI [of _ "db_data_tx_headers db"]) simp
next
  case (Cons dl dls)
  then obtain db1 where db1: "persist_ledger_txs sb dl db = Inr db1" "try_fold (persist_ledger_txs sb) dls db1 = Inr db'"
    by (auto simp: rbind_Inr_iff)
  obtain hs where "db1 = db\<lparr>db_data_tx_headers := hs\<rparr>"
    using db1(1) insert_tx_headers_frame by (auto simp: persist_ledger_txs_def rbind_Inr_iff)
  moreover obtain hs' where "db' = db1\<lparr>db_data_tx_headers := hs'\<rparr>"
    using Cons.IH [OF db1(2)] by blast
  ultimately show ?case by (intro exI [of _ hs']) simp
qed

lemma insert_commitments_frame: "\<exists>cs. fold insert_commitment_tx txs db = db\<lparr>db_commitments := cs\<rparr>"
proof (induction txs arbitrary: db)
  case Nil
  show ?case by (intro exI [of _ "db_commitments db"]) simp
next
  case (Cons tx txs)
  obtain cs where "fold insert_commitment_tx txs (insert_commitment_tx tx db) =
      (insert_commitment_tx tx db)\<lparr>db_commitments := cs\<rparr>" using Cons.IH by blast
  then show ?case by (intro exI [of _ cs]) (simp add: insert_commitment_tx_def [of tx db])
qed

lemma persist_commitments_iff:
  assumes "persist_commitment_inclusions cfg hdr m = Inr m'"
  shows "commitment_included m' = override (commitment_included m)
    (if is_non_genesis_epoch_block cfg (bh_height hdr) then {} else set (commitment_tx_ids hdr)) (Some (bh_height hdr))"
  using assms batch_set_commitment_ok [of "commitment_tx_ids hdr" "bh_height hdr" m]
  by (auto simp: persist_commitment_inclusions_def Let_def split: if_splits)

text \<open>The tables after a block was persisted.\<close>

definition persisted :: "migration_config \<Rightarrow> irys_block_header \<Rightarrow> irys_db \<Rightarrow> irys_db \<Rightarrow> bool" where
  "persisted cfg hdr db db' \<longleftrightarrow>
     map_of (db_block_headers db') = (map_of (db_block_headers db))(bh_block_hash hdr \<mapsto> stored hdr) \<and>
     included (db_data_metadata db') =
       override (included (db_data_metadata db)) (term_ids hdr) (Some (bh_height hdr)) \<and>
     promoted (db_data_metadata db') =
       override (promoted (db_data_metadata db)) (publish_ids hdr) (Some (bh_height hdr)) \<and>
     commitment_included (db_commitment_metadata db') =
       override (commitment_included (db_commitment_metadata db))
         (if is_non_genesis_epoch_block cfg (bh_height hdr) then {} else set (commitment_tx_ids hdr))
         (Some (bh_height hdr))"

lemma insert_block_header_fields:
  "map_of (db_block_headers (insert_block_header b db)) = (map_of (db_block_headers db))(bh_block_hash b \<mapsto> stored b)"
  "db_data_metadata (insert_block_header b db) = db_data_metadata db"
  "db_commitment_metadata (insert_block_header b db) = db_commitment_metadata db"
  "db_index (insert_block_header b db) = db_index db"
  by (simp_all add: insert_block_header_def Let_def update_conv' split: option.splits)

lemma persist_block_iff:
  assumes "persist_block cfg sb db = Inr db'"
  shows "persisted cfg (sb_header sb) db db'"
    and "push_block (mc_dup_ins cfg) sb (mc_chunk_size cfg) (db_index db) = Inr (db_index db')"
proof -
  let ?h = "sb_header sb"
  obtain cs where cs: "fold insert_commitment_tx (get_ledger_system_txs (sb_transactions sb) Commitment) db =
      db\<lparr>db_commitments := cs\<rparr>" using insert_commitments_frame by blast
  obtain db1 dm cm bi where
    1: "try_fold (persist_ledger_txs sb) (bh_data_ledgers ?h) (db\<lparr>db_commitments := cs\<rparr>) = Inr db1"
    and dm: "write_data_ledger_metadata (bh_data_ledgers ?h) (bh_height ?h) (db_data_metadata db1) = Inr dm"
    and cm: "persist_commitment_inclusions cfg ?h (db_commitment_metadata db1) = Inr cm"
    and bi: "push_block (mc_dup_ins cfg) sb (mc_chunk_size cfg) (db_index db1) = Inr bi"
    and db': "db' = (insert_block_header ?h (db1\<lparr>db_data_metadata := dm, db_commitment_metadata := cm\<rparr>))\<lparr>db_index := bi\<rparr>"
    using assms unfolding persist_block_def Let_def cs
    by (auto simp: rbind_Inr_iff insert_block_header_fields)
  obtain hs where db1: "db1 = db\<lparr>db_commitments := cs, db_data_tx_headers := hs\<rparr>"
    using persist_ledger_txs_frame [OF 1] by auto
  show "push_block (mc_dup_ins cfg) sb (mc_chunk_size cfg) (db_index db) = Inr (db_index db')"
    using bi by (simp add: db1 db')
  show "persisted cfg ?h db db'"
    using write_metadata_iff(1,2) [OF dm] persist_commitments_iff [OF cm]
    by (simp add: persisted_def db' insert_block_header_fields db1)
qed

lemma persist_block_wf:
  assumes si: "set_insert (mc_dup_ins cfg)" and c: "0 < mc_chunk_size cfg" and wf: "tables_wf cfg db n"
    and n: "0 < n" "bh_height (sb_header sb) = n"
    and p: "indexed_header db (n - 1) = Some p" "ledgers_grow p (sb_header sb)"
    and apart: "apart_from_index cfg db n (sb_header sb)"
    and ok: "persist_block cfg sb db = Inr db'"
  shows "tables_wf cfg db' (Suc n)" and "h < n \<Longrightarrow> indexed_header db' h = indexed_header db h"
    and "indexed_header db' n = Some (stored (sb_header sb))"
proof -
  let ?b = "sb_header sb"
  note ix = tables_wfD(1) [OF wf]
  note P = persist_block_iff(1) [OF ok, unfolded persisted_def]
  have "has_data_ledger ?b (lii_ledger x)" if "x \<in> set (ledgers_at (db_index db) (n - 1))" for x
    using tables_wfD(2) [OF wf, of "n - 1"] n(1) p that ledgers_growD(2) by (auto simp: header_matches_def)
  from push_success [OF ix n c ledgers_growD(1) [OF p(2)] this persist_block_iff(2) [OF ok]]
  have pushable: "pushable sb (mc_chunk_size cfg) (db_index db) n" .
  from push_block_wf [OF si ix this] persist_block_iff(2) [OF ok]
  have ix': "index_wf (db_index db') (Suc n)"
    and top: "map_of (bi_hashes (db_index db')) n = Some (bh_block_hash ?b)"
    and agree: "\<And>a. a < n \<Longrightarrow> agree_to (db_index db') (db_index db) a" by auto
  have hash: "map_of (bi_hashes (db_index db')) h = map_of (bi_hashes (db_index db)) h"
    and ledgers: "ledgers_at (db_index db') h = ledgers_at (db_index db) h" if "h < n" for h
    using agree [OF that] by (auto simp: agree_to_def ledgers_at_def)
  have old: "indexed_header db' h = indexed_header db h" if h: "h < n" for h
  proof -
    obtain a where a: "indexed_header db h = Some a" "header_matches db h a"
      using tables_wfD(2) [OF wf h] by blast
    then have "bh_block_hash a \<noteq> bh_block_hash ?b"
      using apart h by (auto simp: apart_from_index_def txs_apart_def)
    then show ?thesis
      using a P hash [OF h] by (auto simp: indexed_header_def header_matches_def)
  qed
  then show "h < n \<Longrightarrow> indexed_header db' h = indexed_header db h" .
  show new: "indexed_header db' n = Some (stored ?b)"
    using P top by (simp add: indexed_header_def)
  have "header_matches db' h a \<and> rows_name cfg db' h a" if h: "h < n" and a: "indexed_header db h = Some a" for h a
  proof -
    have "header_matches db h a" "rows_name cfg db h a" "txs_apart cfg a ?b"
      using tables_wfD(2) [OF wf h] a apart h by (auto simp: apart_from_index_def)
    then show ?thesis
      using P hash [OF h] ledgers [OF h] n(2)
      by (auto simp: header_matches_def rows_name_def txs_apart_def override_def)
  qed
  moreover have "header_matches db' n (stored ?b)"
    using pushed_ledgers [OF si ix pushable persist_block_iff(2) [OF ok]] top n(2)
    by (simp add: header_matches_def)
  moreover have "rows_name cfg db' n (stored ?b)"
    using P n(2) by (auto simp: rows_name_def override_def)
  ultimately show "tables_wf cfg db' (Suc n)"
    using ix' old new tables_wfD(2) [OF wf] by (fastforce simp: tables_wf_def less_Suc_eq)
qed

section \<open>Migrating a branch\<close>

lemma ledgers_grow_stored [simp]: "ledgers_grow (stored p) b = ledgers_grow p b"
  by (simp add: ledgers_grow_def)

fun grow_chain :: "irys_block_header \<Rightarrow> 'b sealed_block list \<Rightarrow> bool" where
  "grow_chain p [] = True"
| "grow_chain p (b # bs) = (ledgers_grow p (sb_header b) \<and> grow_chain (sb_header b) bs)"

lemma grow_chain_stored [simp]: "grow_chain (stored p) bs = grow_chain p bs"
  by (cases bs) simp_all

text \<open>What the blocks of a branch promise when they are to follow the \<open>n\<close> indexed blocks.\<close>

definition migratable :: "migration_config \<Rightarrow> irys_db \<Rightarrow> nat \<Rightarrow> full_block list \<Rightarrow> bool" where
  "migratable cfg db n bs \<longleftrightarrow>
     (\<exists>p. indexed_header db (n - 1) = Some p \<and> grow_chain p bs) \<and>
     (\<forall>b \<in> set bs. apart_from_index cfg db n (sb_header b)) \<and>
     sorted_wrt (\<lambda>a b. txs_apart cfg (sb_header a) (sb_header b)) bs"

definition appended :: "full_block list \<Rightarrow> nat \<Rightarrow> irys_db \<Rightarrow> irys_db \<Rightarrow> bool" where
  "appended bs n db db' \<longleftrightarrow>
     (\<forall>h < n. indexed_header db' h = indexed_header db h) \<and>
     (\<forall>i < length bs. indexed_header db' (n + i) = Some (stored (sb_header (bs ! i))))"

lemma appended_Nil [simp]: "appended [] n db db"
  by (simp add: appended_def)

lemma appended_Cons:
  assumes "\<And>h. h < n \<Longrightarrow> indexed_header db1 h = indexed_header db h"
    and "indexed_header db1 n = Some (stored (sb_header b))" and "appended bs (Suc n) db1 db2"
  shows "appended (b # bs) n db db2"
  unfolding appended_def
proof (intro conjI allI impI)
  fix h assume "h < n"
  then show "indexed_header db2 h = indexed_header db h" using assms(1,3) by (simp add: appended_def)
next
  fix i assume "i < length (b # bs)"
  then show "indexed_header db2 (n + i) = Some (stored (sb_header ((b # bs) ! i)))"
    using assms(2,3) by (cases i) (auto simp: appended_def)
qed

lemma migrate_one_iff:
  assumes "migrate_one cfg sb s = (Inr (), s')"
  shows "persist_block cfg sb (ms_db s) = Inr (ms_db s')"
    and "reward_migrated_block cfg (bh_height (sb_header sb)) (ms_supply s) = Inr (ms_supply s')"
    and "map fst (ms_migrated s') = map fst (ms_migrated s) @ [sb_header sb]"
    and "ms_cached_data_roots s' = ms_cached_data_roots s"
  using assms by (auto simp: migrate_one_def send_chunk_migration_def Let_def split: sum.splits if_splits)

lemma migratable_Cons:
  assumes m: "migratable cfg db n (b # bs)"
    and 1: "\<And>h. h < n \<Longrightarrow> indexed_header db1 h = indexed_header db h"
    and 2: "indexed_header db1 n = Some (stored (sb_header b))"
  shows "migratable cfg db1 (Suc n) bs"
  using m 1 2 by (auto simp: migratable_def apart_from_index_def less_Suc_eq)

lemma migrate_list_wf:
  assumes si: "set_insert (mc_dup_ins cfg)" and c: "0 < mc_chunk_size cfg"
  shows "tables_wf cfg (ms_db s) n \<Longrightarrow> 0 < n \<Longrightarrow>
    map (\<lambda>b. bh_height (sb_header b)) bs = [n ..< n + length bs] \<Longrightarrow> migratable cfg (ms_db s) n bs \<Longrightarrow>
    st_fold (migrate_one cfg) bs s = (Inr (), s') \<Longrightarrow>
    tables_wf cfg (ms_db s') (n + length bs) \<and> appended bs n (ms_db s) (ms_db s') \<and>
    map fst (ms_migrated s') = map fst (ms_migrated s) @ map sb_header bs \<and>
    ms_cached_data_roots s' = ms_cached_data_roots s"
proof (induction bs arbitrary: s n)
  case Nil
  then show ?case by simp
next
  case (Cons b bs)
  obtain s1 where s1: "migrate_one cfg b s = (Inr (), s1)" "st_fold (migrate_one cfg) bs s1 = (Inr (), s')"
    using Cons.prems(5) by (auto simp: sbind_Inr_iff)
  have "map (\<lambda>b. bh_height (sb_header b)) (b # bs) = n # [Suc n ..< Suc n + length bs]"
    unfolding Cons.prems(3) by (simp add: upt_conv_Cons del: upt_Suc)
  then have hb: "bh_height (sb_header b) = n"
    and hbs: "map (\<lambda>b. bh_height (sb_header b)) bs = [Suc n ..< Suc n + length bs]" by simp_all
  obtain p where p: "indexed_header (ms_db s) (n - 1) = Some p" "ledgers_grow p (sb_header b)"
    using Cons.prems(4) by (auto simp: migratable_def)
  have apart: "apart_from_index cfg (ms_db s) n (sb_header b)"
    using Cons.prems(4) by (simp add: migratable_def)
  note M = migrate_one_iff [OF s1(1)]
  note P = persist_block_wf [OF si c Cons.prems(1,2) hb p apart M(1)]
  have "tables_wf cfg (ms_db s') (Suc n + length bs) \<and> appended bs (Suc n) (ms_db s1) (ms_db s') \<and>
      map fst (ms_migrated s') = map fst (ms_migrated s1) @ map sb_header bs \<and>
      ms_cached_data_roots s' = ms_cached_data_roots s1"
    by (rule Cons.IH [OF P(1) _ hbs migratable_Cons [OF Cons.prems(4) P(2,3)] s1(2)]) simp_all
  then show ?case
    using M(3,4) appended_Cons [OF P(2,3), of bs "ms_db s'"] by simp
qed

section \<open>Collecting the branch\<close>

lemma branch_self [simp]: "bs_wf bs \<Longrightarrow> map_of bs a = Some e \<Longrightarrow> branch bs a a = []"
  by (simp add: branch_def ancestry_Some)

lemma branch_step:
  assumes "bs_wf bs" and "map_of bs h = Some e" and "h \<noteq> a"
  shows "branch bs a h = branch bs a (parent_of e) @ [bm_block e]"
  using assms by (simp add: branch_def ancestry_Some)

lemma collect_branch:
  assumes wf: "bs_wf bs"
  shows "banc bs a h \<Longrightarrow> bht bs h - bht bs a \<le> n \<Longrightarrow>
    collect_to_migrate n bs a h acc = Inr (branch bs a h @ acc)"
proof (induction n arbitrary: h acc)
  case 0
  have "bht bs a = bht bs h" using banc_ht [OF wf 0(1)] 0(2) by simp
  then have "a = h" by (rule banc_eq [OF wf 0(1)])
  moreover obtain e where "map_of bs h = Some e" using anc_nodes(2) [OF 0(1)] by auto
  ultimately show ?case using wf by (simp add: collect_to_migrate.simps [of 0])
next
  case (Suc n)
  obtain e where e: "map_of bs h = Some e" using anc_nodes(2) [OF Suc.prems(1)] by auto
  show ?case
  proof (cases "h = a")
    case True
    then show ?thesis using wf e by (simp add: collect_to_migrate.simps [of "Suc n"])
  next
    case False
    then have p: "banc bs a (parent_of e)" using banc_proper [OF e Suc.prems(1)] by simp
    then obtain pe where "map_of bs (parent_of e) = Some pe" using anc_nodes(2) [OF p] by auto
    then have "bht bs h = Suc (bht bs (parent_of e))" by (rule bs_wf_parent_ht [OF wf e])
    then have "bht bs (parent_of e) - bht bs a \<le> n" using Suc.prems(2) by simp
    from Suc.IH [OF p this] show ?thesis
      using e False branch_step [OF wf e False] by (simp add: collect_to_migrate.simps [of "Suc n"])
  qed
qed

text \<open>
  When the last indexed block is not an ancestor of the migration block, and is not the parent of the
  oldest ancestor either, the walk leaves the tree.
\<close>

lemma collect_missing:
  assumes wf: "bs_wf bs"
  shows "\<not> banc bs a h \<Longrightarrow> (\<And>x e. banc bs x h \<Longrightarrow> map_of bs x = Some e \<Longrightarrow> parent_of e \<noteq> a) \<Longrightarrow>
    h \<noteq> a \<Longrightarrow> depth bs h < n \<Longrightarrow>
    \<exists>x. collect_to_migrate n bs a h acc = Inl (BlockNotFoundWhileCollecting x)"
proof (induction n arbitrary: h acc)
  case 0
  then show ?case by simp
next
  case (Suc n)
  show ?case
  proof (cases "map_of bs h")
    case None
    then show ?thesis using Suc.prems(3) by (simp add: collect_to_migrate.simps [of "Suc n"])
  next
    case (Some e)
    have up: "banc bs x h" if "banc bs x (parent_of e)" for x
    proof (rule anc_step)
      show "h \<in> bdom bs" using Some by auto
      show "banc bs x (bpar bs h)" using that Some by simp
    qed
    have "\<exists>x. collect_to_migrate n bs a (parent_of e) (bm_block e # acc) = Inl (BlockNotFoundWhileCollecting x)"
    proof (rule Suc.IH)
      show "\<not> banc bs a (parent_of e)" using up Suc.prems(1) by blast
      show "parent_of e \<noteq> a" using Suc.prems(2) [OF banc_refl [OF Some] Some] .
      show "depth bs (parent_of e) < n" using depth_Some [OF wf Some] Suc.prems(4) by simp
      show "parent_of xe \<noteq> a" if "banc bs x (parent_of e)" "map_of bs x = Some xe" for x xe
        using Suc.prems(2) up that by blast
    qed
    then show ?thesis using Some Suc.prems(3) by (simp add: collect_to_migrate.simps [of "Suc n"])
  qed
qed

lemma get_latest_item_wf:
  assumes "index_wf bi n" and "0 < n" and "map_of (bi_hashes bi) (n - 1) = Some a"
  shows "\<exists>item. get_latest_item bi = Some item \<and> bii_block_hash item = a"
  using index_wf_item [OF assms(1), of "n - 1"] assms(2,3)
  by (auto simp: get_latest_item_def index_wf_latest [OF assms(1)] get_item_def)

lemma check_windows_branch:
  "successively (\<lambda>p b. bh_height (sb_header b) = Suc (bh_height (sb_header p)) \<and>
     bh_previous_block_hash (sb_header b) = bh_block_hash (sb_header p)) bs \<Longrightarrow> check_windows bs = Inr ()"
  by (induction bs rule: check_windows.induct) (simp_all add: ensure_def)

lemma branch_linked:
  assumes wf: "bs_wf bs" and "banc bs a h"
  shows "successively (\<lambda>p b. bh_height (sb_header b) = Suc (bh_height (sb_header p)) \<and>
      bh_previous_block_hash (sb_header b) = bh_block_hash (sb_header p)) (branch bs a h) \<and>
    (branch bs a h \<noteq> [] \<longrightarrow>
       bh_block_hash (sb_header (last (branch bs a h))) = h \<and>
       bh_height (sb_header (last (branch bs a h))) = bht bs h \<and>
       bh_previous_block_hash (sb_header (hd (branch bs a h))) = a)"
  using assms(2)
proof (induction rule: anc.induct)
  case (anc_refl h)
  then show ?case using wf by (auto dest: branch_self)
next
  case (anc_step h a)
  then obtain e where e: "map_of bs h = Some e" by auto
  then have p: "banc bs a (parent_of e)" using anc_step(2) by simp
  then obtain pe where pe: "map_of bs (parent_of e) = Some pe" using anc_nodes(2) [OF p] by auto
  have ha: "h \<noteq> a"
    using not_banc_parent [OF wf e] p by blast
  note st = branch_step [OF wf e ha] and ht = bs_wf_parent_ht [OF wf e pe]
  have hh: "bh_block_hash (header_of e) = h" using bs_wf_hash [OF wf e] .
  show ?case
  proof (cases "branch bs a (parent_of e) = []")
    case True
    have "parent_of e = a"
    proof (rule ccontr)
      assume "parent_of e \<noteq> a"
      from branch_step [OF wf pe this] True show False by simp
    qed
    then show ?thesis unfolding st True using hh e by simp
  next
    case False
    then show ?thesis
      unfolding st using anc_step.IH e ht hh pe by (simp add: successively_append_iff)
  qed
qed

lemma prepare_migration_ok:
  assumes wf: "bs_wf (blocks t)" and ix: "index_wf bi n" "0 < n" "map_of (bi_hashes bi) (n - 1) = Some a"
    and a: "banc (blocks t) a (bh_block_hash mb)" "bht (blocks t) a = n - 1"
  shows "prepare_migration mb t bi =
    (case find (\<lambda>b. bh_poa_chunk (sb_header b) = None) (branch (blocks t) a (bh_block_hash mb)) of
       None \<Rightarrow> Inr (branch (blocks t) a (bh_block_hash mb))
     | Some b \<Rightarrow> Inl (PoaChunkMissing (bh_block_hash (sb_header b))))"
proof -
  let ?br = "branch (blocks t) a (bh_block_hash mb)"
  obtain item where item: "get_latest_item bi = Some item" "bii_block_hash item = a"
    using get_latest_item_wf [OF ix] by blast
  have "bht (blocks t) (bh_block_hash mb) - bht (blocks t) a \<le> fuel_of (blocks t)"
    using banc_height_bound [OF wf a(1)] by simp
  from collect_branch [OF wf a(1) this, of "[]"]
  have get: "get_blocks_to_migrate mb t bi = Inr ?br"
    using item by (simp add: get_blocks_to_migrate_def ok_or_def)
  note L = branch_linked [OF wf a(1)]
  have val: "validate_migration_continuity ?br bi = Inr ()"
  proof (cases ?br)
    case Nil
    then show ?thesis by (simp add: validate_migration_continuity_def)
  next
    case (Cons b bs)
    have "bh_height (sb_header b) = n"
      using branch_heights [OF wf a(1), symmetric] Cons a(2) ix(2) by (simp add: upt_eq_Cons_conv del: upt_Suc)
    then show ?thesis
      using item L check_windows_branch [of ?br] Cons ix(2)
      by (simp add: validate_migration_continuity_def ok_or_def latest_height_wf [OF ix(1)] ensure_def)
  qed
  have poa: "rbind (try_fold (\<lambda>b _. ensure (bh_poa_chunk (sb_header b) \<noteq> None)
        (PoaChunkMissing (bh_block_hash (sb_header b)))) bs ()) (\<lambda>_. Inr r) =
      (case find (\<lambda>b. bh_poa_chunk (sb_header b) = None) bs of
         None \<Rightarrow> Inr r | Some b \<Rightarrow> Inl (PoaChunkMissing (bh_block_hash (sb_header b))))"
    for bs :: "'a sealed_block list" and r :: "'a sealed_block list"
    by (induction bs) (auto simp: ensure_def)
  show ?thesis unfolding prepare_migration_def get rbind_simps val poa ..
qed

text \<open>The hash of the last indexed block.\<close>

definition index_tip :: "block_index \<Rightarrow> nat \<Rightarrow> h256" where
  "index_tip bi n = (case map_of (bi_hashes bi) (n - 1) of None \<Rightarrow> 0 | Some a \<Rightarrow> a)"

lemma index_tip_Some: "index_wf bi n \<Longrightarrow> 0 < n \<Longrightarrow> map_of (bi_hashes bi) (n - 1) = Some (index_tip bi n)"
  using index_wf_hash [of bi n "n - 1"] by (auto simp: index_tip_def)

lemma migrate_blocks_wf:
  assumes cfg: "set_insert (mc_dup_ins cfg)" "0 < mc_chunk_size cfg"
    and wf: "bs_wf (blocks t)" and T: "tables_wf cfg (ms_db s) n" "0 < n"
    and a: "a = index_tip (db_index (ms_db s)) n" "banc (blocks t) a (bh_block_hash mb)" "bht (blocks t) a = n - 1"
    and m: "migratable cfg (ms_db s) n (branch (blocks t) a (bh_block_hash mb))"
    and ok: "migrate_blocks cfg mb t s = (Inr (), s')"
  shows "tables_wf cfg (ms_db s') (Suc (bht (blocks t) (bh_block_hash mb)))"
    and "appended (branch (blocks t) a (bh_block_hash mb)) n (ms_db s) (ms_db s')"
    and "index_tip (db_index (ms_db s')) (Suc (bht (blocks t) (bh_block_hash mb))) = bh_block_hash mb"
    and "map fst (ms_migrated s') = map fst (ms_migrated s) @ map sb_header (branch (blocks t) a (bh_block_hash mb))"
    and "ms_cached_data_roots s' = ms_cached_data_roots s"
proof -
  let ?br = "branch (blocks t) a (bh_block_hash mb)" and ?H = "bht (blocks t) (bh_block_hash mb)"
  note ix = tables_wfD(1) [OF T(1)]
  note P = prepare_migration_ok [OF wf ix T(2) index_tip_Some [OF ix T(2)] a(2,3) [unfolded a(1)], folded a(1)]
  have fold: "st_fold (migrate_one cfg) ?br s = (Inr (), s')"
    using ok unfolding migrate_blocks_def P by (auto split: option.splits)
  have le: "n - 1 \<le> ?H" using banc_ht [OF wf a(2)] a(3) by simp
  have len: "length ?br = ?H - (n - 1)"
    using arg_cong [OF branch_heights [OF wf a(2)], of length] a(3) by (simp del: upt_Suc)
  have hs: "map (\<lambda>b. bh_height (sb_header b)) ?br = [n ..< n + length ?br]"
    unfolding branch_heights [OF wf a(2)] len using a(3) T(2) le by (simp del: upt_Suc)
  have N: "n + length ?br = Suc ?H" using len le T(2) by simp
  note M = migrate_list_wf [OF cfg T hs m fold]
  then show wf': "tables_wf cfg (ms_db s') (Suc ?H)" and app: "appended ?br n (ms_db s) (ms_db s')"
    and "map fst (ms_migrated s') = map fst (ms_migrated s) @ map sb_header ?br"
    and "ms_cached_data_roots s' = ms_cached_data_roots s" unfolding N by blast+
  show "index_tip (db_index (ms_db s')) (Suc ?H) = bh_block_hash mb"
  proof (cases "?br = []")
    case True
    then have "n - 1 = ?H" using len le by simp
    then have "a = bh_block_hash mb" using banc_eq [OF wf a(2)] a(3) by simp
    moreover have "s' = s" using fold True by simp
    moreover have "Suc ?H = n" using \<open>n - 1 = ?H\<close> T(2) by simp
    ultimately show ?thesis using a(1) by simp
  next
    case False
    define i where "i = length ?br - 1"
    have len0: "0 < length ?br" using False by simp
    then have i: "i < length ?br" "?br ! i = last ?br"
      by (simp_all add: i_def last_conv_nth False)
    have H: "n + i = ?H" using N len0 unfolding i_def by linarith
    have "indexed_header (ms_db s') ?H = Some (stored (sb_header (last ?br)))"
      using app i unfolding appended_def H [symmetric] by simp
    moreover obtain hdr where "indexed_header (ms_db s') ?H = Some hdr" "header_matches (ms_db s') ?H hdr"
      using tables_wfD(2) [OF wf', of ?H] by blast
    ultimately show ?thesis
      using branch_linked [OF wf a(2)] False by (simp add: header_matches_def index_tip_def)
  qed
qed

section \<open>Clearing abandoned blocks\<close>

definition commitments_of :: "migration_config \<Rightarrow> irys_block_header \<Rightarrow> h256 set" where
  "commitments_of cfg b =
     (if is_non_genesis_epoch_block cfg (bh_height b) then {} else set (commitment_tx_ids b))"

lemma clear_commitments_rows:
  "commitment_included (clear_commitment_inclusions cfg b m) =
     override (commitment_included m) (commitments_of cfg b) None"
  by (simp add: clear_commitment_inclusions_def commitments_of_def Let_def batch_clear_commitment_rows)

definition cleared :: "migration_config \<Rightarrow> irys_block_header list \<Rightarrow> irys_db \<Rightarrow> irys_db \<Rightarrow> bool" where
  "cleared cfg bs db db' \<longleftrightarrow>
     db_index db' = db_index db \<and> db_block_headers db' = db_block_headers db \<and>
     included (db_data_metadata db') =
       override (included (db_data_metadata db)) (\<Union>b \<in> set bs. term_ids b) None \<and>
     promoted (db_data_metadata db') =
       override (promoted (db_data_metadata db)) (\<Union>b \<in> set bs. term_ids b \<union> publish_ids b) None \<and>
     commitment_included (db_commitment_metadata db') =
       override (commitment_included (db_commitment_metadata db)) (\<Union>b \<in> set bs. commitments_of cfg b) None"

lemma clear_list_ok:
  "\<exists>db'. try_fold (clear_block_metadata cfg) bs db = Inr db' \<and> cleared cfg (map sb_header bs) db db'"
proof (induction bs arbitrary: db)
  case Nil
  then show ?case by (simp add: cleared_def)
next
  case (Cons b bs)
  obtain m where m: "clear_block_metadata cfg b db = Inr (db\<lparr>db_data_metadata := m,
       db_commitment_metadata := clear_commitment_inclusions cfg (sb_header b) (db_commitment_metadata db)\<rparr>)"
    "included m = override (included (db_data_metadata db)) (term_ids (sb_header b)) None"
    "promoted m = override (promoted (db_data_metadata db)) (term_ids (sb_header b) \<union> publish_ids (sb_header b)) None"
    using clear_block_metadata_ok [of cfg b db] by blast
  define db1 where "db1 = db\<lparr>db_data_metadata := m,
       db_commitment_metadata := clear_commitment_inclusions cfg (sb_header b) (db_commitment_metadata db)\<rparr>"
  obtain db' where db': "try_fold (clear_block_metadata cfg) bs db1 = Inr db'" "cleared cfg (map sb_header bs) db1 db'"
    using Cons.IH by blast
  have "cleared cfg (map sb_header (b # bs)) db db'"
    using db'(2) by (simp add: cleared_def db1_def m(2,3) override_override clear_commitments_rows)
  then show ?case using m(1) db'(1) by (simp add: db1_def)
qed

lemma cleared_wf:
  assumes wf: "tables_wf cfg db n" and c: "cleared cfg bs db db'"
    and apart: "\<And>b. b \<in> set bs \<Longrightarrow> apart_from_index cfg db n b"
  shows "tables_wf cfg db' n" and "indexed_header db' h = indexed_header db h"
proof -
  have ix: "db_index db' = db_index db" "db_block_headers db' = db_block_headers db"
    using c by (simp_all add: cleared_def)
  then show ih: "indexed_header db' h = indexed_header db h" for h by (simp add: indexed_header_def)
  have "header_matches db' h a \<and> rows_name cfg db' h a" if h: "h < n" and a: "indexed_header db h = Some a" for h a
  proof -
    have A: "header_matches db h a" "rows_name cfg db h a" using tables_wfD(2) [OF wf h] a by auto
    have B: "txs_apart cfg a b" if "b \<in> set bs" for b
      using apart [OF that] h a by (simp add: apart_from_index_def)
    have "bh_height a = h" using A(1) by (simp add: header_matches_def)
    then have t: "tx \<notin> (\<Union>b \<in> set bs. term_ids b)" if "tx \<in> term_ids a \<or> tx \<in> publish_ids a" for tx
      using B that unfolding txs_apart_def by blast
    have p: "tx \<notin> (\<Union>b \<in> set bs. publish_ids b)" if "tx \<in> publish_ids a" for tx
      using B that unfolding txs_apart_def by blast
    have "tx \<notin> commitments_of cfg b"
      if "tx \<in> set (commitment_tx_ids a)" "\<not> is_non_genesis_epoch_block cfg h" "b \<in> set bs" for tx b
    proof (cases "is_non_genesis_epoch_block cfg (bh_height b)")
      case False
      then show ?thesis
        using B [OF that(3)] that(1,2) \<open>bh_height a = h\<close> unfolding txs_apart_def commitments_of_def by auto
    qed (simp add: commitments_of_def)
    then show ?thesis
      using A t p c ix unfolding header_matches_def rows_name_def cleared_def override_def by auto
  qed
  then show "tables_wf cfg db' n"
    using wf ih ix by (fastforce simp: tables_wf_def split: option.splits)
qed

section \<open>Recovery\<close>

lemma truncated_wf:
  assumes wf: "tables_wf cfg db n" and f: "f < n" "f + 1 < 2 ^ 64"
    and bi: "truncate_to_height f (db_index db) = Inr bi"
  shows "tables_wf cfg (db\<lparr>db_index := bi\<rparr>) (Suc f)"
    and "h \<le> f \<Longrightarrow> indexed_header (db\<lparr>db_index := bi\<rparr>) h = indexed_header db h"
proof -
  note ix = tables_wfD(1) [OF wf]
  have "min n (Suc f) = Suc f" using f(1) by simp
  then have ix': "index_wf bi (Suc f)" and agree: "agree_to bi (db_index db) f"
    using truncate_wf [OF ix f(2)] bi by auto
  have hash: "map_of (bi_hashes bi) h = map_of (bi_hashes (db_index db)) h"
    and ledgers: "ledgers_at bi h = ledgers_at (db_index db) h" if "h \<le> f" for h
    using agree that by (auto simp: agree_to_def ledgers_at_def)
  then show old: "indexed_header (db\<lparr>db_index := bi\<rparr>) h = indexed_header db h" if "h \<le> f" for h
    using that by (simp add: indexed_header_def)
  have "\<exists>hdr. indexed_header db h = Some hdr \<and> header_matches (db\<lparr>db_index := bi\<rparr>) h hdr \<and>
      rows_name cfg (db\<lparr>db_index := bi\<rparr>) h hdr" if "h \<le> f" for h
    using tables_wfD(2) [OF wf, of h] that f(1) hash [OF that] ledgers [OF that]
    by (auto simp: header_matches_def rows_name_def)
  then show "tables_wf cfg (db\<lparr>db_index := bi\<rparr>) (Suc f)"
    using ix' old by (intro tables_wfI) (simp_all add: less_Suc_eq_le)
qed

lemma recover_cases:
  assumes wf: "index_wf (db_index (ms_db s)) n" "0 < n" and n: "n \<le> 2 ^ 64"
    and sm: "mc_storage_modules_set cfg"
  shows "f \<ge> n - 1 \<Longrightarrow> recover_from_network_partition cfg f s = (Inr (), s)"
    and "f < finalized_height (n - 1) (mc_block_tree_depth cfg) (mc_block_migration_depth cfg) \<Longrightarrow>
      recover_from_network_partition cfg f s =
        (Inl (BelowFinalized f (finalized_height (n - 1) (mc_block_tree_depth cfg) (mc_block_migration_depth cfg))), s)"
    and "f < n - 1 \<Longrightarrow>
      finalized_height (n - 1) (mc_block_tree_depth cfg) (mc_block_migration_depth cfg) \<le> f \<Longrightarrow>
      rmap (block_rollback cfg (ms_db s)) [f + 1..<n] = Inr infos \<Longrightarrow>
      \<exists>bi. truncate_to_height f (db_index (ms_db s)) = Inr bi \<and>
        recover_from_network_partition cfg f s =
          (Inr (), s\<lparr>ms_rolled_back := ms_rolled_back s @ [infos], ms_db := (ms_db s)\<lparr>db_index := bi\<rparr>,
             ms_supply := map_option (rollback_reward f
               (fold (\<lambda>info acc. saturating_add acc (bri_emission info)) infos 0)) (ms_supply s)\<rparr>)"
    and "f < n - 1 \<Longrightarrow>
      finalized_height (n - 1) (mc_block_tree_depth cfg) (mc_block_migration_depth cfg) \<le> f \<Longrightarrow>
      rmap (block_rollback cfg (ms_db s)) [f + 1..<n] = Inl e \<Longrightarrow>
      recover_from_network_partition cfg f s = (Inl e, s)"
proof -
  let ?fin = "finalized_height (n - 1) (mc_block_tree_depth cfg) (mc_block_migration_depth cfg)"
  note l = index_wf_latest [OF wf(1)]
  have S: "Suc (n - 1) = n" using wf(2) by simp
  show "f \<ge> n - 1 \<Longrightarrow> recover_from_network_partition cfg f s = (Inr (), s)"
    using wf(2) sm by (simp add: recover_from_network_partition_def l)
  show "recover_from_network_partition cfg f s = (Inl (BelowFinalized f ?fin), s)" if "f < ?fin"
  proof -
    have "\<not> f \<ge> n - 1" using that by (simp add: finalized_height_def Let_def)
    then show ?thesis using that wf(2) sm by (simp add: recover_from_network_partition_def l Let_def)
  qed
  show "\<exists>bi. truncate_to_height f (db_index (ms_db s)) = Inr bi \<and>
        recover_from_network_partition cfg f s =
          (Inr (), s\<lparr>ms_rolled_back := ms_rolled_back s @ [infos], ms_db := (ms_db s)\<lparr>db_index := bi\<rparr>,
             ms_supply := map_option (rollback_reward f
               (fold (\<lambda>info acc. saturating_add acc (bri_emission info)) infos 0)) (ms_supply s)\<rparr>)"
    if "f < n - 1" "?fin \<le> f" "rmap (block_rollback cfg (ms_db s)) [f + 1..<n] = Inr infos"
  proof -
    have "f + 1 < 2 ^ 64" using that(1) n by linarith
    from truncate_wf [OF wf(1) this] obtain bi where bi: "truncate_to_height f (db_index (ms_db s)) = Inr bi" by blast
    moreover have "\<not> n - 1 \<le> f" "\<not> f < ?fin" using that by simp_all
    ultimately show ?thesis
      using that(3) sm wf(2) unfolding recover_from_network_partition_def l Let_def
      by (simp add: S del: One_nat_def upt_Suc)
  qed
  show "recover_from_network_partition cfg f s = (Inl e, s)"
    if "f < n - 1" "?fin \<le> f" "rmap (block_rollback cfg (ms_db s)) [f + 1..<n] = Inl e"
  proof -
    have "\<not> n - 1 \<le> f" "\<not> f < ?fin" using that by simp_all
    then show ?thesis
      using that(3) sm wf(2) unfolding recover_from_network_partition_def l Let_def
      by (simp add: S del: One_nat_def upt_Suc)
  qed
qed

text \<open>When the rows of an indexed block can be collected.\<close>

lemma block_rollback_ok:
  assumes wf: "tables_wf cfg db n" and h: "0 < h" "h < n" "indexed_header db h = Some hdr"
    and ids: "get_data_ledger_tx_ids hdr = Inr m"
    and em: "block_emission (mc_reward_curve cfg) (mc_block_time_secs cfg) h = Inr em"
  shows "\<exists>info. block_rollback cfg db h = Inr info \<and> bri_emission info = em"
proof -
  note ix = tables_wfD(1) [OF wf]
  obtain x where x: "map_of (bi_hashes (db_index db)) h = Some x" "get_item (db_index db) h =
      Some \<lparr>bii_block_hash = x, bii_num_ledgers = length (ledgers_at (db_index db) h),
            bii_ledgers = ledgers_at (db_index db) h\<rparr>"
    using index_wf_item [OF ix h(2)] by (auto simp: get_item_def)
  obtain p where p: "get_item (db_index db) (h - 1) = Some p"
    using index_wf_item [OF ix less_imp_diff_less [OF h(2)], of 1] by (auto simp: get_item_def)
  have "map_of (db_block_headers db) x = Some hdr"
    using h(3) x(1) by (simp add: indexed_header_def)
  then show ?thesis
    using x(2) p ids em
    by (simp add: block_rollback_def block_header_by_hash_def ok_or_def del: One_nat_def)
qed

section \<open>Cached data roots\<close>

definition confirmed_root :: "data_root_table \<Rightarrow> h256 \<Rightarrow> h256 \<Rightarrow> bool" where
  "confirmed_root t r b =
     (case map_of t r of None \<Rightarrow> True | Some c \<Rightarrow> b \<in> set (cdr_block_set c) \<and> cdr_expiry_height c = None)"

definition scrubbed_root :: "data_root_table \<Rightarrow> h256 \<Rightarrow> h256 \<Rightarrow> bool" where
  "scrubbed_root t r b = (case map_of t r of None \<Rightarrow> True | Some c \<Rightarrow> b \<notin> set (cdr_block_set c))"

lemma update_block_set_rows:
  "confirmed_root (snd (update_data_root_block_set r b t)) r b"
  "confirmed_root t r' b' \<Longrightarrow> confirmed_root (snd (update_data_root_block_set r b t)) r' b'"
  "scrubbed_root t r' b' \<Longrightarrow> b' \<noteq> b \<Longrightarrow> scrubbed_root (snd (update_data_root_block_set r b t)) r' b'"
  "dom (map_of (snd (update_data_root_block_set r b t))) = dom (map_of t)"
  by (auto simp: update_data_root_block_set_def confirmed_root_def scrubbed_root_def update_conv' Let_def
      split: option.splits)

lemma remove_block_set_rows:
  "scrubbed_root (snd (remove_data_root_block_set_entry r b t)) r b"
  "scrubbed_root t r' b' \<Longrightarrow> scrubbed_root (snd (remove_data_root_block_set_entry r b t)) r' b'"
  "dom (map_of (snd (remove_data_root_block_set_entry r b t))) = dom (map_of t)"
  by (auto simp: remove_data_root_block_set_entry_def scrubbed_root_def update_conv' Let_def
      filter_id_conv split: option.splits)
    (metis (mono_tags, lifting) length_filter_less less_irrefl)

abbreviation submit_roots :: "full_block \<Rightarrow> h256 list" where
  "submit_roots sb \<equiv> map dth_data_root (get_ledger_txs (sb_transactions sb) Submit)"

abbreviation hash_of :: "'b sealed_block \<Rightarrow> h256" where
  "hash_of sb \<equiv> bh_block_hash (sb_header sb)"

lemma fold_keeps: "(\<And>x t. P t \<Longrightarrow> P (f x t)) \<Longrightarrow> P t \<Longrightarrow> P (fold f xs t)"
  by (induction xs arbitrary: t) auto

lemma fold_reaches:
  "(\<And>x t. Q t \<Longrightarrow> Q (f x t)) \<Longrightarrow> (\<And>t. Q (f y t)) \<Longrightarrow> y \<in> set xs \<Longrightarrow> Q (fold f xs t)"
proof (induction xs arbitrary: t)
  case (Cons x xs)
  then show ?case using fold_keeps [of Q f "f y t" xs] by (cases "y = x") auto
qed simp

lemma confirm_block_set_rows:
  "confirmed_root t r b \<Longrightarrow> confirmed_root (confirm_block_set sb t) r b"
  "scrubbed_root t r b \<Longrightarrow> b \<noteq> hash_of sb \<Longrightarrow> scrubbed_root (confirm_block_set sb t) r b"
  "r \<in> set (submit_roots sb) \<Longrightarrow> confirmed_root (confirm_block_set sb t) r (hash_of sb)"
  "dom (map_of (confirm_block_set sb t)) = dom (map_of t)"
proof -
  show "confirmed_root t r b \<Longrightarrow> confirmed_root (confirm_block_set sb t) r b"
    unfolding confirm_block_set_def by (rule fold_keeps [where P = "\<lambda>u. confirmed_root u r b"]) (rule update_block_set_rows)
  show "scrubbed_root t r b \<Longrightarrow> b \<noteq> hash_of sb \<Longrightarrow> scrubbed_root (confirm_block_set sb t) r b"
    unfolding confirm_block_set_def
    by (rule fold_keeps [where P = "\<lambda>u. scrubbed_root u r b"]) (simp_all add: update_block_set_rows)
  show "confirmed_root (confirm_block_set sb t) r (hash_of sb)" if r: "r \<in> set (submit_roots sb)"
  proof -
    obtain y where "y \<in> set (get_ledger_txs (sb_transactions sb) Submit)" "r = dth_data_root y" using r by auto
    then show ?thesis
      unfolding confirm_block_set_def by (intro fold_reaches [where y = y and Q = "\<lambda>u. confirmed_root u r (hash_of sb)"]) (simp_all add: update_block_set_rows)
  qed
  show "dom (map_of (confirm_block_set sb t)) = dom (map_of t)"
    unfolding confirm_block_set_def
    by (rule fold_keeps [where P = "\<lambda>u. dom (map_of u) = dom (map_of t)"]) (simp_all add: update_block_set_rows)
qed

lemma scrub_block_set_rows:
  "scrubbed_root t r b \<Longrightarrow> scrubbed_root (scrub_block_set sb t) r b"
  "r \<in> set (submit_roots sb) \<Longrightarrow> scrubbed_root (scrub_block_set sb t) r (hash_of sb)"
  "dom (map_of (scrub_block_set sb t)) = dom (map_of t)"
proof -
  show "scrubbed_root t r b \<Longrightarrow> scrubbed_root (scrub_block_set sb t) r b"
    unfolding scrub_block_set_def by (rule fold_keeps [where P = "\<lambda>u. scrubbed_root u r b"]) (rule remove_block_set_rows)
  show "scrubbed_root (scrub_block_set sb t) r (hash_of sb)" if r: "r \<in> set (submit_roots sb)"
  proof -
    obtain y where "y \<in> set (get_ledger_txs (sb_transactions sb) Submit)" "r = dth_data_root y" using r by auto
    then show ?thesis
      unfolding scrub_block_set_def by (intro fold_reaches [where y = y and Q = "\<lambda>u. scrubbed_root u r (hash_of sb)"]) (simp_all add: remove_block_set_rows)
  qed
  show "dom (map_of (scrub_block_set sb t)) = dom (map_of t)"
    unfolding scrub_block_set_def
    by (rule fold_keeps [where P = "\<lambda>u. dom (map_of u) = dom (map_of t)"]) (simp_all add: remove_block_set_rows)
qed

lemma block_sets_ok:
  assumes t': "t' = fold confirm_block_set confirm (fold scrub_block_set clear t)"
  shows "b \<in> set confirm \<Longrightarrow> r \<in> set (submit_roots b) \<Longrightarrow> confirmed_root t' r (hash_of b)"
    and "b \<in> set clear \<Longrightarrow> r \<in> set (submit_roots b) \<Longrightarrow> hash_of b \<notin> hash_of ` set confirm \<Longrightarrow>
      scrubbed_root t' r (hash_of b)"
    and "dom (map_of t') = dom (map_of t)"
proof -
  show "confirmed_root t' r (hash_of b)" if "b \<in> set confirm" "r \<in> set (submit_roots b)"
    unfolding t' using that by (intro fold_reaches [where y = b and Q = "\<lambda>u. confirmed_root u r (hash_of b)"]) (simp_all add: confirm_block_set_rows)
  show "scrubbed_root t' r (hash_of b)"
    if "b \<in> set clear" "r \<in> set (submit_roots b)" and new: "hash_of b \<notin> hash_of ` set confirm"
  proof -
    have keep: "scrubbed_root u r (hash_of b) \<Longrightarrow> \<forall>x \<in> set bs. hash_of b \<noteq> hash_of x \<Longrightarrow>
        scrubbed_root (fold confirm_block_set bs u) r (hash_of b)" for u and bs :: "full_block list"
      by (induction bs arbitrary: u) (simp_all add: confirm_block_set_rows)
    have "scrubbed_root (fold scrub_block_set clear t) r (hash_of b)"
      using that by (intro fold_reaches [where y = b and Q = "\<lambda>u. scrubbed_root u r (hash_of b)"]) (simp_all add: scrub_block_set_rows)
    then show ?thesis unfolding t' by (rule keep) (use new in auto)
  qed
  have d: "dom (map_of (fold scrub_block_set clear t)) = dom (map_of t)"
    by (rule fold_keeps [where P = "\<lambda>u. dom (map_of u) = dom (map_of t)"]) (simp_all add: scrub_block_set_rows)
  show "dom (map_of t') = dom (map_of t)"
    unfolding t'
    by (rule fold_keeps [where P = "\<lambda>u. dom (map_of u) = dom (map_of t)"]) (simp_all add: confirm_block_set_rows d)
qed

end
