(* ===== verification/Migration_Props.thy ===== *)
theory Migration_Props
  imports Migration_Correct "HOL-Library.Code_Target_Nat"
begin

text \<open>
  The properties of the migration of blocks into the database and of the lookups that read the tables
  back. The witnesses run on a small chain: block 1 is genesis and indexed, block 2 carries the
  transaction 70 in its Submit ledger and a commitment, block 3 promotes the transaction.
\<close>

section \<open>Evaluating the conditions\<close>

text \<open>
  Evaluation reduces a 256-bit word with \<open>take_bit 256\<close>, which this equation shortcuts for small
  numbers.
\<close>

lemma take_bit_small [code]:
  "take_bit n (k :: int) = (if 0 \<le> k \<and> k < 65536 \<and> 16 \<le> n then k else k mod 2 ^ n)"
proof -
  have "k mod 2 ^ n = k" if "0 \<le> k" "k < 65536" "16 \<le> n"
  proof -
    have "(2::int) ^ 16 \<le> 2 ^ n" using that(3) by (rule power_increasing) simp
    then show ?thesis using that by (intro mod_pos_pos_trivial) simp_all
  qed
  then show ?thesis by (simp add: take_bit_eq_mod)
qed

lemma tables_wf_lists:
  "tables_wf cfg db n \<longleftrightarrow> index_wf (db_index db) n \<and>
     list_all (\<lambda>h. case indexed_header db h of
        None \<Rightarrow> False | Some hdr \<Rightarrow> header_matches db h hdr \<and> rows_name cfg db h hdr) [0..<n]"
  by (auto simp: tables_wf_def list_all_iff)

lemma ledgers_ids_code [code]:
  "ledgers_ids P dls = set (concat (map dtl_tx_ids (filter (\<lambda>dl. P (dtl_ledger_id dl)) dls)))"
  by (auto simp: ledgers_ids_def)

lemma apart_from_index_lists:
  "apart_from_index cfg db n b \<longleftrightarrow>
     list_all (\<lambda>h. case indexed_header db h of None \<Rightarrow> True | Some a \<Rightarrow> txs_apart cfg a b) [0..<n]"
  by (auto simp: apart_from_index_def list_all_iff split: option.splits)

lemma migratable_lists:
  "migratable cfg db n bs \<longleftrightarrow>
     (case indexed_header db (n - 1) of None \<Rightarrow> False | Some p \<Rightarrow> grow_chain p bs) \<and>
     list_all (\<lambda>b. apart_from_index cfg db n (sb_header b)) bs \<and>
     sorted_wrt (\<lambda>a b. txs_apart cfg (sb_header a) (sb_header b)) bs"
  by (auto simp: migratable_def list_all_iff split: option.splits)

lemma banc_lists: "bs_wf bs \<Longrightarrow> a \<in> set (map fst (ancestry bs h)) \<Longrightarrow> banc bs a h"
  using ancestry_fst by fastforce

section \<open>A concrete chain\<close>

definition ex_cfg :: migration_config where
  "ex_cfg = \<lparr>mc_dup_ins = List.insert,
     mc_reward_curve = \<lparr>hc_inflation_cap = 0, hc_half_life_secs = 1\<rparr>, mc_block_time_secs = 1,
     mc_chunk_size = 256, mc_num_blocks_in_epoch = 100, mc_block_tree_depth = 6,
     mc_block_migration_depth = 2, mc_storage_modules_set = True\<rparr>"

definition ex_tx :: "h256 \<Rightarrow> data_transaction_header" where
  "ex_tx i = \<lparr>dth_id = i, dth_signer = 0, dth_data_root = i + 1000, dth_data_size = 300, dth_term_fee = 0,
     dth_perm_fee = None, dth_ledger_id = 0\<rparr>"

definition ex_commitment :: "h256 \<Rightarrow> commitment_transaction" where
  "ex_commitment i = \<lparr>ct_id = i, ct_signer = 0, ct_commitment_type = Stake, ct_fee = 0, ct_value = 0\<rparr>"

definition ex_tx_ledger :: "data_ledger \<Rightarrow> h256 list \<Rightarrow> data_transaction_ledger" where
  "ex_tx_ledger l ids = \<lparr>dtl_ledger_id = ledger_u32 l, dtl_tx_root = 0, dtl_tx_ids = ids, dtl_total_chunks = 0,
     dtl_expires = None, dtl_required_proof_count = None\<rparr>"

definition ex_full ::
  "h256 \<Rightarrow> h256 \<Rightarrow> nat \<Rightarrow> u256 \<Rightarrow> h256 list \<Rightarrow> h256 list \<Rightarrow> h256 list \<Rightarrow> full_block"
where
  "ex_full h p n d publish submit commitments =
     \<lparr>sb_header = (sb_header (ex_block h p n d))
        \<lparr>bh_data_ledgers := [ex_tx_ledger Publish publish, ex_tx_ledger Submit submit],
         bh_system_ledgers := [\<lparr>stl_ledger_id = 0, stl_tx_ids = commitments\<rparr>],
         bh_poa_chunk := Some []\<rparr>,
      sb_transactions = \<lparr>btx_system_txs = [(Commitment, map ex_commitment commitments)],
        btx_data_txs = [(Publish, map ex_tx publish), (Submit, map ex_tx submit)]\<rparr>\<rparr>"

definition ex_genesis :: full_block where
  "ex_genesis = ex_full 1 0 0 1 [] [] []"

abbreviation ex_b2 :: full_block where
  "ex_b2 \<equiv> ex_full 2 1 1 3 [] [70] [80]"

abbreviation ex_b3 :: full_block where
  "ex_b3 \<equiv> ex_full 3 2 2 5 [70] [] []"

definition ex_totals :: "nat \<Rightarrow> nat \<Rightarrow> ledger_index_item list" where
  "ex_totals publish submit = [ex_ledger submit 0 Submit, ex_ledger publish 0 Publish]"

text \<open>The database after genesis has been written, and after the three blocks have been.\<close>

definition ex_genesis_db :: irys_db where
  "ex_genesis_db = \<lparr>db_index = \<lparr>bi_hashes = [(0, 1)], bi_items = [(0, ex_totals 0 0)]\<rparr>,
     db_block_headers = [(1, stored (sb_header ex_genesis))], db_poa_chunks = [(1, [])],
     db_data_tx_headers = [], db_commitments = [], db_data_metadata = [], db_commitment_metadata = []\<rparr>"

definition ex_chain_db :: irys_db where
  "ex_chain_db = \<lparr>db_index = \<lparr>bi_hashes = [(0, 1), (1, 2), (2, 3)],
       bi_items = [(0, ex_totals 0 0), (1, ex_totals 0 2), (2, ex_totals 2 2)]\<rparr>,
     db_block_headers = [(1, stored (sb_header ex_genesis)), (2, stored (sb_header ex_b2)),
       (3, stored (sb_header ex_b3))],
     db_poa_chunks = [(1, []), (2, []), (3, [])], db_data_tx_headers = [(70, ex_tx 70)],
     db_commitments = [(80, ex_commitment 80)],
     db_data_metadata = [(70, \<lparr>dm_included_height = Some 1, dm_promoted_height = Some 2\<rparr>)],
     db_commitment_metadata = [(80, \<lparr>cm_included_height = Some 1\<rparr>)]\<rparr>"

definition ex_migration :: migration_state where
  "ex_migration =
     \<lparr>ms_db = ex_genesis_db,
      ms_cached_data_roots = [(1070, \<lparr>cdr_data_size = 300, cdr_data_size_confirmed = False, cdr_txid_set = [70],
        cdr_block_set = [], cdr_expiry_height = Some 9, cdr_cached_at = 0\<rparr>)],
      ms_supply = None, ms_chunk_service_open = True, ms_migrated = [], ms_rolled_back = []\<rparr>"

definition ex_chain :: "(unit, unit, unit) full_tree" where
  "ex_chain =
     snd (add_block 2 ex_b3 () () ()
       (snd (add_block 1 ex_b2 () () () (bt_new 0 6 2 ex_genesis () () ()))))"

definition ex_migrated :: migration_state where
  "ex_migrated = ex_migration
     \<lparr>ms_db := ex_chain_db,
      ms_migrated := [(sb_header ex_b2, [(Publish, []), (Submit, [ex_tx 70])]),
        (sb_header ex_b3, [(Publish, [ex_tx 70]), (Submit, [])])]\<rparr>"

lemma ex_migrate: "migrate_blocks ex_cfg (sb_header ex_b3) ex_chain ex_migration = (Inr (), ex_migrated)"
  by code_simp

lemma ex_genesis_wf: "tables_wf ex_cfg ex_genesis_db 1"
  unfolding tables_wf_lists index_wf_lists by code_simp

lemma ex_chain_wf: "tables_wf ex_cfg ex_chain_db 3"
  unfolding tables_wf_lists index_wf_lists by code_simp

lemma ex_chain_inv: "tree_inv ex_chain"
proof -
  let ?t0 = "bt_new 0 6 2 ex_genesis () () () :: (unit, unit, unit) full_tree"
  have 0: "tree_inv ?t0" by (rule tree_inv_new) (simp add: ex_genesis_def ex_full_def ex_block_def)
  let ?t1 = "snd (add_block 1 ex_b2 () () () ?t0)"
  have "extends (blocks ?t0) (sb_header ex_b2)" by (rule extendsI) code_simp+
  from add_block_inv [OF 0 this, of 1 "()" "()" "()"] have 1: "tree_inv ?t1" by auto
  have "extends (blocks ?t1) (sb_header ex_b3)" by (rule extendsI) code_simp+
  from add_block_inv [OF 1 this, of 2 "()" "()" "()"] show ?thesis by (auto simp: ex_chain_def)
qed

section \<open>Properties\<close>

text \<open>
  \<^bold>\<open>C31.\<close> The canonical lookups. On well-formed tables with \<open>n\<close> indexed blocks the three lookups return
  without an error. The submit and the promotion height of a transaction up to a given height are the
  heights of the indexed blocks that carry it in their Submit and Publish ledger. A commitment height
  is the height of an indexed block that carries the commitment, and it is found unless that block is
  an epoch block, which repeats the commitments of its epoch.
\<close>

theorem canonical_lookups_exact:
  assumes "tables_wf cfg db n"
  shows "\<exists>rs rp rc. canonical_submit_height db tx mx = Inr rs \<and> canonical_promoted_height db tx mx = Inr rp \<and>
    canonical_commitment_included_height db tx mx = Inr rc \<and>
    (\<forall>h. rs = Some h \<longleftrightarrow> h \<le> mx \<and> h < n \<and> carries db h Submit tx) \<and>
    (\<forall>h. rp = Some h \<longleftrightarrow> h \<le> mx \<and> h < n \<and> carries db h Publish tx) \<and>
    (\<forall>h. rc = Some h \<longrightarrow> h \<le> mx \<and> h < n \<and> carries_commitment db h tx) \<and>
    (\<forall>h. h \<le> mx \<and> h < n \<and> carries_commitment db h tx \<and> \<not> is_non_genesis_epoch_block cfg h \<longrightarrow> rc = Some h)"
  using canonical_submit_iff [OF assms, of tx mx] canonical_promoted_iff [OF assms, of tx mx]
    canonical_commitment_sound [OF assms, of tx mx]
  by (elim exE conjE) (intro exI conjI; assumption)

theorem canonical_lookups_exact_witness:
  "canonical_submit_height ex_chain_db 70 5 = Inr (Some 1) \<and>
   canonical_promoted_height ex_chain_db 70 5 = Inr (Some 2) \<and>
   canonical_promoted_height ex_chain_db 70 1 = Inr None"
proof -
  have c: "carries ex_chain_db 1 Submit 70" "carries ex_chain_db 2 Publish 70" by code_simp+
  obtain rs rp where r: "canonical_submit_height ex_chain_db 70 5 = Inr rs"
    "canonical_promoted_height ex_chain_db 70 5 = Inr rp"
    "\<forall>h. rs = Some h \<longleftrightarrow> h \<le> 5 \<and> h < 3 \<and> carries ex_chain_db h Submit 70"
    "\<forall>h. rp = Some h \<longleftrightarrow> h \<le> 5 \<and> h < 3 \<and> carries ex_chain_db h Publish 70"
    using canonical_lookups_exact [OF ex_chain_wf, of 70 5] by blast
  obtain rq where q: "canonical_promoted_height ex_chain_db 70 1 = Inr rq"
    "\<forall>h. rq = Some h \<longleftrightarrow> h \<le> 1 \<and> h < 3 \<and> carries ex_chain_db h Publish 70"
    using canonical_lookups_exact [OF ex_chain_wf, of 70 1] by blast
  have "\<not> carries ex_chain_db 0 Publish 70" "\<not> carries ex_chain_db 1 Publish 70" by code_simp+
  then have "\<not> (h \<le> 1 \<and> carries ex_chain_db h Publish 70)" for h
    by (cases "h = 0"; cases "h = 1") auto
  then have "rq = None" using q(2) by (cases rq) auto
  then show ?thesis using r q(1) c by simp
qed

text \<open>
  \<^bold>\<open>C8.\<close> Migration extends the index along the canonical branch. When the last indexed block is an
  ancestor of the block to migrate in the tree, the blocks between them keep the ledgers of their
  predecessors and no transaction occurs twice on the chain, a migration that returns leaves
  well-formed tables in which the index ends at the migrated block. The headers below are unchanged, the
  new entries are the blocks of the branch in order, and each of them has been sent to the chunk
  migration service once, in order.
\<close>

theorem migrate_blocks_extends_index:
  assumes "set_insert (mc_dup_ins cfg)" and "0 < mc_chunk_size cfg" and "tree_inv t"
    and "tables_wf cfg (ms_db s) n" and "0 < n"
    and "banc (blocks t) (index_tip (db_index (ms_db s)) n) (bh_block_hash mb)"
    and "bht (blocks t) (index_tip (db_index (ms_db s)) n) = n - 1"
    and "migratable cfg (ms_db s) n (branch (blocks t) (index_tip (db_index (ms_db s)) n) (bh_block_hash mb))"
    and "migrate_blocks cfg mb t s = (Inr (), s')"
  shows "let bs = branch (blocks t) (index_tip (db_index (ms_db s)) n) (bh_block_hash mb) in
    tables_wf cfg (ms_db s') (n + length bs) \<and>
    index_tip (db_index (ms_db s')) (n + length bs) = bh_block_hash mb \<and>
    (\<forall>h < n. indexed_header (ms_db s') h = indexed_header (ms_db s) h) \<and>
    (\<forall>i < length bs. indexed_header (ms_db s') (n + i) = Some (stored (sb_header (bs ! i)))) \<and>
    map fst (ms_migrated s') = map fst (ms_migrated s) @ map sb_header bs"
proof -
  note wf = tree_invD(1) [OF assms(3)]
  define a where "a = index_tip (db_index (ms_db s)) n"
  define bs where "bs = branch (blocks t) a (bh_block_hash mb)"
  note m = migrate_blocks_wf [OF assms(1,2) wf assms(4,5) a_def
      assms(6) [folded a_def] assms(7) [folded a_def] assms(8) [folded a_def] assms(9), folded bs_def]
  have "length bs = length (map (\<lambda>b. bh_height (sb_header b)) bs)" by simp
  also have "\<dots> = Suc (bht (blocks t) (bh_block_hash mb)) - n"
    unfolding bs_def branch_heights [OF wf assms(6) [folded a_def]]
    using assms(5,7) by (simp add: a_def del: upt_Suc)
  finally have "n + length bs = Suc (bht (blocks t) (bh_block_hash mb))"
    using banc_ht [OF wf assms(6)] assms(5,7) by simp
  then show ?thesis
    using m(1-4) unfolding appended_def by (simp add: bs_def [symmetric] a_def [symmetric] Let_def)
qed

lemma ex_branch:
  "index_tip (db_index ex_genesis_db) 1 = 1" "banc (blocks ex_chain) 1 3" "bht (blocks ex_chain) 1 = 0"
  "branch (blocks ex_chain) 1 3 = [ex_b2, ex_b3]"
proof -
  show "banc (blocks ex_chain) 1 3"
    by (rule banc_lists [OF tree_invD(1) [OF ex_chain_inv]]) code_simp
qed code_simp+

theorem migrate_blocks_extends_index_witness:
  "tables_wf ex_cfg (ms_db ex_migrated) 3 \<and> index_tip (db_index (ms_db ex_migrated)) 3 = 3 \<and>
   map fst (ms_migrated ex_migrated) = [sb_header ex_b2, sb_header ex_b3]"
proof -
  have h: "bh_block_hash (sb_header ex_b3) = 3" by code_simp
  have "migratable ex_cfg ex_genesis_db 1 [ex_b2, ex_b3]"
    unfolding migratable_lists apart_from_index_lists by code_simp
  moreover have "set_insert (mc_dup_ins ex_cfg)" "0 < mc_chunk_size ex_cfg"
    using hash_set.set_insert_axioms by (simp_all add: ex_cfg_def)
  moreover have "ms_db ex_migration = ex_genesis_db" "ms_migrated ex_migration = []"
    by (simp_all add: ex_migration_def)
  moreover have "1 + length [ex_b2, ex_b3] = 3" "1 - 1 = (0 :: nat)" by simp_all
  ultimately show ?thesis
    using migrate_blocks_extends_index [OF _ _ ex_chain_inv _ _ _ _ _ ex_migrate, of 1] ex_genesis_wf
    by (simp add: h ex_branch Let_def del: One_nat_def)
qed

lemma try_fold_unit:
  "try_fold (\<lambda>x (_ :: unit). f x) xs () = Inr () \<longleftrightarrow> (\<forall>x \<in> set xs. f x = Inr ())"
  by (induction xs) (auto simp: rbind_def split: sum.splits)

lemma try_fold_unit_error:
  "try_fold (\<lambda>x (_ :: unit). f x) xs () = Inl e \<Longrightarrow> \<exists>x \<in> set xs. f x = Inl e"
  by (induction xs) (auto simp: rbind_def split: sum.splits)

lemma ensure_consistent_error:
  "ensure_header_body_consistent sb = Inl e \<Longrightarrow> \<exists>l. e = HeaderBodyMismatch (hash_of sb) l"
  unfolding ensure_header_body_consistent_def
  by (drule try_fold_unit_error) (auto simp: ensure_def Let_def split: if_splits)

lemma persist_metadata_ok:
  assumes "list_all (\<lambda>b. ensure_header_body_consistent b = Inr ()) (clear @ confirm)"
  shows "\<exists>db'. persist_metadata cfg clear confirm s = Inr (s\<lparr>ms_db := db',
       ms_cached_data_roots := fold confirm_block_set confirm (fold scrub_block_set clear (ms_cached_data_roots s))\<rparr>) \<and>
     cleared cfg (map sb_header clear) (ms_db s) db'"
proof -
  have "try_fold (\<lambda>sb _. ensure_header_body_consistent sb) (clear @ confirm) () = Inr ()"
    unfolding try_fold_unit using assms by (simp add: list_all_iff)
  then show ?thesis
    using clear_list_ok [of cfg clear "ms_db s"] by (auto simp: persist_metadata_def)
qed

lemma persist_metadata_mismatch:
  assumes "\<not> list_all (\<lambda>b. ensure_header_body_consistent b = Inr ()) (clear @ confirm)"
  shows "\<exists>b \<in> set (clear @ confirm). \<exists>l.
    persist_metadata cfg clear confirm s = Inl (HeaderBodyMismatch (hash_of b) l)"
proof -
  have "try_fold (\<lambda>sb _. ensure_header_body_consistent sb) (clear @ confirm) () \<noteq> Inr ()"
    unfolding try_fold_unit using assms by (simp add: list_all_iff)
  then obtain e where e: "try_fold (\<lambda>sb _. ensure_header_body_consistent sb) (clear @ confirm) () = Inl e"
    by (cases "try_fold (\<lambda>sb _. ensure_header_body_consistent sb) (clear @ confirm) ()") auto
  from try_fold_unit_error [OF e] obtain b where
    b: "b \<in> set (clear @ confirm)" "ensure_header_body_consistent b = Inl e" by blast
  then show ?thesis
    using ensure_consistent_error [OF b(2)] e by (auto simp: persist_metadata_def)
qed

text \<open>
  \<^bold>\<open>C33.\<close> The metadata written at a change of the tip. When some block's header and body disagree on the
  transactions of a ledger, nothing is written. Otherwise the call succeeds: exactly the inclusion and
  promotion rows of the transactions of the cleared blocks are removed, and in the cache of data roots
  no entry is added or lost, each data root of a confirmed block lists the block and no longer
  expires, and no data root of a cleared block lists it unless it has been confirmed again.
\<close>

theorem persist_metadata_correct:
  "if list_all (\<lambda>b. ensure_header_body_consistent b = Inr ()) (clear @ confirm)
   then \<exists>s'. persist_metadata cfg clear confirm s = Inr s' \<and>
     cleared cfg (map sb_header clear) (ms_db s) (ms_db s') \<and>
     dom (map_of (ms_cached_data_roots s')) = dom (map_of (ms_cached_data_roots s)) \<and>
     (\<forall>b \<in> set confirm. \<forall>r \<in> set (submit_roots b).
        confirmed_root (ms_cached_data_roots s') r (hash_of b)) \<and>
     (\<forall>b \<in> set clear. \<forall>r \<in> set (submit_roots b). hash_of b \<notin> hash_of ` set confirm \<longrightarrow>
        scrubbed_root (ms_cached_data_roots s') r (hash_of b))
   else \<exists>b \<in> set (clear @ confirm). \<exists>l.
     persist_metadata cfg clear confirm s = Inl (HeaderBodyMismatch (hash_of b) l)"
proof (cases "list_all (\<lambda>b. ensure_header_body_consistent b = Inr ()) (clear @ confirm)")
  case True
  let ?t = "fold confirm_block_set confirm (fold scrub_block_set clear (ms_cached_data_roots s))"
  from persist_metadata_ok [OF True] obtain db' where
    ok: "persist_metadata cfg clear confirm s = Inr (s\<lparr>ms_db := db', ms_cached_data_roots := ?t\<rparr>)"
      "cleared cfg (map sb_header clear) (ms_db s) db'" by blast
  note sets = block_sets_ok [OF refl [of ?t]]
  show ?thesis
    unfolding if_P [OF True]
  proof (intro exI conjI ballI impI)
    show "persist_metadata cfg clear confirm s = Inr (s\<lparr>ms_db := db', ms_cached_data_roots := ?t\<rparr>)"
      by (rule ok(1))
  qed (simp_all add: ok(2) sets(3) sets(1,2))
next
  case False
  then show ?thesis using persist_metadata_mismatch by (simp only: if_not_P if_False)
qed

lemma ex_b2_consistent: "ensure_header_body_consistent ex_b2 = Inr ()"
  by code_simp

theorem persist_metadata_correct_witness:
  "\<exists>s'. persist_metadata ex_cfg [] [ex_b2] ex_migration = Inr s' \<and>
     confirmed_root (ms_cached_data_roots s') 1070 2 \<and>
     map_of (ms_cached_data_roots s') 1070 \<noteq> None"
proof -
  have "list_all (\<lambda>b. ensure_header_body_consistent b = Inr ()) ([] @ [ex_b2])"
    using ex_b2_consistent by simp
  from persist_metadata_correct [of "[]" "[ex_b2]" ex_cfg ex_migration, unfolded if_P [OF this]]
  obtain s' where s': "persist_metadata ex_cfg [] [ex_b2] ex_migration = Inr s'"
    "dom (map_of (ms_cached_data_roots s')) = dom (map_of (ms_cached_data_roots ex_migration))"
    "\<forall>r \<in> set (submit_roots ex_b2). confirmed_root (ms_cached_data_roots s') r (hash_of ex_b2)"
    by auto
  have "1070 \<in> set (submit_roots ex_b2)" "hash_of ex_b2 = 2"
    "1070 \<in> dom (map_of (ms_cached_data_roots ex_migration))"
    by (simp_all add: ex_full_def ex_block_def ex_tx_def get_ledger_txs_def ex_migration_def)
  with s' show ?thesis by (metis domIff)
qed

abbreviation finalized_of :: "migration_config \<Rightarrow> nat \<Rightarrow> nat" where
  "finalized_of cfg n \<equiv> finalized_height (n - 1) (mc_block_tree_depth cfg) (mc_block_migration_depth cfg)"

lemma recover_result:
  assumes wf: "index_wf (db_index (ms_db s)) n" "0 < n" and n: "n \<le> 2 ^ 64" and sm: "mc_storage_modules_set cfg"
    and f: "finalized_of cfg n \<le> f" "f < n - 1"
  shows "(\<exists>e. recover_from_network_partition cfg f s = (Inl e, s)) \<or>
    (\<exists>s' bi. recover_from_network_partition cfg f s = (Inr (), s') \<and>
       truncate_to_height f (db_index (ms_db s)) = Inr bi \<and> ms_db s' = (ms_db s)\<lparr>db_index := bi\<rparr> \<and>
       ms_cached_data_roots s' = ms_cached_data_roots s \<and> ms_migrated s' = ms_migrated s)"
proof (cases "rmap (block_rollback cfg (ms_db s)) [f + 1..<n]")
  case (Inl e)
  then show ?thesis using recover_cases(4) [OF wf n sm f(2,1)] by blast
next
  case (Inr infos)
  from recover_cases(3) [OF wf n sm f(2,1) Inr] show ?thesis by auto
qed



text \<open>
  \<^bold>\<open>C7.\<close> A deep reorganisation. When the index is rolled back to the fork point and the metadata of the
  abandoned blocks is then cleared, the tables are well formed with the fork point as the last block,
  the blocks below are unchanged, and no row names an inclusion, a promotion or a commitment of an
  abandoned block.
\<close>

theorem deep_reorg_restores_tables:
  assumes "tables_wf cfg (ms_db s) n" and "0 < n" and "n \<le> 2 ^ 64" and "mc_storage_modules_set cfg"
    and "finalized_of cfg n \<le> f" and "f < n - 1"
    and "recover_from_network_partition cfg f s = (Inr (), s1)"
    and "persist_metadata cfg old_fork new_fork s1 = Inr s2"
    and "\<forall>b \<in> set old_fork. apart_from_index cfg (ms_db s) (Suc f) (sb_header b)"
  shows "tables_wf cfg (ms_db s2) (Suc f) \<and>
    (\<forall>h \<le> f. indexed_header (ms_db s2) h = indexed_header (ms_db s) h) \<and>
    (\<forall>b \<in> set old_fork. \<forall>tx \<in> term_ids (sb_header b). included (db_data_metadata (ms_db s2)) tx = None) \<and>
    (\<forall>b \<in> set old_fork. \<forall>tx \<in> term_ids (sb_header b) \<union> publish_ids (sb_header b).
       promoted (db_data_metadata (ms_db s2)) tx = None) \<and>
    (\<forall>b \<in> set old_fork. \<forall>tx \<in> commitments_of cfg (sb_header b).
       commitment_included (db_commitment_metadata (ms_db s2)) tx = None)"
proof -
  note ix = tables_wfD(1) [OF assms(1)]
  obtain bi where bi: "truncate_to_height f (db_index (ms_db s)) = Inr bi" "ms_db s1 = (ms_db s)\<lparr>db_index := bi\<rparr>"
    using recover_result [OF ix assms(2-6)] assms(7) by auto
  have f: "f < n" "f + 1 < 2 ^ 64" using assms(3,6) by linarith+
  note tr = truncated_wf [OF assms(1) f bi(1), folded bi(2)]
  have "list_all (\<lambda>b. ensure_header_body_consistent b = Inr ()) (old_fork @ new_fork)"
    using persist_metadata_mismatch [of old_fork new_fork cfg s1] assms(8) by auto
  from persist_metadata_ok [OF this, of cfg s1] have c: "cleared cfg (map sb_header old_fork) (ms_db s1) (ms_db s2)"
    using assms(8) by auto
  have apart: "apart_from_index cfg (ms_db s1) (Suc f) b" if "b \<in> set (map sb_header old_fork)" for b
    using that assms(9) tr(2) unfolding apart_from_index_def by fastforce
  note cl = cleared_wf [OF tr(1) c apart]
  show ?thesis
    using cl tr(2) c unfolding cleared_def override_def by auto
qed

lemma ex_recover:
  "snd (recover_from_network_partition ex_cfg 0 ex_migrated) =
     ex_migrated\<lparr>ms_db := ex_chain_db\<lparr>db_index := db_index ex_genesis_db\<rparr>,
       ms_rolled_back := [[\<lparr>bri_ledger_ranges = [(Submit, 0, 1)], bri_data_roots = [1070], bri_emission = 0\<rparr>,
         \<lparr>bri_ledger_ranges = [(Publish, 0, 1)], bri_data_roots = [1070], bri_emission = 0\<rparr>]]\<rparr>"
  "fst (recover_from_network_partition ex_cfg 0 ex_migrated) = Inr ()"
  by code_simp+

theorem deep_reorg_restores_tables_witness:
  "\<exists>s2. persist_metadata ex_cfg [ex_b2, ex_b3] [] (snd (recover_from_network_partition ex_cfg 0 ex_migrated)) = Inr s2 \<and>
     tables_wf ex_cfg (ms_db s2) 1 \<and> included (db_data_metadata (ms_db s2)) 70 = None"
proof -
  let ?s1 = "snd (recover_from_network_partition ex_cfg 0 ex_migrated)"
  have r: "recover_from_network_partition ex_cfg 0 ex_migrated = (Inr (), ?s1)"
    using ex_recover(2) by (cases "recover_from_network_partition ex_cfg 0 ex_migrated") simp
  have "list_all (\<lambda>b. ensure_header_body_consistent b = Inr ()) ([ex_b2, ex_b3] @ [])"
    by code_simp
  from persist_metadata_ok [OF this, of ex_cfg ?s1] obtain s2
    where s2: "persist_metadata ex_cfg [ex_b2, ex_b3] [] ?s1 = Inr s2" by blast
  have wf: "tables_wf ex_cfg (ms_db ex_migrated) 3" using ex_chain_wf by (simp add: ex_migrated_def)
  have "list_all (\<lambda>b. apart_from_index ex_cfg ex_chain_db (Suc 0) (sb_header b)) [ex_b2, ex_b3]"
    unfolding apart_from_index_lists by code_simp
  then have "\<forall>b \<in> set [ex_b2, ex_b3]. apart_from_index ex_cfg (ms_db ex_migrated) (Suc 0) (sb_header b)"
    by (simp add: ex_migrated_def)
  moreover have "finalized_of ex_cfg 3 \<le> 0" "mc_storage_modules_set ex_cfg" "(3 :: nat) \<le> 2 ^ 64" "(0 :: nat) < 3 - 1"
    by (simp_all add: ex_cfg_def finalized_height_def)
  moreover have "70 \<in> term_ids (sb_header ex_b2)" by code_simp
  ultimately have "tables_wf ex_cfg (ms_db s2) (Suc 0) \<and> included (db_data_metadata (ms_db s2)) 70 = None"
    using deep_reorg_restores_tables [OF wf _ _ _ _ _ r s2] by fastforce
  then show ?thesis using s2 by auto
qed

end
