(* ===== verification/Block_Tree_Service.thy ===== *)
theory Block_Tree_Service
  imports Migration_Props
begin

text \<open>
  The block tree service (\<open>crates/actors/src/block_tree_service.rs\<close>): the actor that owns the block
  tree and decides when the tip moves. It receives pre-validated blocks and validation results, one
  message at a time, and calls the block tree, the fork-choice markers and the migration service.

  \<open>service_state\<close> holds the tree, the state of the migration service, the messages sent to other
  services in the order they are sent, and whether the receivers whose absence is an error are
  running. A send to a receiver whose absence is only logged is a message here. The snapshots the
  service computes for a block are the parameter \<open>snapshot_ops\<close>. Metrics, logs, timestamps, the record
  of recently discarded blocks that serves the recovery metric, the durable block stream and the VDF
  re-anchor requests are left out: the tree, the database and the other messages do not depend on them.

  An error of \<open>on_block_validation_finished\<close> ends the service. The result of
  \<open>on_block_prevalidated\<close> goes back to the caller and the service goes on.
\<close>

section \<open>Messages and state\<close>

record ('e, 'c, 'm, 'i) snapshot_ops =
  so_epoch_snapshot :: "irys_block_header \<Rightarrow> (block_transactions, 'e, 'c, 'm) block_metadata \<Rightarrow> 'e option"
  so_commitment_snapshot ::
    "irys_block_header \<Rightarrow> commitment_transaction list \<Rightarrow> 'c \<Rightarrow> 'e \<Rightarrow> 'c"
  so_next_ema_snapshot :: "'m \<Rightarrow> irys_block_header \<Rightarrow> irys_block_header \<Rightarrow> 'm option"
  so_expired_partitions :: "'e \<Rightarrow> h256 list option"
  so_storage_module_infos :: "'e \<Rightarrow> 'i option"

datatype validation_result = Valid | Invalid | InternalFailure bool

datatype discard_kind = DiscardSoftInternal | DiscardInvalid

record reorg_event =
  re_old_fork :: "full_block list"
  re_new_fork :: "full_block list"
  re_fork_parent :: irys_block_header
  re_new_tip :: h256

record tip_move =
  tm_new_tip :: irys_block_header
  tm_fcu_markers :: fork_choice_markers
  tm_reorg_event :: "reorg_event option"
  tm_epoch_block :: "irys_block_header option"
  tm_blocks_to_confirm :: "full_block list"

record block_state_updated =
  bsu_block_hash :: h256
  bsu_height :: nat
  bsu_state :: chain_state
  bsu_discarded :: bool
  bsu_validation_result :: validation_result

datatype 'i service_message =
    ValidateBlock full_block bool
  | ProcessPendingIngressProofs h256
  | StateUpdated block_state_updated
  | ReorgHappened reorg_event
  | ForkChoiceUpdate h256 h256 h256
  | BlockConfirmed full_block
  | DifficultyUpdate irys_block_header
  | PartitionsExpiration "h256 list" nat
  | EpochProcessed h256
  | PartitionAssignmentsUpdated 'i nat

datatype pre_validation_error =
    ParentNotInCache h256 nat
  | InvalidEpochSnapshot
  | EmaSnapshotError
  | AddBlockFailed h256 bt_error
  | ValidationServiceUnreachable

datatype service_error =
    TipCandidateNotFound h256
  | TipNotFound h256
  | ServiceTree bt_error
  | OutsideCacheWindow nat nat
  | ServiceMarkers fork_choice_error
  | ServiceMigration migration_error
  | EpochSnapshotMissing h256
  | StorageModuleMapping
  | StorageModulesUnreachable
  | RethUnreachable
  | DiscardRefused h256 bt_error
  | NodeFault h256

record ('e, 'c, 'm, 'i) service_state =
  sv_cache :: "('e, 'c, 'm) full_tree"
  sv_migration :: migration_state
  sv_sent :: "'i service_message list"
  sv_validation_open :: bool
  sv_reth_open :: bool
  sv_storage_modules_open :: bool

definition send ::
  "'i service_message \<Rightarrow> ('e, 'c, 'm, 'i) service_state \<Rightarrow> ('e, 'c, 'm, 'i) service_state"
where
  "send msg s = s\<lparr>sv_sent := sv_sent s @ [msg]\<rparr>"

section \<open>Pre-validated blocks\<close>

definition on_block_prevalidated ::
  "('e, 'c, 'm, 'i) snapshot_ops \<Rightarrow> nat \<Rightarrow> full_block \<Rightarrow> bool \<Rightarrow> ('e, 'c, 'm, 'i) service_state \<Rightarrow>
   (pre_validation_error + unit) \<times> ('e, 'c, 'm, 'i) service_state"
where
  "on_block_prevalidated ops now block skip_vdf s =
     (let header = sb_header block; hash = bh_block_hash header; cache = sv_cache s in
      if get_block hash cache \<noteq> None then (Inr (), s)
      else (case map_of (blocks cache) (bh_previous_block_hash header) of
        None \<Rightarrow> (Inl (ParentNotInCache (bh_previous_block_hash header) (bh_height header - 1)), s)
      | Some parent \<Rightarrow>
      (case so_epoch_snapshot ops header parent of
        None \<Rightarrow> (Inl InvalidEpochSnapshot, s)
      | Some epoch \<Rightarrow>
      let commitments =
            so_commitment_snapshot ops header
              (get_ledger_system_txs (sb_transactions block) Commitment)
              (bm_commitment_snapshot parent) epoch in
      (case so_next_ema_snapshot ops (bm_ema_snapshot parent) header (header_of parent) of
        None \<Rightarrow> (Inl EmaSnapshotError, s)
      | Some ema \<Rightarrow>
      (case add_block now block commitments epoch ema cache of
        (Inl e, cache) \<Rightarrow> (Inl (AddBlockFailed hash e), s\<lparr>sv_cache := cache\<rparr>)
      | (Inr _, cache) \<Rightarrow>
          let s = s\<lparr>sv_cache := mark_block_as_validation_scheduled hash cache\<rparr> in
          if sv_validation_open s
          then (Inr (), send (ProcessPendingIngressProofs hash) (send (ValidateBlock block skip_vdf) s))
          else (Inl ValidationServiceUnreachable, s))))))"

section \<open>Moving the tip\<close>

definition validate_reorg_within_cache_window :: "nat \<Rightarrow> nat \<Rightarrow> nat \<Rightarrow> service_error + unit" where
  "validate_reorg_within_cache_window fork_height new_tip_height tree_depth =
     (let min_keep_height = new_tip_height - (tree_depth - 1) in
      if fork_height < min_keep_height then Inl (OutsideCacheWindow fork_height min_keep_height)
      else Inr ())"

definition is_epoch_block :: "migration_config \<Rightarrow> irys_block_header \<Rightarrow> bool" where
  "is_epoch_block cfg b \<longleftrightarrow> mc_num_blocks_in_epoch cfg dvd bh_height b"

definition first_epoch_block :: "migration_config \<Rightarrow> full_block list \<Rightarrow> irys_block_header option" where
  "first_epoch_block cfg bs = map_option sb_header (find (\<lambda>sb. is_epoch_block cfg (sb_header sb)) bs)"

definition header_in_db :: "irys_db \<Rightarrow> h256 \<Rightarrow> irys_block_header option" where
  "header_in_db db h = block_header_by_hash db h False"

text \<open>
  The part of \<open>try_move_tip_to\<close> that follows the prune: the rollback of migrated blocks, when the old
  fork is longer than the migration depth, and the description of the move.
\<close>

definition describe_tip_move ::
  "migration_config \<Rightarrow> irys_block_header \<Rightarrow> fork_choice_markers \<Rightarrow> block_transactions reorg_split \<Rightarrow>
   ('e, 'c, 'm, 'i) service_state \<Rightarrow> (service_error + tip_move option) \<times> ('e, 'c, 'm, 'i) service_state"
where
  "describe_tip_move cfg new_tip markers split s =
     (let move = \<lambda>ev. \<lparr>tm_new_tip = new_tip, tm_fcu_markers = markers, tm_reorg_event = ev,
                       tm_epoch_block = first_epoch_block cfg (rs_new_divergent split),
                       tm_blocks_to_confirm = rs_new_divergent split\<rparr>;
          fork_block = sb_header (rs_lca split) in
      if rs_old_divergent split = [] then (Inr (Some (move None)), s)
      else
        let (r, mig) =
              (if length (rs_old_divergent split) > mc_block_migration_depth cfg
               then recover_from_network_partition cfg (bh_height fork_block) (sv_migration s)
               else (Inr (), sv_migration s));
            s = s\<lparr>sv_migration := mig\<rparr> in
        (case r of
           Inl e \<Rightarrow> (Inl (ServiceMigration e), s)
         | Inr _ \<Rightarrow>
             (Inr (Some (move (Some
                \<lparr>re_old_fork = rs_old_divergent split, re_new_fork = rs_new_divergent split,
                 re_fork_parent = fork_block, re_new_tip = bh_block_hash new_tip\<rparr>))), s)))"

definition try_move_tip_to ::
  "migration_config \<Rightarrow> h256 \<Rightarrow> ('e, 'c, 'm, 'i) service_state \<Rightarrow>
   (service_error + tip_move option) \<times> ('e, 'c, 'm, 'i) service_state"
where
  "try_move_tip_to cfg candidate s =
     (let cache = sv_cache s in
      case get_block candidate cache of
        None \<Rightarrow> (Inl (TipCandidateNotFound candidate), s)
      | Some new_tip \<Rightarrow>
      (case get_block (tip cache) cache of
        None \<Rightarrow> (Inl (TipNotFound (tip cache)), s)
      | Some old_tip_block \<Rightarrow>
      if bh_cumulative_diff old_tip_block \<ge> bh_cumulative_diff new_tip then (Inr None, s)
      else let (max_diff, max_hash) = max_cumulative_difficulty cache in
      if bh_cumulative_diff new_tip = max_diff \<and> max_hash \<noteq> candidate then (Inr None, s)
      else
      (case find_reorg_split candidate (bh_block_hash old_tip_block) cache of
        Inl e \<Rightarrow> (Inl (ServiceTree e), s)
      | Inr split \<Rightarrow>
      (case validate_reorg_within_cache_window (bh_height (sb_header (rs_lca split)))
              (bh_height new_tip) (mc_block_tree_depth cfg) of
        Inl e \<Rightarrow> (Inl e, s)
      | Inr _ \<Rightarrow>
      (case mark_tip candidate cache of
        (Inl e, cache) \<Rightarrow> (Inl (ServiceTree e), s\<lparr>sv_cache := cache\<rparr>)
      | (Inr False, cache) \<Rightarrow> (Inr None, s\<lparr>sv_cache := cache\<rparr>)
      | (Inr True, cache) \<Rightarrow>
      (case from_block_tree (header_in_db (ms_db (sv_migration s))) cache
              (db_index (ms_db (sv_migration s))) (mc_block_migration_depth cfg)
              (mc_block_tree_depth cfg) of
        Inl e \<Rightarrow> (Inl (ServiceMarkers e), s\<lparr>sv_cache := cache\<rparr>)
      | Inr markers \<Rightarrow>
      (case prune (mc_block_tree_depth cfg - 1) cache of
        (Inl e, cache) \<Rightarrow> (Inl (ServiceTree e), s\<lparr>sv_cache := cache\<rparr>)
      | (Inr _, cache) \<Rightarrow> describe_tip_move cfg new_tip markers split (s\<lparr>sv_cache := cache\<rparr>))))))))"

section \<open>Publishing a move of the tip\<close>

definition get_epoch_snapshot :: "h256 \<Rightarrow> ('b, 'e, 'c, 'm) block_tree \<Rightarrow> 'e option" where
  "get_epoch_snapshot h t = map_option bm_epoch_snapshot (map_of (blocks t) h)"

definition send_epoch_events ::
  "('e, 'c, 'm, 'i) snapshot_ops \<Rightarrow> irys_block_header \<Rightarrow> ('e, 'c, 'm, 'i) service_state \<Rightarrow>
   (service_error + unit) \<times> ('e, 'c, 'm, 'i) service_state"
where
  "send_epoch_events ops epoch_block s =
     (let hash = bh_block_hash epoch_block in
      case get_epoch_snapshot hash (sv_cache s) of
        None \<Rightarrow> (Inl (EpochSnapshotMissing hash), s)
      | Some epoch \<Rightarrow>
          let s = (case so_expired_partitions ops epoch of
                     None \<Rightarrow> s
                   | Some hs \<Rightarrow> send (PartitionsExpiration hs (bh_height epoch_block)) s);
              s = send (EpochProcessed hash) s in
          (case so_storage_module_infos ops epoch of
             None \<Rightarrow> (Inl StorageModuleMapping, s)
           | Some infos \<Rightarrow>
               if sv_storage_modules_open s
               then (Inr (), send (PartitionAssignmentsUpdated infos (bh_height epoch_block)) s)
               else (Inl StorageModulesUnreachable, s)))"

definition emit_fcu ::
  "fork_choice_markers \<Rightarrow> ('e, 'c, 'm, 'i) service_state \<Rightarrow>
   (service_error + unit) \<times> ('e, 'c, 'm, 'i) service_state"
where
  "emit_fcu markers s =
     (if sv_reth_open s
      then (Inr (), send (ForkChoiceUpdate (bh_block_hash (fc_head markers))
                            (bh_block_hash (fc_migration_block markers))
                            (bh_block_hash (fc_prune_block markers))) s)
      else (Inl RethUnreachable, s))"

definition persist_tip_metadata ::
  "migration_config \<Rightarrow> full_block list \<Rightarrow> full_block list \<Rightarrow> ('e, 'c, 'm, 'i) service_state \<Rightarrow>
   (service_error + unit) \<times> ('e, 'c, 'm, 'i) service_state"
where
  "persist_tip_metadata cfg old_fork new_blocks s =
     (case persist_metadata cfg old_fork new_blocks (sv_migration s) of
        Inl e \<Rightarrow> (Inl (ServiceMigration e), s)
      | Inr mig \<Rightarrow> (Inr (), s\<lparr>sv_migration := mig\<rparr>))"

definition migrate_block ::
  "migration_config \<Rightarrow> irys_block_header \<Rightarrow> ('e, 'c, 'm, 'i) service_state \<Rightarrow>
   (service_error + unit) \<times> ('e, 'c, 'm, 'i) service_state"
where
  "migrate_block cfg block s =
     (let (r, mig) = migrate_blocks cfg block (sv_cache s) (sv_migration s) in
      (map_error ServiceMigration r, s\<lparr>sv_migration := mig\<rparr>))"

definition parent_diff_changed :: "irys_block_header \<Rightarrow> ('b, 'e, 'c, 'm) block_tree \<Rightarrow> bool" where
  "parent_diff_changed new_tip t =
     (case get_block (bh_previous_block_hash new_tip) t of
        None \<Rightarrow> False | Some parent \<Rightarrow> bh_diff parent \<noteq> bh_diff new_tip)"

definition publish_tip_move ::
  "('e, 'c, 'm, 'i) snapshot_ops \<Rightarrow> migration_config \<Rightarrow> tip_move \<Rightarrow> ('e, 'c, 'm, 'i) service_state \<Rightarrow>
   (service_error + unit) \<times> ('e, 'c, 'm, 'i) service_state"
where
  "publish_tip_move ops cfg mv s =
     (let old_fork = (case tm_reorg_event mv of None \<Rightarrow> [] | Some ev \<Rightarrow> re_old_fork ev) in
      sbind (case tm_epoch_block mv of
               None \<Rightarrow> (Inr (), s) | Some b \<Rightarrow> send_epoch_events ops b s) (\<lambda>_ s.
      sbind (persist_tip_metadata cfg old_fork (tm_blocks_to_confirm mv) s) (\<lambda>_ s.
      let s = (case tm_reorg_event mv of None \<Rightarrow> s | Some ev \<Rightarrow> send (ReorgHappened ev) s) in
      sbind (emit_fcu (tm_fcu_markers mv) s) (\<lambda>_ s.
      let s = fold (\<lambda>sb. send (BlockConfirmed sb)) (tm_blocks_to_confirm mv) s in
      sbind (migrate_block cfg (fc_migration_block (tm_fcu_markers mv)) s) (\<lambda>_ s.
      (Inr (), if parent_diff_changed (tm_new_tip mv) (sv_cache s)
               then send (DifficultyUpdate (tm_new_tip mv)) s else s))))))"

section \<open>Validation results\<close>

definition block_state ::
  "h256 \<Rightarrow> ('b, 'e, 'c, 'm) block_tree \<Rightarrow> chain_state"
where
  "block_state h t =
     (case get_block_and_status h t of None \<Rightarrow> NotOnchain Unknown | Some (_, st) \<Rightarrow> st)"

definition state_updated :: "h256 \<Rightarrow> nat \<Rightarrow> chain_state \<Rightarrow> bool \<Rightarrow> validation_result \<Rightarrow> 'i service_message" where
  "state_updated h height st discarded r =
     StateUpdated \<lparr>bsu_block_hash = h, bsu_height = height, bsu_state = st,
                   bsu_discarded = discarded, bsu_validation_result = r\<rparr>"

text \<open>
  \<open>remove_block\<close> on a block that is not \<open>Onchain\<close>: an error value is logged, a panic is not an error
  value.
\<close>

definition discard_and_broadcast ::
  "h256 \<Rightarrow> validation_result \<Rightarrow> discard_kind \<Rightarrow> ('e, 'c, 'm, 'i) service_state \<Rightarrow>
   (service_error + unit) \<times> ('e, 'c, 'm, 'i) service_state"
where
  "discard_and_broadcast h result kind s =
     (let cache = sv_cache s in
      if kind = DiscardSoftInternal \<and> map_option snd (get_block_and_status h cache) = Some Onchain
      then (Inr (), s)
      else
        let height = (case get_block h cache of None \<Rightarrow> 0 | Some b \<Rightarrow> bh_height b);
            st = block_state h cache;
            event = state_updated h height st True result in
        if get_block h cache = None then (Inr (), send event s)
        else (case remove_block h cache of
                (Inr _, cache) \<Rightarrow> (Inr (), send event (s\<lparr>sv_cache := cache\<rparr>))
              | (Inl e, cache) \<Rightarrow>
                  let s = s\<lparr>sv_cache := cache\<rparr> in
                  if st = Onchain then (Inl (DiscardRefused h e), s)
                  else if e = Panic \<or> e = Diverges then (Inl (ServiceTree e), s)
                  else (Inr (), send event s)))"

definition move_tip_after_discard ::
  "('e, 'c, 'm, 'i) snapshot_ops \<Rightarrow> migration_config \<Rightarrow> ('e, 'c, 'm, 'i) service_state \<Rightarrow>
   (service_error + unit) \<times> ('e, 'c, 'm, 'i) service_state"
where
  "move_tip_after_discard ops cfg s =
     (let cache = sv_cache s; max_hash = snd (max_cumulative_difficulty cache) in
      case get_earliest_not_onchain_in_longest_chain cache of
        Inl e \<Rightarrow> (Inl (ServiceTree e), s)
      | Inr None \<Rightarrow> (Inr (), s)
      | Inr (Some _) \<Rightarrow>
      (case get_max_chain_validated_head cache of
        Inl e \<Rightarrow> (Inl (ServiceTree e), s)
      | Inr head \<Rightarrow>
      if head \<noteq> Some max_hash then (Inr (), s)
      else sbind (try_move_tip_to cfg max_hash s) (\<lambda>mv s.
        case mv of
          None \<Rightarrow> (Inr (), s)
        | Some mv \<Rightarrow>
            sbind (publish_tip_move ops cfg mv s) (\<lambda>_ s.
            (Inr (), send (state_updated (bh_block_hash (tm_new_tip mv)) (bh_height (tm_new_tip mv))
                             Onchain False Valid) s)))))"

definition on_valid_block ::
  "('e, 'c, 'm, 'i) snapshot_ops \<Rightarrow> migration_config \<Rightarrow> h256 \<Rightarrow> ('e, 'c, 'm, 'i) service_state \<Rightarrow>
   (service_error + unit) \<times> ('e, 'c, 'm, 'i) service_state"
where
  "on_valid_block ops cfg h s =
     (case get_block h (sv_cache s) of
        None \<Rightarrow> (Inr (), send (state_updated h 0 (NotOnchain Unknown) False Valid) s)
      | Some b \<Rightarrow>
      let height = bh_height b in
      if get_block (tip (sv_cache s)) (sv_cache s) = None then (Inl (TipNotFound (tip (sv_cache s))), s)
      else (case mark_block_as_valid h (sv_cache s) of
        (Inl _, cache) \<Rightarrow> (Inr (), s\<lparr>sv_cache := cache\<rparr>)
      | (Inr _, cache) \<Rightarrow>
      let s = s\<lparr>sv_cache := cache\<rparr> in
      (case get_earliest_not_onchain_in_longest_chain cache of
        Inl e \<Rightarrow> (Inl (ServiceTree e), s)
      | Inr None \<Rightarrow> (Inr (), send (state_updated h height (block_state h cache) False Valid) s)
      | Inr (Some _) \<Rightarrow>
      if map_of (blocks cache) h = None
      then (Inr (), send (state_updated h height (NotOnchain Unknown) False Valid) s)
      else sbind (try_move_tip_to cfg h s) (\<lambda>mv s.
        let st = block_state h (sv_cache s) in
        sbind (case mv of
                 Some mv \<Rightarrow> publish_tip_move ops cfg mv s
               | None \<Rightarrow> persist_tip_metadata cfg [] [] s) (\<lambda>_ s.
        (Inr (), send (state_updated h height st False Valid) s))))))"

definition on_block_validation_finished ::
  "('e, 'c, 'm, 'i) snapshot_ops \<Rightarrow> migration_config \<Rightarrow> h256 \<Rightarrow> validation_result \<Rightarrow>
   ('e, 'c, 'm, 'i) service_state \<Rightarrow> (service_error + unit) \<times> ('e, 'c, 'm, 'i) service_state"
where
  "on_block_validation_finished ops cfg h result s =
     (case result of
        InternalFailure node_fault \<Rightarrow>
          if node_fault then (Inl (NodeFault h), s)
          else sbind (discard_and_broadcast h result DiscardSoftInternal s) (\<lambda>_ s.
               move_tip_after_discard ops cfg s)
      | Invalid \<Rightarrow>
          sbind (discard_and_broadcast h result DiscardInvalid s) (\<lambda>_ s.
          move_tip_after_discard ops cfg s)
      | Valid \<Rightarrow> on_valid_block ops cfg h s)"

definition service_block_header ::
  "('e, 'c, 'm) full_tree \<Rightarrow> irys_db \<Rightarrow> h256 \<Rightarrow> bool \<Rightarrow> irys_block_header option"
where
  "service_block_header t db h include_chunk =
     (case get_block h t of
        Some b \<Rightarrow> Some (if include_chunk then b else b\<lparr>bh_poa_chunk := None\<rparr>)
      | None \<Rightarrow> block_header_by_hash db h include_chunk)"

section \<open>The message loop\<close>

datatype request =
    GetBlockTreeReadGuard
  | BlockPreValidated nat full_block bool
  | BlockValidationFinished h256 validation_result
  | SetStorageModulesGuard

text \<open>The storage modules guard is part of the migration configuration.\<close>

definition handle_message ::
  "('e, 'c, 'm, 'i) snapshot_ops \<Rightarrow> request \<Rightarrow> migration_config \<times> ('e, 'c, 'm, 'i) service_state \<Rightarrow>
   (service_error + unit) \<times> migration_config \<times> ('e, 'c, 'm, 'i) service_state"
where
  "handle_message ops req cs =
     (let (cfg, s) = cs in
      case req of
        GetBlockTreeReadGuard \<Rightarrow> (Inr (), cfg, s)
      | BlockPreValidated now block skip_vdf \<Rightarrow>
          (Inr (), cfg, snd (on_block_prevalidated ops now block skip_vdf s))
      | BlockValidationFinished h result \<Rightarrow>
          (let (r, s) = on_block_validation_finished ops cfg h result s in (r, cfg, s))
      | SetStorageModulesGuard \<Rightarrow> (Inr (), cfg\<lparr>mc_storage_modules_set := True\<rparr>, s))"

text \<open>
  The loop of the service: it handles messages until the shutdown signal or an error, then drains the
  messages that are still queued. Validation results are dropped there, except a node fault.
\<close>

definition drain_message ::
  "('e, 'c, 'm, 'i) snapshot_ops \<Rightarrow> request \<Rightarrow> migration_config \<times> ('e, 'c, 'm, 'i) service_state \<Rightarrow>
   (service_error + unit) \<times> migration_config \<times> ('e, 'c, 'm, 'i) service_state"
where
  "drain_message ops req cs =
     (case req of
        BlockValidationFinished h (InternalFailure True) \<Rightarrow> (Inl (NodeFault h), cs)
      | BlockValidationFinished h _ \<Rightarrow> (Inr (), cs)
      | _ \<Rightarrow> handle_message ops req cs)"

definition serve ::
  "('e, 'c, 'm, 'i) snapshot_ops \<Rightarrow> request list \<Rightarrow> migration_config \<times> ('e, 'c, 'm, 'i) service_state \<Rightarrow>
   (service_error + unit) \<times> migration_config \<times> ('e, 'c, 'm, 'i) service_state"
where
  "serve ops msgs cs = st_fold (handle_message ops) msgs cs"

definition start_service ::
  "('e, 'c, 'm, 'i) snapshot_ops \<Rightarrow> request list \<Rightarrow> request list \<Rightarrow>
   migration_config \<times> ('e, 'c, 'm, 'i) service_state \<Rightarrow>
   (service_error + unit) \<times> migration_config \<times> ('e, 'c, 'm, 'i) service_state"
where
  "start_service ops msgs queued cs =
     sbind (serve ops msgs cs) (\<lambda>_ cs. st_fold (drain_message ops) queued cs)"

end
