(* ===== verification/Service_Correct.thy ===== *)
theory Service_Correct
  imports Block_Tree_Service
begin

text \<open>
  Correctness of the block tree service. \<open>service_inv\<close> is the invariant of its tree: the tree is well
  formed, a fully validated block has only fully validated ancestors, and the tree was built with the
  depth of the configuration. Under it a move of the tip cannot fail inside the tree.
\<close>

section \<open>Validity is closed under parents\<close>

definition ready :: "('b, 'e, 'c, 'm) block_map \<Rightarrow> h256 \<Rightarrow> bool" where
  "ready bs h \<longleftrightarrow> (\<exists>e. map_of bs h = Some e \<and> is_parent_ready (bm_chain_state e))"

definition valid_closed :: "('b, 'e, 'c, 'm) block_map \<Rightarrow> bool" where
  "valid_closed bs \<longleftrightarrow> (\<forall>h. ready bs h \<longrightarrow> all_valid bs h)"

lemma all_valid_ready: "all_valid bs h \<longleftrightarrow> (\<forall>y. banc bs y h \<longrightarrow> ready bs y)"
  unfolding all_valid_def ready_def using anc_nodes(1) [of "bdom bs" "bpar bs"] by fastforce

lemma valid_closedD: "valid_closed bs \<Longrightarrow> ready bs h \<Longrightarrow> banc bs y h \<Longrightarrow> ready bs y"
  unfolding valid_closed_def all_valid_ready by blast

lemma valid_closedI: "(\<And>h y. ready bs h \<Longrightarrow> banc bs y h \<Longrightarrow> ready bs y) \<Longrightarrow> valid_closed bs"
  unfolding valid_closed_def all_valid_ready by blast

lemma all_valid_self: "all_valid bs h \<Longrightarrow> h \<in> bdom bs \<Longrightarrow> ready bs h"
  unfolding all_valid_ready using anc_refl by metis

lemma valid_closed_restate:
  assumes "restate bs r" and "\<And>x. ready r x \<longleftrightarrow> ready bs x" and "valid_closed bs"
  shows "valid_closed r"
  using assms(2,3) restate_banc [OF assms(1)] by (intro valid_closedI) (metis valid_closedD)

lemma valid_closed_removed:
  assumes wf: "bs_wf bs" and r: "removed S bs bs'" and c: "valid_closed bs"
  shows "valid_closed bs'"
proof (rule valid_closedI)
  fix h y
  assume h: "ready bs' h" and y: "banc bs' y h"
  have "ready bs' x \<longleftrightarrow> ready bs x \<and> x \<notin> S" for x
    using removed_lookup [OF r, of x] by (auto simp: ready_def)
  moreover have "banc bs y h" "y \<notin> S"
    using y removed_banc [OF wf r] anc_nodes(1) [OF y] removed_dom [OF r] by auto
  ultimately show "ready bs' y" using valid_closedD [OF c] h by blast
qed

lemma valid_closed_grown:
  assumes g: "grown bs e bs'" and e: "\<not> is_parent_ready (bm_chain_state e)" and c: "valid_closed bs"
  shows "valid_closed bs'"
proof (rule valid_closedI)
  fix h y
  assume h: "ready bs' h" and y: "banc bs' y h"
  have eq: "ready bs' x \<longleftrightarrow> ready bs x" for x
  proof -
    have "map_of bs (bh_block_hash (header_of e)) = None"
      using grownD(4) [OF g] by (simp add: extends_def)
    then show ?thesis
      using grown_lookup [OF g, of x] e by (cases "map_of bs x") (auto simp: ready_def)
  qed
  then have "h \<in> bdom bs" using h by (auto simp: ready_def)
  then have "banc bs y h" using y grown_banc_old [OF g] by simp
  then show "ready bs' y" using valid_closedD [OF c] h eq by blast
qed

lemma ready_set_state:
  "map_of bs h = Some e \<Longrightarrow> ready (set_state h st bs) x \<longleftrightarrow> (if x = h then is_parent_ready st else ready bs x)"
  by (auto simp: ready_def)

lemma ready_remarked:
  assumes "remarked bs T r" and "\<And>x. T x \<Longrightarrow> ready bs x"
  shows "ready r x \<longleftrightarrow> ready bs x"
proof (cases "map_of bs x")
  case None
  then show ?thesis using restate_None [OF remarked_restate [OF assms(1)], of x] by (simp add: ready_def)
next
  case (Some e)
  then have "map_of r x = Some (e\<lparr>bm_chain_state := new_state (T x) (bm_chain_state e)\<rparr>)"
    using assms(1) by (simp add: remarked_def)
  then show ?thesis
    using Some assms(2) [of x] by (auto simp: ready_def new_state_def is_parent_ready_def)
qed

lemma banc_diff:
  assumes wf: "bs_wf bs"
  shows "banc bs a h \<Longrightarrow> map_of bs a = Some ae \<Longrightarrow> map_of bs h = Some he \<Longrightarrow> diff_of ae \<le> diff_of he"
proof (induction arbitrary: he rule: anc.induct)
  case (anc_step h a)
  obtain pe where pe: "map_of bs (bpar bs h) = Some pe"
    using anc_nodes(2) [OF anc_step.hyps(2)] by blast
  then have "diff_of pe < diff_of he" using bs_wf_parent [OF wf anc_step.prems(2)] anc_step.prems(2) by simp
  then show ?case using anc_step.IH [OF anc_step.prems(1) pe] by simp
qed simp

section \<open>The invariant\<close>

definition service_inv :: "migration_config \<Rightarrow> ('e, 'c, 'm, 'i) service_state \<Rightarrow> bool" where
  "service_inv cfg s \<longleftrightarrow>
     tree_inv (sv_cache s) \<and> valid_closed (blocks (sv_cache s)) \<and>
     block_tree_depth (sv_cache s) = mc_block_tree_depth cfg"

lemma service_invD:
  assumes "service_inv cfg s"
  shows "tree_inv (sv_cache s)" "valid_closed (blocks (sv_cache s))"
    "block_tree_depth (sv_cache s) = mc_block_tree_depth cfg"
  using assms by (simp_all add: service_inv_def)

lemma service_inv_cache: "service_inv cfg s \<Longrightarrow> sv_cache s' = sv_cache s \<Longrightarrow> service_inv cfg s'"
  by (simp add: service_inv_def)

lemma send_cache [simp]: "sv_cache (send m s) = sv_cache s" "sv_migration (send m s) = sv_migration s"
  by (simp_all add: send_def)

lemma service_inv_send [simp]: "service_inv cfg (send m s) = service_inv cfg s"
  by (simp add: service_inv_def)

section \<open>The outcomes of a move\<close>

definition heavier :: "('b, 'e, 'c, 'm) block_tree \<Rightarrow> h256 \<Rightarrow> bool" where
  "heavier t h \<longleftrightarrow>
     (\<exists>he te. map_of (blocks t) h = Some he \<and> map_of (blocks t) (tip t) = Some te \<and> diff_of te < diff_of he \<and>
        (diff_of he \<noteq> fst (max_cumulative_difficulty t) \<or> snd (max_cumulative_difficulty t) = h))"

definition fork_point :: "('b, 'e, 'c, 'm) block_tree \<Rightarrow> h256 \<Rightarrow> h256 \<Rightarrow> bool" where
  "fork_point t l h \<longleftrightarrow>
     banc (blocks t) l h \<and> banc (blocks t) l (tip t) \<and>
     (\<forall>x. banc (blocks t) x h \<and> banc (blocks t) x (tip t) \<longrightarrow> banc (blocks t) x l)"

text \<open>The tree after \<open>mark_tip\<close>, and after the prune that follows it.\<close>

definition retipped :: "('b, 'e, 'c, 'm) block_tree \<Rightarrow> h256 \<Rightarrow> ('b, 'e, 'c, 'm) block_tree \<Rightarrow> bool" where
  "retipped t h t1 \<longleftrightarrow>
     tree_inv t1 \<and> tip t1 = h \<and> remarked (blocks t) (\<lambda>x. banc (blocks t) x h) (blocks t1) \<and>
     valid_closed (blocks t1) \<and> max_cumulative_difficulty t1 = max_cumulative_difficulty t \<and>
     block_tree_depth t1 = block_tree_depth t"

definition pruned :: "nat \<Rightarrow> ('b, 'e, 'c, 'm) block_tree \<Rightarrow> ('b, 'e, 'c, 'm) block_tree \<Rightarrow> bool" where
  "pruned d t1 t2 \<longleftrightarrow>
     tree_inv t2 \<and> tip t2 = tip t1 \<and> valid_closed (blocks t2) \<and> block_tree_depth t2 = block_tree_depth t1 \<and>
     (\<exists>k. banc (blocks t1) k (tip t1) \<and> bht (blocks t1) (tip t1) - d \<le> bht (blocks t1) k \<and>
        (bht (blocks t1) k = bht (blocks t1) (tip t1) - d \<or> root (blocks t1) k) \<and>
        kept k (blocks t1) (blocks t2))"

lemma mark_tip_moves:
  assumes inv: "service_inv cfg s" and h: "all_valid (blocks (sv_cache s)) h" "heavier (sv_cache s) h"
  shows "\<exists>t1. mark_tip h (sv_cache s) = (Inr True, t1) \<and> retipped (sv_cache s) h t1"
proof -
  let ?t = "sv_cache s"
  note I = service_invD [OF inv] and wf = tree_invD(1) [OF service_invD(1) [OF inv]]
  obtain he te where e: "map_of (blocks ?t) h = Some he" "map_of (blocks ?t) (tip ?t) = Some te"
    "diff_of te < diff_of he"
    "diff_of he \<noteq> fst (max_cumulative_difficulty ?t) \<or> snd (max_cumulative_difficulty ?t) = h"
    using h(2) unfolding heavier_def by blast
  have off: "\<not> banc (blocks ?t) h (tip ?t)" using banc_diff [OF wf _ e(1,2)] e(3) by (meson leD)
  have mk: "markable (bm_chain_state xe)"
    if "banc (blocks ?t) x h" "x \<noteq> h" "map_of (blocks ?t) x = Some xe" for x xe
    using h(1) that unfolding all_valid_def by (blast intro: valid_markable)
  obtain r where r: "remarked (blocks ?t) (\<lambda>x. banc (blocks ?t) x h) r"
    "mark_tip h ?t = (Inr True, update_longest_chain_cache (?t\<lparr>blocks := r, tip := h\<rparr>))"
    using mark_tip_fork [OF I(1) e(1,4) off] mk by blast
  have "ready r x \<longleftrightarrow> ready (blocks ?t) x" for x
    using ready_remarked [OF r(1)] h(1) unfolding all_valid_ready by blast
  then have "valid_closed r" using valid_closed_restate [OF remarked_restate [OF r(1)] _ I(2)] by blast
  then show ?thesis
    using r tree_inv_remarked [OF I(1) e(1) r(1)] by (simp add: retipped_def)
qed

lemma prune_moves:
  assumes "tree_inv t" and "valid_closed (blocks t)"
  shows "\<exists>t'. prune d t = (Inr (), t') \<and> pruned d t t'"
proof -
  obtain r where r: "root (blocks t) r" using root_exists [OF assms(1)] by blast
  obtain t' k where p: "prune d t = (Inr (), t')" "tree_inv t'" "same_frame t t'" "banc (blocks t) k (tip t)"
    "bht (blocks t) k = max (bht (blocks t) r) (bht (blocks t) (tip t) - d)" "kept k (blocks t) (blocks t')"
    using prune_ok [OF assms(1) r] by blast
  have "root (blocks t) k" if "bht (blocks t) k \<noteq> bht (blocks t) (tip t) - d"
  proof -
    have "bht (blocks t) k = bht (blocks t) r" using that p(5) by linarith
    moreover have "banc (blocks t) r (tip t)" "r \<in> bdom (blocks t)"
      using r p(4) anc_nodes(2) [OF p(4)] by (auto simp: root_def)
    ultimately have "k = r" using banc_same_height [OF tree_invD(1) [OF assms(1)] p(4)] by blast
    then show ?thesis using r by simp
  qed
  then show ?thesis
    using p valid_closed_removed [OF tree_invD(1) [OF assms(1)] p(6) assms(2)]
    unfolding pruned_def same_frame_def by (intro exI [of _ t'] conjI exI [of _ k]) auto
qed

lemma get_block_Some: "map_of (blocks t) h = Some e \<Longrightarrow> get_block h t = Some (header_of e)"
  by (simp add: get_block_def)

lemma get_block_None: "get_block h t = None \<longleftrightarrow> map_of (blocks t) h = None"
  by (simp add: get_block_def)

definition window_floor :: "migration_config \<Rightarrow> ('b, 'e, 'c, 'm) block_tree \<Rightarrow> h256 \<Rightarrow> nat" where
  "window_floor cfg t h = bht (blocks t) h - (mc_block_tree_depth cfg - 1)"

lemma fork_point_exists:
  assumes inv: "tree_inv t" and h: "h \<in> bdom (blocks t)"
  shows "\<exists>l le. map_of (blocks t) l = Some le \<and> fork_point t l h \<and>
    find_reorg_split h (tip t) t =
      Inr \<lparr>rs_lca = bm_block le, rs_old_divergent = branch (blocks t) l (tip t),
           rs_new_divergent = branch (blocks t) l h\<rparr>"
proof -
  have "tip t \<in> bdom (blocks t)" using chain_inv_tip [OF tree_invD(2) [OF inv]] by blast
  from find_reorg_split_ok [OF inv h this] show ?thesis unfolding fork_point_def by blast
qed

text \<open>What a move does once the window check has passed.\<close>

definition move_result ::
  "migration_config \<Rightarrow> h256 \<Rightarrow> h256 \<Rightarrow> ('e, 'c, 'm) full_tree \<Rightarrow> ('e, 'c, 'm) full_tree \<Rightarrow>
   ('e, 'c, 'm, 'i) service_state \<Rightarrow> (service_error + tip_move option) \<times> ('e, 'c, 'm, 'i) service_state"
where
  "move_result cfg h l t1 t2 s =
     (case from_block_tree (header_in_db (ms_db (sv_migration s))) t1 (db_index (ms_db (sv_migration s)))
             (mc_block_migration_depth cfg) (mc_block_tree_depth cfg) of
        Inl e \<Rightarrow> (Inl (ServiceMarkers e), s\<lparr>sv_cache := t1\<rparr>)
      | Inr markers \<Rightarrow>
          describe_tip_move cfg (header_of (the (map_of (blocks (sv_cache s)) h))) markers
            \<lparr>rs_lca = bm_block (the (map_of (blocks (sv_cache s)) l)),
             rs_old_divergent = branch (blocks (sv_cache s)) l (tip (sv_cache s)),
             rs_new_divergent = branch (blocks (sv_cache s)) l h\<rparr> (s\<lparr>sv_cache := t2\<rparr>))"

lemma try_move_stays:
  assumes inv: "service_inv cfg s" and h: "h \<in> bdom (blocks (sv_cache s))" and no: "\<not> heavier (sv_cache s) h"
  shows "try_move_tip_to cfg h s = (Inr None, s)"
proof -
  let ?t = "sv_cache s"
  obtain he te where e: "map_of (blocks ?t) h = Some he" "map_of (blocks ?t) (tip ?t) = Some te"
    using h chain_inv_tip [OF tree_invD(2) [OF service_invD(1) [OF inv]]] by blast
  have "diff_of te \<ge> diff_of he \<or>
      diff_of he = fst (max_cumulative_difficulty ?t) \<and> snd (max_cumulative_difficulty ?t) \<noteq> h"
    using no e by (auto simp: heavier_def)
  then show ?thesis
    by (auto simp: try_move_tip_to_def get_block_Some [OF e(1)] get_block_Some [OF e(2)] Let_def case_prod_beta)
qed

lemma try_move_cases:
  assumes inv: "service_inv cfg s" and h: "all_valid (blocks (sv_cache s)) h" "heavier (sv_cache s) h"
  shows "\<exists>l. fork_point (sv_cache s) l h \<and>
    (if bht (blocks (sv_cache s)) l < window_floor cfg (sv_cache s) h
     then try_move_tip_to cfg h s =
       (Inl (OutsideCacheWindow (bht (blocks (sv_cache s)) l) (window_floor cfg (sv_cache s) h)), s)
     else \<exists>t1 t2. retipped (sv_cache s) h t1 \<and> pruned (mc_block_tree_depth cfg - 1) t1 t2 \<and>
       try_move_tip_to cfg h s = move_result cfg h l t1 t2 s)"
proof -
  let ?t = "sv_cache s"
  note I = service_invD [OF inv] and wf = tree_invD(1) [OF service_invD(1) [OF inv]]
  obtain he te where e: "map_of (blocks ?t) h = Some he" "map_of (blocks ?t) (tip ?t) = Some te"
    "diff_of te < diff_of he"
    "diff_of he \<noteq> fst (max_cumulative_difficulty ?t) \<or> snd (max_cumulative_difficulty ?t) = h"
    using h(2) unfolding heavier_def by blast
  have th: "bh_block_hash (header_of te) = tip ?t" by (rule bs_wf_hash [OF wf e(2)])
  obtain l le where l: "map_of (blocks ?t) l = Some le" "fork_point ?t l h"
    "find_reorg_split h (tip ?t) ?t =
      Inr \<lparr>rs_lca = bm_block le, rs_old_divergent = branch (blocks ?t) l (tip ?t),
           rs_new_divergent = branch (blocks ?t) l h\<rparr>"
    using fork_point_exists [OF I(1), of h] e(1) by blast
  obtain t1 where t1: "mark_tip h ?t = (Inr True, t1)" "retipped ?t h t1"
    using mark_tip_moves [OF inv h] by blast
  obtain t2 where t2: "prune (mc_block_tree_depth cfg - 1) t1 = (Inr (), t2)" "pruned (mc_block_tree_depth cfg - 1) t1 t2"
    using prune_moves [of t1] t1(2) unfolding retipped_def by blast
  have run: "try_move_tip_to cfg h s =
    (if height_of le < height_of he - (mc_block_tree_depth cfg - 1)
     then (Inl (OutsideCacheWindow (height_of le) (height_of he - (mc_block_tree_depth cfg - 1))), s)
     else move_result cfg h l t1 t2 s)"
    using e(3,4) t1(1) t2(1)
    by (auto simp: try_move_tip_to_def get_block_Some [OF e(1)] get_block_Some [OF e(2)] Let_def case_prod_beta
        th l(1,3) e(1) validate_reorg_within_cache_window_def move_result_def split: sum.splits)
  show ?thesis
    by (rule exI [of _ l], rule conjI [OF l(2)])
      (use run t1(2) t2(2) in \<open>auto simp: window_floor_def l(1) e(1)\<close>)
qed

section \<open>Handlers that leave the tree alone\<close>

definition tree_error :: "service_error \<Rightarrow> bool" where
  "tree_error e = (case e of TipCandidateNotFound _ \<Rightarrow> True | TipNotFound _ \<Rightarrow> True | ServiceTree _ \<Rightarrow> True | _ \<Rightarrow> False)"

lemma tree_error_simps [simp]:
  "tree_error (TipCandidateNotFound h)" "tree_error (TipNotFound h)" "tree_error (ServiceTree be)"
  "\<not> tree_error (OutsideCacheWindow a b)" "\<not> tree_error (ServiceMarkers fe)"
  "\<not> tree_error (ServiceMigration me)" "\<not> tree_error (EpochSnapshotMissing h)"
  "\<not> tree_error StorageModuleMapping" "\<not> tree_error StorageModulesUnreachable"
  "\<not> tree_error RethUnreachable" "\<not> tree_error (DiscardRefused h be)" "\<not> tree_error (NodeFault h)"
  by (simp_all add: tree_error_def)

definition no_tree_error :: "service_error + 'a \<Rightarrow> bool" where
  "no_tree_error r = (case r of Inl e \<Rightarrow> \<not> tree_error e | Inr _ \<Rightarrow> True)"

lemma no_tree_error_simps [simp]: "no_tree_error (Inr x)" "no_tree_error (Inl e) \<longleftrightarrow> \<not> tree_error e"
  by (simp_all add: no_tree_error_def)

definition quiet ::
  "(service_error + 'a) \<times> ('e, 'c, 'm, 'i) service_state \<Rightarrow> ('e, 'c, 'm, 'i) service_state \<Rightarrow> bool"
where
  "quiet m s \<longleftrightarrow> sv_cache (snd m) = sv_cache s \<and> no_tree_error (fst m)"

lemma quietI [intro]: "sv_cache s' = sv_cache s \<Longrightarrow> no_tree_error r \<Longrightarrow> quiet (r, s') s"
  by (simp add: quiet_def)

lemma quiet_sbind [intro]:
  assumes "quiet m s" and "\<And>x s'. m = (Inr x, s') \<Longrightarrow> sv_cache s' = sv_cache s \<Longrightarrow> quiet (f x s') s"
  shows "quiet (sbind m f) s"
  using assms by (cases m; cases "fst m") (auto simp: quiet_def)

lemma quiet_send_epoch_events: "sv_cache s' = sv_cache s \<Longrightarrow> quiet (send_epoch_events ops b s') s"
  by (auto simp: send_epoch_events_def quiet_def Let_def split: option.splits)

lemma quiet_persist: "sv_cache s' = sv_cache s \<Longrightarrow> quiet (persist_tip_metadata cfg old new s') s"
  by (auto simp: persist_tip_metadata_def quiet_def split: sum.splits)

lemma quiet_emit_fcu: "sv_cache s' = sv_cache s \<Longrightarrow> quiet (emit_fcu m s') s"
  by (auto simp: emit_fcu_def quiet_def)

lemma quiet_migrate_block: "sv_cache s' = sv_cache s \<Longrightarrow> quiet (migrate_block cfg b s') s"
  by (auto simp: migrate_block_def quiet_def map_error_def split: prod.splits sum.splits)

lemma fold_send [simp]:
  "sv_cache (fold (\<lambda>x. send (f x)) xs s) = sv_cache s"
  "sv_migration (fold (\<lambda>x. send (f x)) xs s) = sv_migration s"
  by (induction xs arbitrary: s) simp_all

lemmas quiet_steps = quiet_send_epoch_events quiet_persist quiet_emit_fcu quiet_migrate_block

lemma quiet_publish: "quiet (publish_tip_move ops cfg mv s) s"
  unfolding publish_tip_move_def Let_def
  by (intro quiet_sbind quiet_steps) (auto split: option.splits intro: quiet_steps)

lemma quiet_describe: "quiet (describe_tip_move cfg nt m sp s) s"
  by (auto simp: describe_tip_move_def quiet_def Let_def split: prod.splits sum.splits)

section \<open>The gate of the longest chain\<close>

definition attached :: "nat \<Rightarrow> ('b, 'e, 'c, 'm) block_tree \<Rightarrow> h256 \<Rightarrow> bool" where
  "attached n t h \<longleftrightarrow>
     (\<exists>x xe. banc (blocks t) x h \<and> x \<noteq> h \<and> map_of (blocks t) x = Some xe \<and>
        (bm_chain_state xe = Validated ValidBlock \<or> bm_chain_state xe = Onchain) \<and>
        bht (blocks t) h \<le> bht (blocks t) x + n)"

lemma attached_0:
  assumes wf: "bs_wf (blocks t)"
  shows "\<not> attached 0 t h"
proof
  assume "attached 0 t h"
  then obtain x where x: "banc (blocks t) x h" "x \<noteq> h" "bht (blocks t) h \<le> bht (blocks t) x"
    unfolding attached_def by auto
  then show False using banc_ht [OF wf x(1)] banc_eq [OF wf x(1)] by simp
qed

lemma attached_orphan:
  assumes h: "map_of (blocks t) h = Some e" and p: "map_of (blocks t) (parent_of e) = None"
  shows "\<not> attached n t h"
proof
  assume "attached n t h"
  then obtain x where "banc (blocks t) x h" "x \<noteq> h" unfolding attached_def by blast
  then have "banc (blocks t) x (parent_of e)" using banc_proper [OF h] by blast
  then show False using anc_nodes(2) p by fastforce
qed

lemma attached_Suc:
  assumes wf: "bs_wf (blocks t)" and h: "map_of (blocks t) h = Some e"
    and p: "map_of (blocks t) (parent_of e) = Some pe"
  shows "attached (Suc n) t h \<longleftrightarrow>
    bm_chain_state pe = Validated ValidBlock \<or> bm_chain_state pe = Onchain \<or> attached n t (parent_of e)"
proof -
  let ?bs = "blocks t"
  note ht = bs_wf_parent_ht [OF wf h p] and par = banc_parent [OF h p]
  have ne: "parent_of e \<noteq> h" using ht by auto
  show ?thesis
  proof
    assume "attached (Suc n) t h"
    then obtain x xe where x: "banc ?bs x h" "x \<noteq> h" "map_of ?bs x = Some xe"
      "bm_chain_state xe = Validated ValidBlock \<or> bm_chain_state xe = Onchain" "bht ?bs h \<le> bht ?bs x + Suc n"
      unfolding attached_def by blast
    have "banc ?bs x (parent_of e)" by (rule banc_proper [OF h x(1,2)])
    then show "bm_chain_state pe = Validated ValidBlock \<or> bm_chain_state pe = Onchain \<or> attached n t (parent_of e)"
      using x p ht unfolding attached_def by (cases "x = parent_of e") auto
  next
    assume "bm_chain_state pe = Validated ValidBlock \<or> bm_chain_state pe = Onchain \<or> attached n t (parent_of e)"
    then consider (p) "bm_chain_state pe = Validated ValidBlock \<or> bm_chain_state pe = Onchain"
      | (up) "attached n t (parent_of e)" by blast
    then show "attached (Suc n) t h"
    proof cases
      case p
      then show ?thesis unfolding attached_def using par ne assms(3) ht by (intro exI [of _ "parent_of e"]) auto
    next
      case up
      then obtain x xe where x: "banc ?bs x (parent_of e)" "map_of ?bs x = Some xe"
        "bm_chain_state xe = Validated ValidBlock \<or> bm_chain_state xe = Onchain"
        "bht ?bs (parent_of e) \<le> bht ?bs x + n"
        unfolding attached_def by blast
      have "banc ?bs x h" using banc_trans [OF x(1) par] .
      moreover have "x \<noteq> h" using not_banc_parent [OF wf h] x(1) by blast
      ultimately show ?thesis unfolding attached_def using x ht by (intro exI [of _ x] exI [of _ xe]) simp
    qed
  qed
qed

lemma get_earliest_iff:
  assumes inv: "tree_inv t"
  shows "map_of (blocks t) h = Some e \<Longrightarrow>
    \<exists>r. get_earliest_not_onchain n t e = Inr r \<and> (r \<noteq> None \<longleftrightarrow> attached n t h)"
proof (induction n arbitrary: h e)
  case 0
  then show ?case using attached_0 [OF tree_invD(1) [OF inv]] by simp
next
  case (Suc n)
  note wf = tree_invD(1) [OF inv]
  show ?case
  proof (cases "map_of (blocks t) (parent_of e)")
    case None
    then show ?thesis using attached_orphan [OF Suc.prems None] by simp
  next
    case (Some pe)
    have h0: "height_of e \<noteq> 0" using bs_wf_parent [OF wf Suc.prems Some] by simp
    have "parent_of e \<in> bdom (blocks t)" using Some by blast
    from get_fork_blocks_ok [OF inv this] obtain fs where fs: "get_fork_blocks (parent_of e) t = Inr fs" by blast
    show ?thesis
      using Suc.IH [OF Some] attached_Suc [OF wf Suc.prems Some] fs h0 Some by auto
  qed
qed

lemma gate_iff:
  assumes inv: "tree_inv t" and te: "map_of (blocks t) (tip t) = Some te"
  shows "\<exists>r. get_earliest_not_onchain_in_longest_chain t = Inr r \<and>
    (r \<noteq> None \<longleftrightarrow> diff_of te < fst (max_cumulative_difficulty t) \<and>
       attached (block_tree_depth t) t (snd (max_cumulative_difficulty t)))"
proof -
  note wf = tree_invD(1) [OF inv]
  obtain e where e: "map_of (blocks t) (snd (max_cumulative_difficulty t)) = Some e"
    "diff_of e = fst (max_cumulative_difficulty t)"
    using tree_invD(4) [OF inv] unfolding max_inv_def by blast
  show ?thesis
  proof (cases "diff_of te < fst (max_cumulative_difficulty t)")
    case True
    have "\<not> banc (blocks t) (snd (max_cumulative_difficulty t)) (tip t)"
      using banc_diff [OF wf _ e(1) te] e(2) True by auto
    then have "bm_chain_state e \<noteq> Onchain"
      using chain_inv_onchain [OF tree_invD(2) [OF inv]] onchain_entry [OF e(1)] by blast
    then have "get_earliest_not_onchain_in_longest_chain t = get_earliest_not_onchain (block_tree_depth t) t e"
      using True te e(1) by (simp add: get_earliest_not_onchain_in_longest_chain_def not_le [symmetric])
    then show ?thesis
      using get_earliest_iff [OF inv e(1), of "block_tree_depth t"] True by simp
  next
    case False
    then have "fst (max_cumulative_difficulty t) \<le> diff_of te" by (simp only: not_less)
    then show ?thesis using te False by (simp add: get_earliest_not_onchain_in_longest_chain_def)
  qed
qed

section \<open>Every message keeps the invariant\<close>

definition parents_valid :: "('b, 'e, 'c, 'm) block_tree \<Rightarrow> h256 \<Rightarrow> bool" where
  "parents_valid t h \<longleftrightarrow> (\<forall>y. banc (blocks t) y h \<longrightarrow> y \<noteq> h \<longrightarrow> ready (blocks t) y)"

text \<open>
  What the service relies on: a pre-validated block that is new and has its parent in the tree
  extends it, and the validation service reports \<open>Valid\<close> for a block only after it has waited for the
  block's parent.
\<close>

definition admissible :: "request \<Rightarrow> ('e, 'c, 'm, 'i) service_state \<Rightarrow> bool" where
  "admissible req s =
     (case req of
        BlockPreValidated _ block _ \<Rightarrow>
          hash_of block \<in> bdom (blocks (sv_cache s)) \<or>
          bh_previous_block_hash (sb_header block) \<notin> bdom (blocks (sv_cache s)) \<or>
          extends (blocks (sv_cache s)) (sb_header block)
      | BlockValidationFinished h Valid \<Rightarrow> parents_valid (sv_cache s) h
      | _ \<Rightarrow> True)"

lemma add_block_frame:
  assumes "tree_inv t" and "extends (blocks t) (sb_header b)"
  shows "\<exists>t'. add_block now b cs es ms t = (Inr (), t') \<and> tree_inv t' \<and>
    block_tree_depth t' = block_tree_depth t \<and> tip t' = tip t \<and>
    grown (blocks t) (new_entry now b cs es ms (next_insertion_sequence t)) (blocks t')"
proof -
  obtain t' where t': "add_block now b cs es ms t = (Inr (), t')" "tree_inv t'" "tip t' = tip t"
    "grown (blocks t) (new_entry now b cs es ms (next_insertion_sequence t)) (blocks t')"
    using add_block_inv [OF assms] by blast
  moreover have "block_tree_depth t' = block_tree_depth t"
    using add_block_grown [OF tree_invD(1) [OF assms(1)] assms(2), of now cs es ms] t'(1) by auto
  ultimately show ?thesis by blast
qed

lemma scheduled_frame:
  assumes "tree_inv t" and "valid_closed (blocks t)"
  shows "tree_inv (mark_block_as_validation_scheduled h t)"
    and "valid_closed (blocks (mark_block_as_validation_scheduled h t))"
    and "block_tree_depth (mark_block_as_validation_scheduled h t) = block_tree_depth t"
    and "tip (mark_block_as_validation_scheduled h t) = tip t"
proof -
  show "tree_inv (mark_block_as_validation_scheduled h t)"
    by (rule mark_block_as_validation_scheduled_inv [OF assms(1)])
  have "valid_closed (set_state h st (blocks t))"
    if "map_of (blocks t) h = Some e" "\<not> is_parent_ready st" "\<not> is_parent_ready (bm_chain_state e)" for e st
  proof (rule valid_closed_restate [OF restate_set_state _ assms(2)])
    show "ready (set_state h st (blocks t)) x \<longleftrightarrow> ready (blocks t) x" for x
      using ready_set_state [OF that(1)] that by (auto simp: ready_def)
  qed
  then show "valid_closed (blocks (mark_block_as_validation_scheduled h t))"
    using assms(2) by (auto simp: mark_block_as_validation_scheduled_def is_parent_ready_def split: option.splits)
qed (auto simp: mark_block_as_validation_scheduled_def split: option.splits)

lemma on_block_prevalidated_inv:
  assumes inv: "service_inv cfg s" and adm: "admissible (BlockPreValidated now b skip) s"
  shows "service_inv cfg (snd (on_block_prevalidated ops now b skip s))"
proof -
  let ?t = "sv_cache s"
  note I = service_invD [OF inv]
  have new: "service_inv cfg (s\<lparr>sv_cache := mark_block_as_validation_scheduled h t'\<rparr>)"
    if g: "add_block now b cs es ms ?t = (Inr u, t')" and ext: "extends (blocks ?t) (sb_header b)" for h t' u cs es ms
  proof -
    obtain t'' where t'': "add_block now b cs es ms ?t = (Inr (), t'')" "tree_inv t''"
      "block_tree_depth t'' = block_tree_depth ?t"
      "grown (blocks ?t) (new_entry now b cs es ms (next_insertion_sequence ?t)) (blocks t'')"
      using add_block_frame [OF I(1) ext] by blast
    then have "t'' = t'" using g by simp
    moreover have "valid_closed (blocks t'')"
      by (rule valid_closed_grown [OF t''(4) _ I(2)]) (simp add: new_entry_def is_parent_ready_def)
    ultimately show ?thesis
      using t'' scheduled_frame [of t''] I(3) by (simp add: service_inv_def)
  qed
  show ?thesis
  proof (cases "get_block (hash_of b) ?t \<noteq> None \<or> bh_previous_block_hash (sb_header b) \<notin> bdom (blocks ?t)")
    case True
    then show ?thesis using inv by (auto simp: on_block_prevalidated_def Let_def domIff)
  next
    case False
    then have ext: "extends (blocks ?t) (sb_header b)"
      using adm by (auto simp: admissible_def get_block_None domIff)
    have noerr: "add_block now b cs es ms ?t \<noteq> (Inl e, t')" for cs es ms e t'
      using add_block_frame [OF I(1) ext, of now cs es ms] by auto
    show ?thesis
      using False inv noerr new [OF _ ext]
      by (auto simp: on_block_prevalidated_def Let_def split: option.splits sum.splits prod.splits)
  qed
qed

definition keeps_inv ::
  "migration_config \<Rightarrow> (service_error + 'a) \<times> ('e, 'c, 'm, 'i) service_state \<Rightarrow> bool"
where
  "keeps_inv cfg m \<longleftrightarrow> service_inv cfg (snd m) \<and> no_tree_error (fst m)"

lemma keeps_invI: "service_inv cfg s \<Longrightarrow> no_tree_error r \<Longrightarrow> keeps_inv cfg (r, s)"
  by (simp add: keeps_inv_def)

lemma keeps_inv_quiet: "service_inv cfg s \<Longrightarrow> quiet m s \<Longrightarrow> keeps_inv cfg m"
  by (auto simp: keeps_inv_def quiet_def service_inv_def)

lemma keeps_inv_sbind:
  assumes "keeps_inv cfg m" and "\<And>x s'. m = (Inr x, s') \<Longrightarrow> service_inv cfg s' \<Longrightarrow> keeps_inv cfg (f x s')"
  shows "keeps_inv cfg (sbind m f)"
  using assms by (cases m; cases "fst m") (auto simp: keeps_inv_def)

lemma retipped_inv: "service_inv cfg s \<Longrightarrow> retipped (sv_cache s) h t1 \<Longrightarrow> service_inv cfg (s\<lparr>sv_cache := t1\<rparr>)"
  by (simp add: service_inv_def retipped_def)

lemma pruned_inv:
  "service_inv cfg s \<Longrightarrow> retipped (sv_cache s) h t1 \<Longrightarrow> pruned d t1 t2 \<Longrightarrow> service_inv cfg (s\<lparr>sv_cache := t2\<rparr>)"
  by (simp add: service_inv_def retipped_def pruned_def)

lemma move_result_cache:
  assumes "retipped (sv_cache s) h t1" and "pruned d t1 t2"
  shows "no_tree_error (fst (move_result cfg h l t1 t2 s))"
    and "sv_cache (snd (move_result cfg h l t1 t2 s)) = t1 \<and> fst (move_result cfg h l t1 t2 s) \<noteq> Inr x \<or>
      sv_cache (snd (move_result cfg h l t1 t2 s)) = t2"
  using quiet_describe [of cfg _ _ _ "s\<lparr>sv_cache := t2\<rparr>"]
  by (auto simp: move_result_def quiet_def split: sum.splits)

lemma try_move_keeps_inv:
  assumes inv: "service_inv cfg s" and h: "all_valid (blocks (sv_cache s)) h" "h \<in> bdom (blocks (sv_cache s))"
  shows "keeps_inv cfg (try_move_tip_to cfg h s)"
proof (cases "heavier (sv_cache s) h")
  case False
  then show ?thesis using try_move_stays [OF inv h(2)] inv by (simp add: keeps_inv_def)
next
  case True
  have ok: "keeps_inv cfg (move_result cfg h l t1 t2 s)"
    if "retipped (sv_cache s) h t1" "pruned (mc_block_tree_depth cfg - 1) t1 t2" for l t1 t2
    using move_result_cache(1) [OF that, of cfg l] move_result_cache(2) [OF that, of cfg l None] retipped_inv [OF inv that(1)] pruned_inv [OF inv that]
    by (auto simp: keeps_inv_def service_inv_def)
  from try_move_cases [OF inv h(1) True] show ?thesis
    using ok inv by (auto simp: keeps_inv_def split: if_splits)
qed

lemma tip_entry: "service_inv cfg s \<Longrightarrow> \<exists>te. map_of (blocks (sv_cache s)) (tip (sv_cache s)) = Some te"
  using chain_inv_tip tree_invD(2) service_invD(1) by blast

lemma max_entry: "tree_inv t \<Longrightarrow> snd (max_cumulative_difficulty t) \<in> bdom (blocks t)"
  using tree_invD(4) [of t] unfolding max_inv_def by blast

lemma validated_head_max:
  assumes inv: "tree_inv t" and "get_max_chain_validated_head t = Inr (Some (snd (max_cumulative_difficulty t)))"
  shows "all_valid (blocks t) (snd (max_cumulative_difficulty t))"
  using get_max_chain_validated_head_ok [OF inv] assms(2) by auto

lemma move_tip_after_discard_inv:
  assumes inv: "service_inv cfg s"
  shows "keeps_inv cfg (move_tip_after_discard ops cfg s)"
proof -
  let ?t = "sv_cache s"
  note I = service_invD(1) [OF inv]
  obtain te where te: "map_of (blocks ?t) (tip ?t) = Some te" using tip_entry [OF inv] by blast
  obtain r where r: "get_earliest_not_onchain_in_longest_chain ?t = Inr r" using gate_iff [OF I te] by blast
  obtain v where v: "get_max_chain_validated_head ?t = Inr v" using get_max_chain_validated_head_ok [OF I] by blast
  have "keeps_inv cfg (try_move_tip_to cfg (snd (max_cumulative_difficulty ?t)) s)"
    if "v = Some (snd (max_cumulative_difficulty ?t))"
    using try_move_keeps_inv [OF inv validated_head_max [OF I] max_entry [OF I]] v that by blast
  then show ?thesis
    using inv r v
    by (auto simp: move_tip_after_discard_def Let_def intro!: keeps_invI keeps_inv_sbind keeps_inv_quiet
        [OF _ quiet_publish] split: option.splits)
qed

lemma discard_inv:
  assumes inv: "service_inv cfg s"
  shows "keeps_inv cfg (discard_and_broadcast h r kind s)"
proof (cases "map_of (blocks (sv_cache s)) h")
  case None
  then show ?thesis
    using inv by (auto simp: discard_and_broadcast_def Let_def get_block_def intro!: keeps_invI)
next
  case (Some e)
  note I = service_invD [OF inv]
  show ?thesis
  proof (cases "bm_chain_state e = Onchain")
    case True
    then have "remove_block h (sv_cache s) = (Inl (CannotRemoveOnchain h), sv_cache s)"
      using Some by (simp add: remove_block_def)
    then show ?thesis
      using inv Some True
      by (auto simp: discard_and_broadcast_def Let_def get_block_def get_block_and_status_def block_state_def
          intro!: keeps_invI)
  next
    case False
    obtain t' where t': "remove_block h (sv_cache s) = (Inr (), t')" "tree_inv t'"
      "removed (subtrees (blocks (sv_cache s)) {h}) (blocks (sv_cache s)) (blocks t')" "same_frame (sv_cache s) t'"
      using remove_block_ok [OF I(1) Some False] by blast
    have "service_inv cfg (s\<lparr>sv_cache := t'\<rparr>)"
      using t' valid_closed_removed [OF tree_invD(1) [OF I(1)] t'(3) I(2)] I(3)
      by (simp add: service_inv_def same_frame_def)
    then show ?thesis
      using t'(1) inv by (auto simp: discard_and_broadcast_def Let_def intro!: keeps_invI)
  qed
qed

lemma marked_valid_cases:
  assumes inv: "tree_inv t" and vc: "valid_closed (blocks t)" and pv: "parents_valid t h"
  shows "(\<exists>e. mark_block_as_valid h t = (Inl e, t)) \<or>
    (\<exists>t'. mark_block_as_valid h t = (Inr (), t') \<and> tree_inv t' \<and> valid_closed (blocks t') \<and>
       restate (blocks t) (blocks t') \<and> ready (blocks t') h \<and> tip t' = tip t \<and>
       block_tree_depth t' = block_tree_depth t)"
proof (cases "map_of (blocks t) h")
  case None
  then show ?thesis by (simp add: mark_block_as_valid_def)
next
  case (Some e)
  let ?t = "\<lambda>st. update_longest_chain_cache (t\<lparr>blocks := set_state h st (blocks t)\<rparr>)"
  have "valid_closed (set_state h st (blocks t))" if st: "is_parent_ready st" for st
  proof (rule valid_closedI)
    fix x y
    assume x: "ready (set_state h st (blocks t)) x" and y: "banc (set_state h st (blocks t)) y x"
    have y': "banc (blocks t) y x" using y restate_banc [OF restate_set_state] by metis
    show "ready (set_state h st (blocks t)) y"
    proof (cases "x = h")
      case True
      then show ?thesis using pv y' st ready_set_state [OF Some, of st] by (auto simp: parents_valid_def)
    next
      case False
      then have "ready (blocks t) x" using x ready_set_state [OF Some] by simp
      then show ?thesis using valid_closedD [OF vc _ y'] st ready_set_state [OF Some, of st] by auto
    qed
  qed
  moreover have "tree_inv (?t st)" if "mark_block_as_valid h t = (Inr (), ?t st)" for st
    using mark_block_as_valid_inv [OF inv, of h] that by simp
  ultimately have good: "tree_inv t' \<and> valid_closed (blocks t') \<and>
       restate (blocks t) (blocks t') \<and> ready (blocks t') h \<and> tip t' = tip t \<and>
       block_tree_depth t' = block_tree_depth t"
    if "t' = ?t st" "is_parent_ready st" "mark_block_as_valid h t = (Inr (), t')" for t' st
    using that ready_set_state [OF Some, of st h] by simp
  show ?thesis
    using Some good [of _ "NotOnchain ValidBlock"] good [of _ "Validated ValidBlock"]
    by (auto simp: mark_block_as_valid_def is_parent_ready_def split: chain_state.splits block_state.splits)
qed

lemma on_valid_block_inv:
  assumes inv: "service_inv cfg s" and pv: "parents_valid (sv_cache s) h"
  shows "keeps_inv cfg (on_valid_block ops cfg h s)"
proof (cases "map_of (blocks (sv_cache s)) h")
  case None
  then show ?thesis using inv by (auto simp: on_valid_block_def get_block_def intro!: keeps_invI)
next
  case (Some e)
  note I = service_invD [OF inv]
  obtain te where te: "map_of (blocks (sv_cache s)) (tip (sv_cache s)) = Some te" using tip_entry [OF inv] by blast
  from marked_valid_cases [OF I(1,2) pv] show ?thesis
  proof (elim disjE exE conjE)
    fix er assume "mark_block_as_valid h (sv_cache s) = (Inl er, sv_cache s)"
    then show ?thesis
      using inv Some te by (auto simp: on_valid_block_def get_block_def Let_def intro!: keeps_invI)
  next
    fix t' assume t': "mark_block_as_valid h (sv_cache s) = (Inr (), t')" "tree_inv t'" "valid_closed (blocks t')"
      "restate (blocks (sv_cache s)) (blocks t')" "ready (blocks t') h" "tip t' = tip (sv_cache s)"
      "block_tree_depth t' = block_tree_depth (sv_cache s)"
    let ?s = "s\<lparr>sv_cache := t'\<rparr>"
    have inv': "service_inv cfg ?s" using t' I(3) by (simp add: service_inv_def)
    obtain te' where te': "map_of (blocks t') (tip t') = Some te'" using tip_entry [OF inv'] by auto
    obtain r where r: "get_earliest_not_onchain_in_longest_chain t' = Inr r" using gate_iff [OF t'(2) te'] by blast
    have "all_valid (blocks t') h" using t'(3,5) by (simp add: valid_closed_def)
    moreover have "h \<in> bdom (blocks t')" using t'(5) by (auto simp: ready_def)
    ultimately have "keeps_inv cfg (try_move_tip_to cfg h ?s)" using try_move_keeps_inv [OF inv'] by simp
    then show ?thesis
      using Some te t'(1) r inv'
      by (auto simp: on_valid_block_def get_block_def Let_def intro!: keeps_invI keeps_inv_sbind
          keeps_inv_quiet [OF _ quiet_publish] keeps_inv_quiet [OF _ quiet_persist] split: option.splits)
  qed
qed

lemma on_block_validation_finished_inv:
  assumes "service_inv cfg s" and "admissible (BlockValidationFinished h r) s"
  shows "keeps_inv cfg (on_block_validation_finished ops cfg h r s)"
  using assms on_valid_block_inv [OF assms(1)]
  by (cases r) (auto simp: on_block_validation_finished_def admissible_def
      intro!: keeps_inv_sbind discard_inv move_tip_after_discard_inv keeps_invI)

section \<open>Where the tip ends up\<close>

text \<open>
  A move is within the window of the tree when the fork point is less than the depth of the tree
  below the block.
\<close>

definition in_window :: "('b, 'e, 'c, 'm) block_tree \<Rightarrow> h256 \<Rightarrow> bool" where
  "in_window t h \<longleftrightarrow> (\<exists>l. fork_point t l h \<and> bht (blocks t) h \<le> bht (blocks t) l + (block_tree_depth t - 1))"

lemma fork_point_unique:
  assumes wf: "bs_wf (blocks t)" and "fork_point t l h" and "fork_point t l' h"
  shows "l = l'"
  using assms unfolding fork_point_def by (meson banc_antisym)

lemma in_window_attached:
  assumes inv: "tree_inv t" and w: "in_window t h" and off: "\<not> banc (blocks t) h (tip t)"
  shows "attached (block_tree_depth t) t h"
proof -
  obtain l where l: "fork_point t l h" "bht (blocks t) h \<le> bht (blocks t) l + (block_tree_depth t - 1)"
    using w unfolding in_window_def by blast
  have b: "banc (blocks t) l h" "banc (blocks t) l (tip t)" using l(1) by (simp_all add: fork_point_def)
  then obtain le where "map_of (blocks t) l = Some le" "bm_chain_state le = Onchain"
    using chain_inv_onchain [OF tree_invD(2) [OF inv]] unfolding onchain_def by blast
  moreover have "l \<noteq> h" using off b(2) by blast
  ultimately show ?thesis unfolding attached_def using b(1) l(2) by (intro exI [of _ l] exI [of _ le]) auto
qed

lemma try_move_tip:
  assumes inv: "service_inv cfg s" and h: "all_valid (blocks (sv_cache s)) h" "heavier (sv_cache s) h"
    and w: "in_window (sv_cache s) h"
  shows "tip (sv_cache (snd (try_move_tip_to cfg h s))) = h"
proof -
  let ?t = "sv_cache s"
  note I = service_invD [OF inv]
  obtain l where l: "fork_point ?t l h" "bht (blocks ?t) h \<le> bht (blocks ?t) l + (block_tree_depth ?t - 1)"
    using w unfolding in_window_def by blast
  obtain l' where l': "fork_point ?t l' h"
    "if bht (blocks ?t) l' < window_floor cfg ?t h
     then try_move_tip_to cfg h s = (Inl (OutsideCacheWindow (bht (blocks ?t) l') (window_floor cfg ?t h)), s)
     else \<exists>t1 t2. retipped ?t h t1 \<and> pruned (mc_block_tree_depth cfg - 1) t1 t2 \<and>
       try_move_tip_to cfg h s = move_result cfg h l' t1 t2 s"
    using try_move_cases [OF inv h] by blast
  have "l' = l" using fork_point_unique [OF tree_invD(1) [OF I(1)] l'(1) l(1)] .
  then have "\<not> bht (blocks ?t) l' < window_floor cfg ?t h"
    using l(2) I(3) by (auto simp: window_floor_def)
  then obtain t1 t2 where m: "retipped ?t h t1" "pruned (mc_block_tree_depth cfg - 1) t1 t2"
    "try_move_tip_to cfg h s = move_result cfg h l' t1 t2 s"
    using l'(2) by auto
  then show ?thesis
    using move_result_cache(2) [OF m(1,2), of cfg l' None] by (auto simp: retipped_def pruned_def)
qed

lemma quiet_cache: "quiet m s \<Longrightarrow> sv_cache (snd m) = sv_cache s"
  by (simp add: quiet_def)

lemma sbind_quiet_cache:
  assumes "\<And>x s'. m = (Inr x, s') \<Longrightarrow> sv_cache (snd (f x s')) = sv_cache s'"
  shows "sv_cache (snd (sbind m f)) = sv_cache (snd m)"
  using assms by (cases m; cases "fst m") auto

lemma heavier_gate:
  assumes inv: "service_inv cfg s" and hv: "heavier (sv_cache s) h"
    and w: "in_window (sv_cache s) (snd (max_cumulative_difficulty (sv_cache s)))"
  shows "\<exists>r. get_earliest_not_onchain_in_longest_chain (sv_cache s) = Inr (Some r)"
proof -
  let ?t = "sv_cache s"
  note I = service_invD(1) [OF inv]
  obtain he te where e: "map_of (blocks ?t) h = Some he" "map_of (blocks ?t) (tip ?t) = Some te" "diff_of te < diff_of he"
    using hv unfolding heavier_def by blast
  obtain me where me: "map_of (blocks ?t) (snd (max_cumulative_difficulty ?t)) = Some me"
    "diff_of me = fst (max_cumulative_difficulty ?t)" "diff_of he \<le> fst (max_cumulative_difficulty ?t)"
    using tree_invD(4) [OF I] e(1) unfolding max_inv_def by (metis order.strict_implies_order order_refl)
  have lt: "diff_of te < fst (max_cumulative_difficulty ?t)" using e(3) me(3) by (rule less_le_trans)
  have "\<not> banc (blocks ?t) (snd (max_cumulative_difficulty ?t)) (tip ?t)"
    using banc_diff [OF tree_invD(1) [OF I] _ me(1) e(2)] me(2) lt by auto
  then have "attached (block_tree_depth ?t) ?t (snd (max_cumulative_difficulty ?t))"
    using in_window_attached [OF I w] by blast
  then show ?thesis using gate_iff [OF I e(2)] lt by auto
qed

lemma move_tip_after_discard_tip:
  assumes inv: "service_inv cfg s"
    and v: "all_valid (blocks (sv_cache s)) (snd (max_cumulative_difficulty (sv_cache s)))"
    and hv: "heavier (sv_cache s) (snd (max_cumulative_difficulty (sv_cache s)))"
    and w: "in_window (sv_cache s) (snd (max_cumulative_difficulty (sv_cache s)))"
  shows "tip (sv_cache (snd (move_tip_after_discard ops cfg s))) = snd (max_cumulative_difficulty (sv_cache s))"
proof -
  let ?t = "sv_cache s" and ?m = "snd (max_cumulative_difficulty (sv_cache s))"
  note I = service_invD(1) [OF inv]
  obtain r where r: "get_earliest_not_onchain_in_longest_chain ?t = Inr (Some r)"
    using heavier_gate [OF inv hv w] by blast
  obtain x where x: "get_max_chain_validated_head ?t = Inr (Some x)" "banc (blocks ?t) x ?m"
    "\<forall>h'. all_valid (blocks ?t) h' \<longrightarrow> banc (blocks ?t) h' ?m \<longrightarrow> banc (blocks ?t) h' x"
    using get_max_chain_validated_head_ok [OF I] by blast
  have "banc (blocks ?t) ?m ?m" by (rule anc_refl [OF max_entry [OF I]])
  then have "x = ?m" using x(2,3) v banc_antisym [OF tree_invD(1) [OF I]] by blast
  then have run: "move_tip_after_discard ops cfg s = sbind (try_move_tip_to cfg ?m s) (\<lambda>mv s.
        case mv of
          None \<Rightarrow> (Inr (), s)
        | Some mv \<Rightarrow>
            sbind (publish_tip_move ops cfg mv s) (\<lambda>_ s.
            (Inr (), send (state_updated (bh_block_hash (tm_new_tip mv)) (bh_height (tm_new_tip mv))
                             Onchain False Valid) s)))"
    using r x(1) by (simp add: move_tip_after_discard_def Let_def)
  have "sv_cache (snd (move_tip_after_discard ops cfg s)) = sv_cache (snd (try_move_tip_to cfg ?m s))"
    unfolding run
    by (rule sbind_quiet_cache) (auto simp: sbind_quiet_cache quiet_cache [OF quiet_publish] split: option.splits)
  then show ?thesis using try_move_tip [OF inv v hv w] by simp
qed

definition max_tip :: "('b, 'e, 'c, 'm) block_tree \<Rightarrow> bool" where
  "max_tip t \<longleftrightarrow> map_option diff_of (map_of (blocks t) (tip t)) = Some (fst (max_cumulative_difficulty t))"

lemma not_max_tip:
  assumes inv: "tree_inv t" and no: "\<not> max_tip t"
  shows "heavier t (snd (max_cumulative_difficulty t))"
proof -
  obtain te where te: "map_of (blocks t) (tip t) = Some te" using chain_inv_tip [OF tree_invD(2) [OF inv]] by blast
  obtain me where me: "map_of (blocks t) (snd (max_cumulative_difficulty t)) = Some me"
    "diff_of me = fst (max_cumulative_difficulty t)"
    "diff_of te < fst (max_cumulative_difficulty t) \<or> diff_of te = fst (max_cumulative_difficulty t)"
    using tree_invD(4) [OF inv] te unfolding max_inv_def by blast
  then have "diff_of te < diff_of me" using no te by (simp add: max_tip_def)
  then show ?thesis using te me by (auto simp: heavier_def)
qed

text \<open>The blocks of a pruned tree are blocks of the tree before, so a tip of highest difficulty stays one.\<close>

lemma moved_max_tip:
  assumes inv: "tree_inv t" and m: "h = snd (max_cumulative_difficulty t)" and inv': "tree_inv t'" "tip t' = h"
    and sub: "\<And>x e'. map_of (blocks t') x = Some e' \<Longrightarrow> \<exists>e. map_of (blocks t) x = Some e \<and> diff_of e = diff_of e'"
  shows "max_tip t'"
proof -
  obtain te where te: "map_of (blocks t') h = Some te"
    using chain_inv_tip [OF tree_invD(2) [OF inv'(1)]] inv'(2) by blast
  obtain me where me: "map_of (blocks t') (snd (max_cumulative_difficulty t')) = Some me"
    "diff_of me = fst (max_cumulative_difficulty t')"
    "diff_of te < fst (max_cumulative_difficulty t') \<or> diff_of te = fst (max_cumulative_difficulty t')"
    using tree_invD(4) [OF inv'(1)] te unfolding max_inv_def by blast
  obtain e0 m0 where o: "map_of (blocks t) h = Some e0" "diff_of e0 = diff_of te"
    "map_of (blocks t) (snd (max_cumulative_difficulty t')) = Some m0" "diff_of m0 = diff_of me"
    using sub te me(1) by metis
  have "diff_of m0 \<le> diff_of e0"
    using tree_invD(4) [OF inv] o(1,3) unfolding max_inv_def m [symmetric] by fastforce
  then have "diff_of te = fst (max_cumulative_difficulty t')" using me(2,3) o(2,4) by auto
  then show ?thesis using te inv'(2) by (simp add: max_tip_def)
qed

lemma restate_diff:
  "restate bs r \<Longrightarrow> map_of r x = Some e' \<Longrightarrow> \<exists>e. map_of bs x = Some e \<and> diff_of e = diff_of e'"
  using restate_lookup by metis

lemma pruned_diff:
  "pruned d t1 t2 \<Longrightarrow> map_of (blocks t2) x = Some e' \<Longrightarrow> \<exists>e. map_of (blocks t1) x = Some e \<and> diff_of e = diff_of e'"
  unfolding pruned_def by (auto simp: removed_Some)

lemma try_move_shape:
  assumes inv: "service_inv cfg s" and h: "all_valid (blocks (sv_cache s)) h" "h \<in> bdom (blocks (sv_cache s))"
  shows "sv_cache (snd (try_move_tip_to cfg h s)) = sv_cache s \<or>
    tip (sv_cache (snd (try_move_tip_to cfg h s))) = h \<and>
    (\<forall>x e'. map_of (blocks (sv_cache (snd (try_move_tip_to cfg h s)))) x = Some e' \<longrightarrow>
       (\<exists>e. map_of (blocks (sv_cache s)) x = Some e \<and> diff_of e = diff_of e'))"
proof (cases "heavier (sv_cache s) h")
  case False
  then show ?thesis using try_move_stays [OF inv h(2)] by simp
next
  case True
  have moved: ?thesis
    if r: "retipped (sv_cache s) h t1" and p: "pruned (mc_block_tree_depth cfg - 1) t1 t2"
      and m: "try_move_tip_to cfg h s = move_result cfg h l t1 t2 s" for l t1 t2
  proof -
    have 1: "\<exists>e. map_of (blocks (sv_cache s)) x = Some e \<and> diff_of e = diff_of e'"
      if "map_of (blocks t1) x = Some e'" for x e'
      using r that restate_diff [OF remarked_restate] unfolding retipped_def by blast
    have 2: "\<exists>e. map_of (blocks (sv_cache s)) x = Some e \<and> diff_of e = diff_of e'"
      if "map_of (blocks t2) x = Some e'" for x e'
      using pruned_diff [OF p that] 1 by metis
    have "tip t1 = h" "tip t2 = h" using r p by (simp_all add: retipped_def pruned_def)
    then show ?thesis using move_result_cache(2) [OF r p, of cfg l None] 1 2 m by auto
  qed
  obtain l where l: "if bht (blocks (sv_cache s)) l < window_floor cfg (sv_cache s) h
     then try_move_tip_to cfg h s =
       (Inl (OutsideCacheWindow (bht (blocks (sv_cache s)) l) (window_floor cfg (sv_cache s) h)), s)
     else \<exists>t1 t2. retipped (sv_cache s) h t1 \<and> pruned (mc_block_tree_depth cfg - 1) t1 t2 \<and>
       try_move_tip_to cfg h s = move_result cfg h l t1 t2 s"
    using try_move_cases [OF inv h(1) True] by blast
  show ?thesis
  proof (cases "bht (blocks (sv_cache s)) l < window_floor cfg (sv_cache s) h")
    case True
    then show ?thesis using l by simp
  next
    case False
    then obtain t1 t2 where "retipped (sv_cache s) h t1" "pruned (mc_block_tree_depth cfg - 1) t1 t2"
      "try_move_tip_to cfg h s = move_result cfg h l t1 t2 s" using l by auto
    then show ?thesis by (rule moved)
  qed
qed

lemma move_tip_after_discard_shape:
  assumes inv: "service_inv cfg s"
  shows "sv_cache (snd (move_tip_after_discard ops cfg s)) = sv_cache s \<or>
    max_tip (sv_cache (snd (move_tip_after_discard ops cfg s)))"
proof -
  let ?t = "sv_cache s" and ?m = "snd (max_cumulative_difficulty (sv_cache s))"
  let ?f = "\<lambda>mv s.
        case mv of
          None \<Rightarrow> (Inr (), s)
        | Some mv \<Rightarrow>
            sbind (publish_tip_move ops cfg mv s) (\<lambda>_ s.
            (Inr (), send (state_updated (bh_block_hash (tm_new_tip mv)) (bh_height (tm_new_tip mv))
                             Onchain False Valid) s))"
  note I = service_invD(1) [OF inv]
  obtain x where x: "get_max_chain_validated_head ?t = Inr (Some x)"
    using get_max_chain_validated_head_ok [OF I] by blast
  have cache: "sv_cache (snd (sbind (try_move_tip_to cfg ?m s) ?f)) = sv_cache (snd (try_move_tip_to cfg ?m s))"
    by (rule sbind_quiet_cache) (auto simp: sbind_quiet_cache quiet_cache [OF quiet_publish] split: option.splits)
  have moved: "sv_cache (snd (try_move_tip_to cfg ?m s)) = ?t \<or> max_tip (sv_cache (snd (try_move_tip_to cfg ?m s)))"
    if "x = ?m"
  proof -
    have v: "all_valid (blocks ?t) ?m" using validated_head_max [OF I] x that by simp
    have "tree_inv (sv_cache (snd (try_move_tip_to cfg ?m s)))"
      using try_move_keeps_inv [OF inv v max_entry [OF I]] by (simp add: keeps_inv_def service_inv_def)
    then show ?thesis
      using try_move_shape [OF inv v max_entry [OF I]] moved_max_tip [OF I refl] by blast
  qed
  have "move_tip_after_discard ops cfg s = (case get_earliest_not_onchain_in_longest_chain ?t of
      Inl e \<Rightarrow> (Inl (ServiceTree e), s) | Inr None \<Rightarrow> (Inr (), s)
    | Inr (Some _) \<Rightarrow> if x \<noteq> ?m then (Inr (), s) else sbind (try_move_tip_to cfg ?m s) ?f)"
    using x by (simp add: move_tip_after_discard_def Let_def split: sum.splits option.splits)
  then show ?thesis using cache moved by (auto split: sum.splits option.splits)
qed

lemma discard_then_move_tip:
  assumes inv: "service_inv cfg s" and "max_tip (sv_cache s') \<or> sv_cache s' = sv_cache s"
    and s': "s' = snd (move_tip_after_discard ops cfg s)"
    and v: "all_valid (blocks (sv_cache s')) (snd (max_cumulative_difficulty (sv_cache s')))"
    and w: "in_window (sv_cache s') (snd (max_cumulative_difficulty (sv_cache s')))"
  shows "max_tip (sv_cache s')"
proof (rule ccontr)
  assume no: "\<not> max_tip (sv_cache s')"
  then have eq: "sv_cache s' = sv_cache s" using assms(2) by blast
  note hv = not_max_tip [OF service_invD(1) [OF inv] no [unfolded eq]]
  have "tip (sv_cache s') = snd (max_cumulative_difficulty (sv_cache s))"
    unfolding s' by (rule move_tip_after_discard_tip [OF inv v [unfolded eq] hv w [unfolded eq]])
  then show False
    using hv no by (auto simp: eq heavier_def)
qed

lemma discard_ok:
  assumes inv: "service_inv cfg s" and h: "kind = DiscardSoftInternal \<or> \<not> onchain (blocks (sv_cache s)) h"
  shows "\<exists>s1. discard_and_broadcast h r kind s = (Inr (), s1) \<and> service_inv cfg s1"
proof (cases "map_of (blocks (sv_cache s)) h")
  case None
  then show ?thesis using inv by (auto simp: discard_and_broadcast_def Let_def get_block_def)
next
  case (Some e)
  show ?thesis
  proof (cases "bm_chain_state e = Onchain")
    case True
    then show ?thesis
      using inv Some h by (auto simp: discard_and_broadcast_def Let_def get_block_and_status_def onchain_def)
  next
    case False
    obtain t' where "remove_block h (sv_cache s) = (Inr (), t')"
      using remove_block_ok [OF service_invD(1) [OF inv] Some False] by blast
    then have "\<exists>s1. discard_and_broadcast h r kind s = (Inr (), s1)"
      by (auto simp: discard_and_broadcast_def Let_def)
    then show ?thesis using discard_inv [OF inv, of h r kind] by (auto simp: keeps_inv_def)
  qed
qed

end
