(* ===== verification/Migrated_Chain.thy ===== *)
theory Migrated_Chain
  imports Service_Correct
begin

text \<open>
  The chain of migrated blocks as other components see it, and the refinement of this view by the
  block tree service. The specification is a list of block hashes that one step may cut back by at
  most \<open>tree depth - migration depth\<close> blocks and then extend by blocks that are linked to its end.
\<close>

section \<open>The specification\<close>

fun linked :: "h256 \<Rightarrow> nat \<Rightarrow> irys_block_header list \<Rightarrow> bool" where
  "linked p n [] = True"
| "linked p n (b # bs) =
     (bh_previous_block_hash b = p \<and> bh_height b = n \<and> linked (bh_block_hash b) (Suc n) bs)"

inductive ledger_step :: "nat \<Rightarrow> h256 list \<Rightarrow> h256 list \<Rightarrow> bool" for d where
  ledger_step: "0 < k \<Longrightarrow> k \<le> length xs \<Longrightarrow> length xs \<le> k + d \<Longrightarrow> linked (last (take k xs)) k bs \<Longrightarrow>
    ledger_step d xs (take k xs @ map bh_block_hash bs)"

inductive_cases ledger_stepE: "ledger_step d xs ys"

lemma ledger_step_refl: "xs \<noteq> [] \<Longrightarrow> ledger_step d xs xs"
  using ledger_step [of "length xs" xs d "[]"] by simp

text \<open>A step never changes the blocks more than \<open>d\<close> below the end.\<close>

lemma ledger_step_final:
  assumes "ledger_step d xs ys"
  shows "take (length xs - d) ys = take (length xs - d) xs" and "length xs - d \<le> length ys" and "ys \<noteq> []"
  using assms by (auto elim!: ledger_stepE simp: min_def)

section \<open>The index as a list\<close>

definition migrated_chain :: "block_index \<Rightarrow> h256 list" where
  "migrated_chain bi = map snd (bi_hashes bi)"

definition numbered :: "block_index \<Rightarrow> bool" where
  "numbered bi \<longleftrightarrow> bi_hashes bi \<noteq> [] \<and> map fst (bi_hashes bi) = [0..<length (bi_hashes bi)]"

lemma length_migrated_chain: "length (migrated_chain bi) = length (bi_hashes bi)"
  by (simp add: migrated_chain_def)

lemma numbered_ne: "numbered bi \<Longrightarrow> migrated_chain bi \<noteq> []"
  by (simp add: numbered_def migrated_chain_def)

lemma index_wf_numbered: "index_wf bi n \<Longrightarrow> 0 < n \<Longrightarrow> numbered bi \<and> length (migrated_chain bi) = n"
proof -
  assume wf: "index_wf bi n" and n: "0 < n"
  then have m: "map fst (bi_hashes bi) = [0..<n]" by (simp add: index_wf_def)
  have "length (map fst (bi_hashes bi)) = n" unfolding m by simp
  then have "length (bi_hashes bi) = n" by simp
  then show ?thesis using m n by (auto simp: numbered_def length_migrated_chain)
qed

lemma bt_insert_snoc:
  "list_all (\<lambda>x. fst x < k) m \<Longrightarrow> bt_insert k v m = m @ [(k, v)]"
  by (induction m) auto

lemma numbered_lookup:
  assumes "numbered bi" and "h < length (bi_hashes bi)"
  shows "map_of (bi_hashes bi) h = Some (migrated_chain bi ! h)"
proof -
  have d: "distinct (map fst (bi_hashes bi))" using assms(1) by (simp add: numbered_def)
  have "fst (bi_hashes bi ! h) = map fst (bi_hashes bi) ! h" using assms(2) by simp
  also have "\<dots> = h" using assms by (simp add: numbered_def)
  finally have "(h, migrated_chain bi ! h) = bi_hashes bi ! h"
    using assms(2) by (simp add: migrated_chain_def prod_eq_iff)
  then show ?thesis using map_of_is_SomeI [OF d] nth_mem [OF assms(2)] by metis
qed

lemma numbered_last:
  assumes "numbered bi"
  shows "last (migrated_chain bi) = migrated_chain bi ! (length (bi_hashes bi) - 1)"
  using numbered_ne [OF assms] by (simp add: last_conv_nth length_migrated_chain)

lemma numbered_latest:
  assumes "numbered bi"
  shows "block_index_latest_height bi = Some (length (bi_hashes bi) - 1)"
proof -
  have ne: "bi_hashes bi \<noteq> []" using assms by (simp add: numbered_def)
  then have "fst (last (bi_hashes bi)) = last (map fst (bi_hashes bi))" by (simp add: last_map)
  also have "\<dots> = length (bi_hashes bi) - 1" using assms ne by (simp add: numbered_def)
  finally show ?thesis using ne by (simp add: block_index_latest_height_def)
qed

lemma push_block_chain:
  assumes nb: "numbered bi" and h: "bh_height (sb_header sb) = length (bi_hashes bi)"
    and ok: "push_block dup_ins sb c bi = Inr bi'"
  shows "numbered bi'" and "migrated_chain bi' = migrated_chain bi @ [hash_of sb]"
    and "bh_previous_block_hash (sb_header sb) = last (migrated_chain bi)"
proof -
  let ?n = "length (bi_hashes bi)"
  have n: "0 < ?n" using nb by (simp add: numbered_def)
  obtain ls where bi': "bi' = insert_block_index_item dup_ins ?n
      \<lparr>bii_block_hash = hash_of sb, bii_num_ledgers = length ls mod 2 ^ 8, bii_ledgers = ls\<rparr> bi"
    and prev: "\<exists>prev. block_index_item_by_height bi (?n - 1) = Inr prev \<and>
      bii_block_hash prev = bh_previous_block_hash (sb_header sb)"
    using ok n h by (auto simp: push_block_def Let_def block_index_num_blocks_def result_simps split: if_splits)
  have "set (map fst (bi_hashes bi)) = {0..<?n}" using nb by (simp only: numbered_def set_upt)
  then have "fst x \<in> {0..<?n}" if "x \<in> set (bi_hashes bi)" for x using that by (metis imageI set_map)
  then have lt: "list_all (\<lambda>x. fst x < ?n) (bi_hashes bi)" by (simp add: list_all_iff)
  have hs: "bi_hashes bi' = bi_hashes bi @ [(?n, hash_of sb)]"
    unfolding bi' insert_block_index_item_def Let_def using bt_insert_snoc [OF lt] by simp
  then show "numbered bi'" "migrated_chain bi' = migrated_chain bi @ [hash_of sb]"
    using nb by (simp_all add: numbered_def migrated_chain_def)
  have "?n - 1 < ?n" using n by simp
  from numbered_lookup [OF nb this] prev show "bh_previous_block_hash (sb_header sb) = last (migrated_chain bi)"
    unfolding numbered_last [OF nb]
    by (auto simp: block_index_item_by_height_def Let_def result_simps)
qed

section \<open>Migration extends the list\<close>

abbreviation chain_of :: "migration_state \<Rightarrow> h256 list" where
  "chain_of s \<equiv> migrated_chain (db_index (ms_db s))"

definition extended :: "migration_state \<Rightarrow> migration_state \<Rightarrow> bool" where
  "extended s s' \<longleftrightarrow> numbered (db_index (ms_db s')) \<and>
     (\<exists>bs. linked (last (chain_of s)) (length (chain_of s)) bs \<and> chain_of s' = chain_of s @ map bh_block_hash bs)"

lemma extended_refl: "numbered (db_index (ms_db s)) \<Longrightarrow> extended s s"
  unfolding extended_def by (intro conjI exI [of _ "[]"]) simp_all

lemma extended_same: "numbered (db_index (ms_db s)) \<Longrightarrow> db_index (ms_db s') = db_index (ms_db s) \<Longrightarrow> extended s s'"
  unfolding extended_def by (intro conjI exI [of _ "[]"]) simp_all

lemma linked_append:
  "linked p n (bs @ cs) \<longleftrightarrow> linked p n bs \<and>
     linked (if bs = [] then p else bh_block_hash (last bs)) (n + length bs) cs"
  by (induction bs arbitrary: p n) auto

lemma extended_trans:
  assumes "extended s s'" and "extended s' s''"
  shows "extended s s''"
proof -
  obtain bs where bs: "linked (last (chain_of s)) (length (chain_of s)) bs" "chain_of s' = chain_of s @ map bh_block_hash bs"
    using assms(1) by (auto simp: extended_def)
  obtain cs where cs: "linked (last (chain_of s')) (length (chain_of s')) cs" "chain_of s'' = chain_of s' @ map bh_block_hash cs"
    and n: "numbered (db_index (ms_db s''))"
    using assms(2) by (auto simp: extended_def)
  have "linked (last (chain_of s)) (length (chain_of s)) (bs @ cs)"
    unfolding linked_append using bs cs(1) by (auto simp: last_map)
  then show ?thesis
    unfolding extended_def using n bs(2) cs(2) by (intro conjI exI [of _ "bs @ cs"]) simp_all
qed

lemma migrate_one_extended:
  assumes nb: "numbered (db_index (ms_db s))" and h: "bh_height (sb_header sb) = length (chain_of s)"
    and ok: "migrate_one cfg sb s = (r, s')"
  shows "extended s s'" and "r = Inr () \<Longrightarrow> length (chain_of s') = Suc (length (chain_of s))"
proof -
  have pushed: "extended s s' \<and> length (chain_of s') = Suc (length (chain_of s))"
    if "persist_block cfg sb (ms_db s) = Inr (ms_db s')"
  proof -
    note p = push_block_chain [OF nb h [unfolded length_migrated_chain] persist_block_iff(2) [OF that]]
    have "linked (last (chain_of s)) (length (chain_of s)) [sb_header sb]" using p(3) h by simp
    then show ?thesis
      unfolding extended_def using p(1,2) by (intro conjI exI [of _ "[sb_header sb]"]) simp_all
  qed
  have cases: "s' = s \<and> r \<noteq> Inr () \<or> persist_block cfg sb (ms_db s) = Inr (ms_db s')"
    using ok by (auto simp: migrate_one_def send_chunk_migration_def Let_def split: sum.splits if_splits)
  then show "extended s s'" using pushed extended_refl [OF nb] by blast
  show "length (chain_of s') = Suc (length (chain_of s))" if "r = Inr ()" using cases pushed that by blast
qed

lemma migrate_list_extended:
  "numbered (db_index (ms_db s)) \<Longrightarrow>
   map (\<lambda>b. bh_height (sb_header b)) bs = [length (chain_of s) ..< length (chain_of s) + length bs] \<Longrightarrow>
   st_fold (migrate_one cfg) bs s = (r, s') \<Longrightarrow> extended s s'"
proof (induction bs arbitrary: s)
  case Nil
  then show ?case using extended_refl by simp
next
  case (Cons b bs)
  have h: "bh_height (sb_header b) = length (chain_of s)"
    and hs: "map (\<lambda>b. bh_height (sb_header b)) bs = [Suc (length (chain_of s)) ..< Suc (length (chain_of s)) + length bs]"
    using Cons.prems(2) by (auto simp: upt_conv_Cons simp del: upt_Suc)
  obtain r1 s1 where m: "migrate_one cfg b s = (r1, s1)" by fastforce
  note e = migrate_one_extended [OF Cons.prems(1) h m]
  show ?case
  proof (cases r1)
    case (Inl er)
    then show ?thesis using Cons.prems(3) m e(1) by simp
  next
    case (Inr u)
    then have "length (chain_of s1) = Suc (length (chain_of s))" using e(2) by simp
    moreover have "numbered (db_index (ms_db s1))" using e(1) by (simp add: extended_def)
    ultimately have "extended s1 s'" using Cons.IH [of s1] hs Cons.prems(3) m Inr by simp
    then show ?thesis using extended_trans e(1) by blast
  qed
qed

lemma check_windows_heights:
  "check_windows bs = Inr () \<Longrightarrow> bs \<noteq> [] \<Longrightarrow>
   map (\<lambda>b. bh_height (sb_header b)) bs =
     [bh_height (sb_header (hd bs)) ..< bh_height (sb_header (hd bs)) + length bs]"
proof (induction bs rule: check_windows.induct)
  case (1 p c bs)
  then have "bh_height (sb_header c) = Suc (bh_height (sb_header p))" "check_windows (c # bs) = Inr ()"
    by (auto simp: Let_def ensure_def rbind_def split: if_splits sum.splits)
  then show ?case using 1 by (auto simp: upt_conv_Cons Let_def ensure_def simp del: upt_Suc split: if_splits)
qed (simp_all del: upt_Suc add: upt_conv_Cons)

lemma prepare_heights:
  assumes nb: "numbered bi" and ok: "prepare_migration mb t bi = Inr bs"
  shows "map (\<lambda>b. bh_height (sb_header b)) bs = [length (bi_hashes bi) ..< length (bi_hashes bi) + length bs]"
proof (cases bs)
  case Nil
  then show ?thesis by simp
next
  case (Cons b bs')
  have "validate_migration_continuity bs bi = Inr ()" using ok by (auto simp: prepare_migration_def result_simps)
  then have "latest_height bi + 1 = bh_height (sb_header b)" "check_windows bs = Inr ()"
    unfolding Cons by (auto simp: validate_migration_continuity_def Let_def ensure_def result_simps split: if_splits)
  moreover have "latest_height bi + 1 = length (bi_hashes bi)"
    using numbered_latest [OF nb] nb by (simp add: latest_height_def numbered_def)
  ultimately show ?thesis using check_windows_heights [of bs] Cons by simp
qed

lemma migrate_blocks_extended:
  assumes nb: "numbered (db_index (ms_db s))" and "migrate_blocks cfg mb t s = (r, s')"
  shows "extended s s'"
proof (cases "prepare_migration mb t (db_index (ms_db s))")
  case (Inl e)
  then show ?thesis using assms extended_refl [OF nb] by (simp add: migrate_blocks_def)
next
  case (Inr bs)
  then have "st_fold (migrate_one cfg) bs s = (r, s')" using assms(2) by (simp add: migrate_blocks_def)
  then show ?thesis
    using migrate_list_extended [OF nb] prepare_heights [OF nb Inr] by (simp add: length_migrated_chain)
qed

section \<open>Recovery cuts the list\<close>

definition cut :: "nat \<Rightarrow> migration_state \<Rightarrow> migration_state \<Rightarrow> bool" where
  "cut d s s' \<longleftrightarrow> numbered (db_index (ms_db s')) \<and>
     (\<exists>k > 0. k \<le> length (chain_of s) \<and> length (chain_of s) \<le> k + d \<and> chain_of s' = take k (chain_of s))"

lemma cut_same: "numbered (db_index (ms_db s)) \<Longrightarrow> db_index (ms_db s') = db_index (ms_db s) \<Longrightarrow> cut d s s'"
  unfolding cut_def using numbered_ne [of "db_index (ms_db s)"]
  by (intro conjI exI [of _ "length (chain_of s)"]) simp_all

lemma cut_extended:
  assumes "cut d a b" and "extended b c"
  shows "ledger_step d (chain_of a) (chain_of c)" and "numbered (db_index (ms_db c))"
proof -
  obtain k where k: "0 < k" "k \<le> length (chain_of a)" "length (chain_of a) \<le> k + d"
    "chain_of b = take k (chain_of a)" using assms(1) by (auto simp: cut_def)
  obtain bs where bs: "linked (last (chain_of b)) (length (chain_of b)) bs"
    "chain_of c = chain_of b @ map bh_block_hash bs" and n: "numbered (db_index (ms_db c))"
    using assms(2) by (auto simp: extended_def)
  have "length (chain_of b) = k" using k by simp
  then have "linked (last (take k (chain_of a))) k bs" using bs(1) k(4) by simp
  from ledger_step [OF k(1-3) this] show "ledger_step d (chain_of a) (chain_of c)" by (simp add: bs(2) k(4))
qed (use assms(2) in \<open>simp add: extended_def\<close>)

lemma filter_below:
  "map fst m = [0..<length m] \<Longrightarrow> filter (\<lambda>(h, _). \<not> k \<le> h) m = take k (m :: (nat \<times> 'a) list)"
proof (induction m rule: rev_induct)
  case (snoc x m)
  then have "map fst m = [0..<length m]" "fst x = length m" by simp_all
  then show ?case using snoc.IH by (cases x) auto
qed simp

lemma truncate_chain:
  assumes nb: "numbered bi" and f: "Suc f \<le> length (bi_hashes bi)" and ok: "truncate_to_height f bi = Inr bi'"
  shows "numbered bi'" and "migrated_chain bi' = take (Suc f) (migrated_chain bi)"
proof -
  have m: "map fst (bi_hashes bi) = [0..<length (bi_hashes bi)]" using nb by (simp add: numbered_def)
  have hs: "bi_hashes bi' = take (Suc f) (bi_hashes bi)"
    using ok filter_below [OF m, of "Suc f"]
    by (auto simp: truncate_to_height_def delete_block_index_range_def split: if_splits)
  then show "migrated_chain bi' = take (Suc f) (migrated_chain bi)" by (simp add: migrated_chain_def take_map)
  have "map fst (bi_hashes bi') = take (Suc f) [0..<length (bi_hashes bi)]" unfolding hs take_map [symmetric] m ..
  then show "numbered bi'" using f nb unfolding numbered_def hs by (simp add: min_def del: upt_Suc)
qed

abbreviation rollback_depth :: "migration_config \<Rightarrow> nat" where
  "rollback_depth cfg \<equiv> mc_block_tree_depth cfg - mc_block_migration_depth cfg"

lemma recover_cut:
  assumes nb: "numbered (db_index (ms_db s))" and r: "recover_from_network_partition cfg f s = (r, s')"
  shows "cut (rollback_depth cfg) s s'"
proof -
  let ?bi = "db_index (ms_db s)" and ?n = "length (bi_hashes (db_index (ms_db s)))"
  have "db_index (ms_db s') = ?bi \<or>
    f < ?n - 1 \<and> ?n - 1 - rollback_depth cfg \<le> f \<and> truncate_to_height f ?bi = Inr (db_index (ms_db s'))"
    using r numbered_latest [OF nb]
    by (auto simp: recover_from_network_partition_def Let_def finalized_height_def split: if_splits sum.splits)
  then show ?thesis
  proof (elim disjE conjE)
    assume f: "f < ?n - 1" "?n - 1 - rollback_depth cfg \<le> f"
      and t: "truncate_to_height f ?bi = Inr (db_index (ms_db s'))"
    have "Suc f \<le> ?n" "?n \<le> Suc f + rollback_depth cfg" using f by linarith+
    then show ?thesis
      unfolding cut_def length_migrated_chain using truncate_chain [OF nb _ t] by blast
  qed (rule cut_same [OF nb])
qed

section \<open>The handlers\<close>

lemma persist_metadata_index:
  "persist_metadata cfg old new s = Inr s' \<Longrightarrow> db_index (ms_db s') = db_index (ms_db s)"
  using clear_list_ok [of cfg old "ms_db s"]
  by (auto simp: persist_metadata_def cleared_def result_simps)

abbreviation svc_index :: "('e, 'c, 'm, 'i) service_state \<Rightarrow> block_index" where
  "svc_index s \<equiv> db_index (ms_db (sv_migration s))"

definition same_index ::
  "('e, 'c, 'm, 'i) service_state \<Rightarrow> ('e, 'c, 'm, 'i) service_state \<Rightarrow> bool"
where
  "same_index s s' \<longleftrightarrow> svc_index s' = svc_index s"

lemma same_index_sbind:
  assumes "same_index s (snd m)" and "\<And>x s'. m = (Inr x, s') \<Longrightarrow> same_index s' (snd (f x s'))"
  shows "same_index s (snd (sbind m f))"
  using assms by (cases m; cases "fst m") (auto simp: same_index_def)

lemma send_epoch_events_migration: "sv_migration (snd (send_epoch_events ops b s)) = sv_migration s"
  by (auto simp: send_epoch_events_def Let_def split: option.splits)

lemma emit_fcu_migration: "sv_migration (snd (emit_fcu m s)) = sv_migration s"
  by (simp add: emit_fcu_def)

lemma persist_tip_index: "svc_index (snd (persist_tip_metadata cfg old new s)) = svc_index s"
  using persist_metadata_index by (auto simp: persist_tip_metadata_def split: sum.splits)

lemma extended_sbind:
  assumes nb: "numbered (svc_index s)" and m: "svc_index (snd m) = svc_index s"
    and f: "\<And>x s'. m = (Inr x, s') \<Longrightarrow> numbered (svc_index s') \<Longrightarrow> extended (sv_migration s') (sv_migration (snd (f x s')))"
  shows "extended (sv_migration s) (sv_migration (snd (sbind m f)))"
proof (cases m)
  case (Pair r s')
  show ?thesis
  proof (cases r)
    case (Inl e)
    then show ?thesis using Pair m extended_same [OF nb] by simp
  next
    case (Inr x)
    then have "extended (sv_migration s) (sv_migration s')" "numbered (svc_index s')"
      using Pair m nb extended_same [OF nb] by simp_all
    then show ?thesis using f [of x s'] Pair Inr extended_trans by auto
  qed
qed

lemma publish_extended:
  fixes s :: "('e, 'c, 'm, 'i) service_state"
  assumes nb: "numbered (svc_index s)"
  shows "extended (sv_migration s) (sv_migration (snd (publish_tip_move ops cfg mv s)))"
proof -
  have mig: "extended (sv_migration s) (sv_migration (snd (sbind (migrate_block cfg b s) (\<lambda>_ s.
      (Inr (), if P s then send (M s) s else s)))))" if "numbered (svc_index s)" for b P M and s :: "('e, 'c, 'm, 'i) service_state"
  proof -
    obtain r m where m: "migrate_blocks cfg b (sv_cache s) (sv_migration s) = (r, m)" by fastforce
    then have "extended (sv_migration s) m" using migrate_blocks_extended [OF that] by blast
    then show ?thesis using m by (cases r) (auto simp: migrate_block_def map_error_def)
  qed
  have last: "extended (sv_migration s') (sv_migration (snd (sbind
      (migrate_block cfg b (fold (\<lambda>sb. send (BlockConfirmed sb)) bs s'))
      (\<lambda>_ s. (Inr (), if P s then send (M s) s else s)))))"
    if "numbered (svc_index s')" for b bs P M and s' :: "('e, 'c, 'm, 'i) service_state"
    using mig [of "fold (\<lambda>sb. send (BlockConfirmed sb)) bs s'" b P M] that by simp
  show ?thesis
    unfolding publish_tip_move_def Let_def
    by (rule extended_sbind [OF nb], simp add: send_epoch_events_migration split: option.splits,
        rule extended_sbind, assumption, rule persist_tip_index,
        rule extended_sbind, assumption, simp add: emit_fcu_migration split: option.split, erule last)
qed

lemma describe_cut:
  assumes nb: "numbered (svc_index s)"
  shows "cut (rollback_depth cfg) (sv_migration s) (sv_migration (snd (describe_tip_move cfg nt m sp s)))"
proof -
  obtain r mig where r: "recover_from_network_partition cfg (bh_height (sb_header (rs_lca sp))) (sv_migration s) = (r, mig)"
    by fastforce
  note c = recover_cut [OF nb r] and same = cut_same [OF nb refl, of "rollback_depth cfg"]
  show ?thesis
    using c same r by (auto simp: describe_tip_move_def Let_def split: sum.splits if_splits)
qed

lemma try_move_cut:
  assumes nb: "numbered (svc_index s)"
  shows "cut (rollback_depth cfg) (sv_migration s) (sv_migration (snd (try_move_tip_to cfg h s)))"
proof -
  have "cut (rollback_depth cfg) (sv_migration s)
      (sv_migration (snd (describe_tip_move cfg nt m sp (s\<lparr>sv_cache := t\<rparr>))))" for nt m sp t
    using describe_cut [of "s\<lparr>sv_cache := t\<rparr>" cfg nt m sp] nb by simp
  then show ?thesis
    using cut_same [OF nb refl, of "rollback_depth cfg"]
    by (simp add: try_move_tip_to_def Let_def split: option.splits sum.splits prod.splits if_splits bool.splits)
qed

definition refines :: "migration_config \<Rightarrow> ('e, 'c, 'm, 'i) service_state \<Rightarrow> ('e, 'c, 'm, 'i) service_state \<Rightarrow> bool" where
  "refines cfg s s' \<longleftrightarrow> numbered (svc_index s') \<and>
     ledger_step (rollback_depth cfg) (migrated_chain (svc_index s)) (migrated_chain (svc_index s'))"

lemma refines_same: "numbered (svc_index s) \<Longrightarrow> svc_index s' = svc_index s \<Longrightarrow> refines cfg s s'"
  using ledger_step_refl [OF numbered_ne] by (auto simp: refines_def)

lemma refines_move:
  assumes nb: "numbered (svc_index s0)" "svc_index s = svc_index s0"
    and f: "\<And>x s'. numbered (svc_index s') \<Longrightarrow> extended (sv_migration s') (sv_migration (snd (f x s')))"
  shows "refines cfg s0 (snd (sbind (try_move_tip_to cfg h s) f))"
proof -
  obtain r s' where m: "try_move_tip_to cfg h s = (r, s')" by fastforce
  have c: "cut (rollback_depth cfg) (sv_migration s) (sv_migration s')"
    using try_move_cut [of s cfg h] nb m by simp
  then have nb': "numbered (svc_index s')" by (simp add: cut_def)
  have "extended (sv_migration s') (sv_migration (snd (sbind (r, s') f)))"
    using f [OF nb'] extended_refl [OF nb'] by (cases r) simp_all
  from cut_extended [OF c this] show ?thesis by (simp add: refines_def m nb(2))
qed

lemma extended_send: "extended m (sv_migration s) \<Longrightarrow> extended m (sv_migration (send x s))"
  by simp

lemma publish_then:
  assumes "numbered (svc_index s)"
  shows "extended (sv_migration s) (sv_migration (snd (sbind (publish_tip_move ops cfg mv s) (\<lambda>_ s. (Inr (), send x s)))))"
  using publish_extended [OF assms, of ops cfg mv]
  by (cases "publish_tip_move ops cfg mv s"; cases "fst (publish_tip_move ops cfg mv s)") auto

lemma move_tip_after_discard_refines:
  assumes nb: "numbered (svc_index s0)" "svc_index s = svc_index s0"
  shows "refines cfg s0 (snd (move_tip_after_discard ops cfg s))"
  unfolding move_tip_after_discard_def Let_def
  using refines_same [OF nb]
  by (auto split: sum.splits option.splits intro!: refines_move [OF nb] publish_then extended_refl)

lemma discard_index: "svc_index (snd (discard_and_broadcast h r k s)) = svc_index s"
  by (auto simp: discard_and_broadcast_def Let_def split: sum.splits prod.splits)

lemma persist_then:
  assumes "numbered (svc_index s)"
  shows "extended (sv_migration s) (sv_migration (snd (sbind (persist_tip_metadata cfg old new s) (\<lambda>_ s. (Inr (), send x s)))))"
  using persist_tip_index [of cfg old new s] extended_same [OF assms]
  by (cases "persist_tip_metadata cfg old new s"; cases "fst (persist_tip_metadata cfg old new s)") auto

lemma on_valid_block_refines:
  assumes nb: "numbered (svc_index s)"
  shows "refines cfg s (snd (on_valid_block ops cfg h s))"
  unfolding on_valid_block_def Let_def
  using refines_same [OF nb]
  by (auto split: sum.splits option.splits prod.splits intro!: refines_move [OF nb] publish_then persist_then)

lemma on_block_prevalidated_index: "sv_migration (snd (on_block_prevalidated ops now b skip s)) = sv_migration s"
  by (simp add: on_block_prevalidated_def Let_def split: option.splits sum.splits prod.splits)

lemma on_block_validation_finished_refines:
  assumes nb: "numbered (svc_index s)"
  shows "refines cfg s (snd (on_block_validation_finished ops cfg h r s))"
proof -
  have "refines cfg s (snd (sbind (discard_and_broadcast h r k s) (\<lambda>_ s. move_tip_after_discard ops cfg s)))" for k
    using discard_index [of h r k s] move_tip_after_discard_refines [OF nb] refines_same [OF nb]
    by (cases "discard_and_broadcast h r k s"; cases "fst (discard_and_broadcast h r k s)") auto
  then show ?thesis
    using on_valid_block_refines [OF nb] refines_same [OF nb refl]
    by (auto simp: on_block_validation_finished_def split: validation_result.splits)
qed

end
