(* ===== verification/Canonical_Index.thy ===== *)
theory Canonical_Index
  imports Migrated_Chain
begin

text \<open>
  The tables and the tree together. \<open>anchored\<close> says that the tables are well formed, that the last
  indexed block is a canonical block of the tree at its height, that the indexed headers at the
  heights of the tree are those of its ancestors, and that the transactions of a block of the tree do
  not occur in the indexed blocks below the tree. Every message that is handled without an error keeps
  it.
\<close>

section \<open>The relation of the tree and the tables\<close>

definition blocks_ok :: "migration_config \<Rightarrow> ('e, 'c, 'm) full_tree \<Rightarrow> bool" where
  "blocks_ok cfg t \<longleftrightarrow>
     (\<forall>h e pe. map_of (blocks t) h = Some e \<longrightarrow> map_of (blocks t) (parent_of e) = Some pe \<longrightarrow>
        ledgers_grow (header_of pe) (header_of e)) \<and>
     (\<forall>x y xe ye. banc (blocks t) x y \<longrightarrow> x \<noteq> y \<longrightarrow> map_of (blocks t) x = Some xe \<longrightarrow>
        map_of (blocks t) y = Some ye \<longrightarrow> txs_apart cfg (header_of xe) (header_of ye))"

definition below_tree :: "('b, 'e, 'c, 'm) block_tree \<Rightarrow> nat \<Rightarrow> bool" where
  "below_tree t h \<longleftrightarrow> (\<forall>x \<in> bdom (blocks t). h < bht (blocks t) x)"

definition rooted :: "migration_config \<Rightarrow> ('e, 'c, 'm) full_tree \<Rightarrow> irys_db \<Rightarrow> nat \<Rightarrow> h256 \<Rightarrow> bool" where
  "rooted cfg t db n a \<longleftrightarrow>
     tables_wf cfg db n \<and> 0 < n \<and> index_tip (db_index db) n = a \<and>
     a \<in> bdom (blocks t) \<and> bht (blocks t) a = n - 1 \<and>
     (\<forall>x e. banc (blocks t) x a \<longrightarrow> map_of (blocks t) x = Some e \<longrightarrow>
        indexed_header db (bht (blocks t) x) = Some (stored (header_of e))) \<and>
     (\<forall>y ye h hdr. map_of (blocks t) y = Some ye \<longrightarrow> below_tree t h \<longrightarrow> h < n \<longrightarrow>
        indexed_header db h = Some hdr \<longrightarrow> txs_apart cfg hdr (header_of ye))"

definition anchored :: "migration_config \<Rightarrow> ('e, 'c, 'm) full_tree \<Rightarrow> irys_db \<Rightarrow> nat \<Rightarrow> bool" where
  "anchored cfg t db n \<longleftrightarrow>
     rooted cfg t db n (index_tip (db_index db) n) \<and> banc (blocks t) (index_tip (db_index db) n) (tip t)"

lemma rootedD:
  assumes "rooted cfg t db n a"
  shows "tables_wf cfg db n" "0 < n" "index_tip (db_index db) n = a" "a \<in> bdom (blocks t)"
    "bht (blocks t) a = n - 1"
    "\<And>x e. banc (blocks t) x a \<Longrightarrow> map_of (blocks t) x = Some e \<Longrightarrow>
       indexed_header db (bht (blocks t) x) = Some (stored (header_of e))"
    "\<And>y ye h hdr. map_of (blocks t) y = Some ye \<Longrightarrow> below_tree t h \<Longrightarrow> h < n \<Longrightarrow>
       indexed_header db h = Some hdr \<Longrightarrow> txs_apart cfg hdr (header_of ye)"
  using assms unfolding rooted_def by blast+

lemma below_or_ancestor:
  assumes inv: "tree_inv t" and a: "a \<in> bdom (blocks t)" and h: "h \<le> bht (blocks t) a"
  shows "below_tree t h \<or> (\<exists>y. banc (blocks t) y a \<and> bht (blocks t) y = h)"
proof -
  obtain r where r: "root (blocks t) r" using root_exists [OF inv] by blast
  then have up: "banc (blocks t) r x" if "x \<in> bdom (blocks t)" for x using that by (auto simp: root_def)
  note wf = tree_invD(1) [OF inv]
  show ?thesis
  proof (cases "h < bht (blocks t) r")
    case True
    then have "below_tree t h" using up banc_ht [OF wf] unfolding below_tree_def by (meson less_le_trans)
    then show ?thesis ..
  next
    case False
    then show ?thesis using banc_at_height [OF wf up [OF a], of h] h by auto
  qed
qed

lemma rooted_apart:
  assumes inv: "tree_inv t" and ok: "blocks_ok cfg t" and R: "rooted cfg t db n a"
    and b: "map_of (blocks t) b = Some be" "banc (blocks t) a b" "a \<noteq> b"
  shows "apart_from_index cfg db n (header_of be)"
  unfolding apart_from_index_def
proof (intro allI impI)
  fix h hdr
  assume h: "h < n" and hdr: "indexed_header db h = Some hdr"
  note D = rootedD [OF R] and wf = tree_invD(1) [OF inv]
  have "h \<le> bht (blocks t) a" using h D(2,5) by simp
  from below_or_ancestor [OF inv D(4) this] show "txs_apart cfg hdr (header_of be)"
  proof (elim disjE exE conjE)
    assume "below_tree t h"
    then show ?thesis using D(7) [OF b(1) _ h hdr] by blast
  next
    fix y assume y: "banc (blocks t) y a" "bht (blocks t) y = h"
    obtain ye where ye: "map_of (blocks t) y = Some ye" using anc_nodes(1) [OF y(1)] by blast
    have "indexed_header db h = Some (stored (header_of ye))" using D(6) [OF y(1) ye] y(2) by simp
    then have "hdr = stored (header_of ye)" using hdr by simp
    moreover have "banc (blocks t) y b" by (rule banc_trans [OF y(1) b(2)])
    moreover have "y \<noteq> b" using y(1) b(2,3) banc_antisym [OF wf] by blast
    ultimately show ?thesis using ok ye b(1) unfolding blocks_ok_def by simp
  qed
qed

section \<open>Clearing and rolling back\<close>

lemma rooted_cleared:
  assumes inv: "tree_inv t" and ok: "blocks_ok cfg t" and R: "rooted cfg t db n a"
    and c: "cleared cfg bs db db'"
    and bs: "\<And>b. b \<in> set bs \<Longrightarrow> \<exists>x e. map_of (blocks t) x = Some e \<and> b = header_of e \<and> banc (blocks t) a x \<and> a \<noteq> x"
  shows "rooted cfg t db' n a"
proof -
  note D = rootedD [OF R]
  have "apart_from_index cfg db n b" if "b \<in> set bs" for b
    using bs [OF that] rooted_apart [OF inv ok R] by blast
  note cl = cleared_wf [OF D(1) c this]
  have "db_index db' = db_index db" using c by (simp add: cleared_def)
  then show ?thesis using R cl unfolding rooted_def by simp
qed

lemma index_tip_header:
  assumes wf: "tables_wf cfg db n" "0 < n" and h: "indexed_header db (n - 1) = Some (stored hdr)"
  shows "index_tip (db_index db) n = bh_block_hash hdr"
proof -
  have "n - 1 < n" using wf(2) by simp
  from tables_wfD(2) [OF wf(1) this] h show ?thesis
    by (auto simp: header_matches_def index_tip_def)
qed

lemma rooted_truncated:
  assumes inv: "tree_inv t" and R: "rooted cfg t db n a" and l: "banc (blocks t) l a"
    and bi: "truncate_to_height (bht (blocks t) l) (db_index db) = Inr bi"
  shows "rooted cfg t (db\<lparr>db_index := bi\<rparr>) (Suc (bht (blocks t) l)) l"
proof -
  note D = rootedD [OF R] and wf = tree_invD(1) [OF inv]
  let ?f = "bht (blocks t) l" and ?db = "db\<lparr>db_index := bi\<rparr>"
  have f: "?f < n" "?f + 1 < 2 ^ 64"
    using banc_ht [OF wf l] D(2,5) bi by (auto simp: truncate_to_height_def split: if_splits)
  note tr = truncated_wf [OF D(1) f bi]
  obtain le where le: "map_of (blocks t) l = Some le" using anc_nodes(1) [OF l] by blast
  have "indexed_header ?db (Suc ?f - 1) = Some (stored (header_of le))" using tr(2) [of ?f] D(6) [OF l le] by simp
  from index_tip_header [OF tr(1) _ this] have tip: "index_tip bi (Suc ?f) = l"
    using bs_wf_hash [OF wf le] by simp
  have "indexed_header ?db (bht (blocks t) x) = Some (stored (header_of e))"
    if "banc (blocks t) x l" "map_of (blocks t) x = Some e" for x e
    using tr(2) [OF banc_ht [OF wf that(1)]] D(6) [OF banc_trans [OF that(1) l] that(2)] by simp
  then show ?thesis
    unfolding rooted_def using tr D(7) f(1) le tip by (auto simp: less_Suc_eq_le)
qed

section \<open>Migrating\<close>

lemma branch_member:
  assumes wf: "bs_wf bs" and a: "banc bs a h" and b: "b \<in> set (branch bs a h)"
  shows "\<exists>x e. map_of bs x = Some e \<and> b = bm_block e \<and> banc bs a x \<and> a \<noteq> x \<and> banc bs x h"
proof -
  obtain x e where x: "map_of bs x = Some e" "b = bm_block e" "banc bs x h" "bht bs a < bht bs x"
    using b unfolding branch_set [OF wf a] by blast
  then have "banc bs a x" using banc_below [OF wf a x(3)] by simp
  then show ?thesis using x by blast
qed

lemma branch_snoc_induct [consumes 2, case_names self step]:
  assumes wf: "bs_wf bs" and a: "banc bs a h"
    and self: "P a []"
    and step: "\<And>x e. map_of bs x = Some e \<Longrightarrow> banc bs a (parent_of e) \<Longrightarrow> banc bs a x \<Longrightarrow> a \<noteq> x \<Longrightarrow>
      P (parent_of e) (branch bs a (parent_of e)) \<Longrightarrow> P x (branch bs a (parent_of e) @ [bm_block e])"
  shows "P h (branch bs a h)"
  using wf a
proof (induction h rule: ancestry_induct)
  case (None h)
  then show ?case using anc_nodes(2) [OF None.prems] by auto
next
  case (Some h e)
  show ?case
  proof (cases "h = a")
    case True
    then show ?thesis using branch_self [OF wf] Some.hyps self by simp
  next
    case False
    have p: "banc bs a (parent_of e)" using banc_proper [OF Some.hyps Some.prems] False by blast
    show ?thesis
      unfolding branch_step [OF wf Some.hyps False]
      using step [OF Some.hyps p Some.prems] Some.IH [OF p] False by blast
  qed
qed

lemma grow_chain_append:
  "grow_chain p (bs @ [b]) \<longleftrightarrow>
     grow_chain p bs \<and> ledgers_grow (if bs = [] then p else sb_header (last bs)) (sb_header b)"
  by (induction bs arbitrary: p) auto

lemma branch_last:
  assumes wf: "bs_wf bs" and a: "banc bs a h" and ne: "branch bs a h \<noteq> []"
  shows "\<exists>e. map_of bs h = Some e \<and> last (branch bs a h) = bm_block e"
proof -
  obtain e where e: "map_of bs h = Some e" using anc_nodes(2) [OF a] by blast
  have "h \<noteq> a" using ne branch_self [OF wf] e by blast
  then show ?thesis using branch_step [OF wf e] e by simp
qed

lemma branch_grows:
  assumes inv: "tree_inv t" and ok: "blocks_ok cfg t" and a: "banc (blocks t) a h" "map_of (blocks t) a = Some ae"
  shows "grow_chain (header_of ae) (branch (blocks t) a h)"
proof -
  note wf = tree_invD(1) [OF inv]
  from wf a(1) show ?thesis
  proof (induction rule: branch_snoc_induct)
    case (step x e)
    obtain pe where pe: "map_of (blocks t) (parent_of e) = Some pe" using anc_nodes(2) [OF step(2)] by blast
    have lg: "ledgers_grow (header_of pe) (header_of e)" using ok step(1) pe unfolding blocks_ok_def by blast
    have "(if branch (blocks t) a (parent_of e) = [] then header_of ae
           else sb_header (last (branch (blocks t) a (parent_of e)))) = header_of pe"
    proof (cases "branch (blocks t) a (parent_of e) = []")
      case True
      then have "parent_of e = a"
        using branch_step [OF wf pe, of a] by (cases "parent_of e = a") auto
      then show ?thesis using True pe a(2) by simp
    next
      case False
      then show ?thesis using branch_last [OF wf step(2)] pe by auto
    qed
    then show ?case using step.IH lg by (simp add: grow_chain_append)
  qed simp
qed

lemma branch_apart:
  assumes inv: "tree_inv t" and ok: "blocks_ok cfg t" and a: "banc (blocks t) a h"
  shows "sorted_wrt (\<lambda>p b. txs_apart cfg (sb_header p) (sb_header b)) (branch (blocks t) a h)"
proof -
  note wf = tree_invD(1) [OF inv]
  from wf a show ?thesis
  proof (induction rule: branch_snoc_induct)
    case (step x e)
    have "txs_apart cfg (sb_header p) (header_of e)" if p: "p \<in> set (branch (blocks t) a (parent_of e))" for p
    proof -
      obtain y ye where y: "map_of (blocks t) y = Some ye" "p = bm_block ye" "banc (blocks t) y (parent_of e)"
        using branch_member [OF wf step(2) p] by blast
      obtain pe where pe: "map_of (blocks t) (parent_of e) = Some pe" using anc_nodes(2) [OF step(2)] by blast
      have "banc (blocks t) y x" using banc_trans [OF y(3) banc_parent [OF step(1) pe]] .
      moreover have "y \<noteq> x" using not_banc_parent [OF wf step(1)] y(3) by blast
      ultimately show ?thesis using ok y(1,2) step(1) unfolding blocks_ok_def by blast
    qed
    then show ?case using step.IH by (simp add: sorted_wrt_append)
  qed simp
qed

lemma rooted_migratable:
  assumes inv: "tree_inv t" and ok: "blocks_ok cfg t" and R: "rooted cfg t db n a" and m: "banc (blocks t) a mb"
  shows "migratable cfg db n (branch (blocks t) a mb)"
proof -
  note D = rootedD [OF R] and wf = tree_invD(1) [OF inv]
  obtain ae where ae: "map_of (blocks t) a = Some ae" using D(4) by blast
  have "indexed_header db (n - 1) = Some (stored (header_of ae))"
    using D(6) [OF banc_refl [OF ae] ae] D(5) by simp
  moreover have "grow_chain (stored (header_of ae)) (branch (blocks t) a mb)"
    using branch_grows [OF inv ok m ae] by simp
  moreover have "apart_from_index cfg db n (sb_header b)" if "b \<in> set (branch (blocks t) a mb)" for b
    using branch_member [OF wf m that] rooted_apart [OF inv ok R] by blast
  ultimately show ?thesis
    unfolding migratable_def using branch_apart [OF inv ok m] by blast
qed

lemma branch_nth:
  assumes wf: "bs_wf bs" and a: "banc bs a h" and x: "banc bs x h" "map_of bs x = Some e" "bht bs a < bht bs x"
  shows "bht bs x - Suc (bht bs a) < length (branch bs a h)" and "branch bs a h ! (bht bs x - Suc (bht bs a)) = bm_block e"
proof -
  have "bm_block e \<in> set (branch bs a h)" unfolding branch_set [OF wf a] using x by blast
  then obtain i where i: "i < length (branch bs a h)" "branch bs a h ! i = bm_block e" by (auto simp: in_set_conv_nth)
  have "map (\<lambda>b. bh_height (sb_header b)) (branch bs a h) ! i = bht bs x" using i x(2) by simp
  moreover have "i < Suc (bht bs h) - Suc (bht bs a)"
    using i(1) arg_cong [OF branch_heights [OF wf a], of length] by (simp del: upt_Suc)
  ultimately have "bht bs x = Suc (bht bs a) + i"
    unfolding branch_heights [OF wf a] by (simp del: upt_Suc)
  then have "i = bht bs x - Suc (bht bs a)" by simp
  then show "bht bs x - Suc (bht bs a) < length (branch bs a h)"
    "branch bs a h ! (bht bs x - Suc (bht bs a)) = bm_block e" using i by simp_all
qed

lemma rooted_migrated:
  assumes cfg: "set_insert (mc_dup_ins cfg)" "0 < mc_chunk_size cfg"
    and inv: "tree_inv t" and ok: "blocks_ok cfg t" and R: "rooted cfg t (ms_db s) n a"
    and m: "banc (blocks t) a (bh_block_hash mb)" and run: "migrate_blocks cfg mb t s = (Inr (), s')"
  shows "rooted cfg t (ms_db s') (Suc (bht (blocks t) (bh_block_hash mb))) (bh_block_hash mb)"
proof -
  let ?bs = "blocks t" and ?m = "bh_block_hash mb"
  note D = rootedD [OF R] and wf = tree_invD(1) [OF inv]
  note W = migrate_blocks_wf [OF cfg wf D(1,2) D(3) [symmetric] m D(5) rooted_migratable [OF inv ok R m] run]
  have old: "indexed_header (ms_db s') h = indexed_header (ms_db s) h" if "h < n" for h
    using W(2) that by (simp add: appended_def)
  have new: "indexed_header (ms_db s') (bht ?bs x) = Some (stored (header_of e))"
    if x: "banc ?bs x ?m" "map_of ?bs x = Some e" for x e
  proof (cases "bht ?bs x \<le> bht ?bs a")
    case True
    then have "banc ?bs x a" by (rule banc_below [OF wf x(1) m])
    then show ?thesis using D(6) [OF _ x(2)] old [of "bht ?bs x"] True D(2,5) by simp
  next
    case False
    then have lt: "bht ?bs a < bht ?bs x" by simp
    note b = branch_nth [OF wf m x lt]
    have "n + (bht ?bs x - Suc (bht ?bs a)) = bht ?bs x" using lt D(2,5) by simp
    then show ?thesis using W(2) b unfolding appended_def by metis
  qed
  have "txs_apart cfg hdr (header_of ye)"
    if "map_of ?bs y = Some ye" "below_tree t h" "indexed_header (ms_db s') h = Some hdr" for y ye h hdr
  proof -
    have "h < bht ?bs a" using that(2) D(4) unfolding below_tree_def by blast
    then have "h < n" using D(2,5) by simp
    then show ?thesis using D(7) [OF that(1,2)] old that(3) by simp
  qed
  then show ?thesis
    unfolding rooted_def using W(1,3) new anc_nodes(2) [OF m] by simp
qed

section \<open>Pruning\<close>

definition submap :: "('b, 'e, 'c, 'm) block_map \<Rightarrow> ('b, 'e, 'c, 'm) block_map \<Rightarrow> bool" where
  "submap bs' bs \<longleftrightarrow>
     length bs' \<le> length bs \<and>
     (\<forall>x e'. map_of bs' x = Some e' \<longrightarrow> (\<exists>e. map_of bs x = Some e \<and> bm_block e = bm_block e'))"

lemma removed_submap:
  assumes d: "distinct (map fst bs)" and r: "removed S bs bs'"
  shows "submap bs' bs"
proof -
  have "card (set (map fst bs')) \<le> card (set (map fst bs))"
    using removed_dom [OF r] by (intro card_mono) (auto simp: dom_map_of_conv_image_fst)
  then have "length bs' \<le> length bs"
    using distinct_card [OF d] r distinct_card [of "map fst bs'"] by (simp add: removed_def)
  then show ?thesis unfolding submap_def using removed_Some [OF r] by auto
qed

lemma pruned_submap:
  assumes "bs_wf (blocks t1)" and "pruned d t1 t2"
  shows "submap (blocks t2) (blocks t1)"
proof -
  obtain k where "kept k (blocks t1) (blocks t2)" using assms(2) unfolding pruned_def by blast
  moreover have "distinct (map fst (blocks t1))" using assms(1) by (simp add: bs_wf_def)
  ultimately show ?thesis by (rule removed_submap [rotated])
qed

lemma collect_lift:
  assumes sub: "submap bs' bs" and a: "a \<in> bdom bs"
  shows "collect_to_migrate n bs' a h acc = Inr r \<Longrightarrow> n \<le> m \<Longrightarrow>
    collect_to_migrate m bs a h acc = Inr r \<and> banc bs a h"
proof (induction n arbitrary: h acc m)
  case 0
  then have "h = a" "acc = r"
    by (auto simp: collect_to_migrate.simps [of 0] split: if_splits)
  then show ?case using anc_refl [OF a] by (simp add: collect_to_migrate.simps [of m])
next
  case (Suc n)
  show ?case
  proof (cases "h = a")
    case True
    then show ?thesis
      using Suc.prems(1) anc_refl [OF a] by (simp add: collect_to_migrate.simps [of m] collect_to_migrate.simps [of "Suc n"])
  next
    case False
    obtain e' where e': "map_of bs' h = Some e'" "collect_to_migrate n bs' a (parent_of e') (bm_block e' # acc) = Inr r"
      using Suc.prems(1) False by (auto simp: collect_to_migrate.simps [of "Suc n"] split: option.splits)
    obtain e where e: "map_of bs h = Some e" "bm_block e = bm_block e'" using sub e'(1) unfolding submap_def by blast
    obtain m' where m': "m = Suc m'" "n \<le> m'" using Suc.prems(2) by (cases m) auto
    from Suc.IH [OF e'(2) m'(2)] have "collect_to_migrate m' bs a (parent_of e) (bm_block e # acc) = Inr r"
      "banc bs a (parent_of e)" using e(2) by simp_all
    then show ?thesis
      using False e(1) m'(1) anc_step [of h "bdom bs" "bpar bs" a]
      by (auto simp: collect_to_migrate.simps [of "Suc m'"])
  qed
qed

lemma migrate_lift:
  assumes sub: "submap (blocks t') (blocks t)" and ix: "index_wf (db_index (ms_db s)) n" "0 < n"
    and a: "index_tip (db_index (ms_db s)) n \<in> bdom (blocks t)"
    and run: "migrate_blocks cfg mb t' s = (Inr (), s')"
  shows "migrate_blocks cfg mb t s = (Inr (), s')" and "banc (blocks t) (index_tip (db_index (ms_db s)) n) (bh_block_hash mb)"
proof -
  let ?bi = "db_index (ms_db s)"
  obtain bs where bs: "prepare_migration mb t' ?bi = Inr bs" "st_fold (migrate_one cfg) bs s = (Inr (), s')"
    using run by (auto simp: migrate_blocks_def split: sum.splits)
  obtain item where item: "get_latest_item ?bi = Some item" "bii_block_hash item = index_tip ?bi n"
    using get_latest_item_wf [OF ix index_tip_Some [OF ix]] by blast
  have "collect_to_migrate (fuel_of (blocks t')) (blocks t') (index_tip ?bi n) (bh_block_hash mb) [] = Inr bs"
    using bs(1) item by (auto simp: prepare_migration_def get_blocks_to_migrate_def ok_or_def result_simps)
  moreover have "fuel_of (blocks t') \<le> fuel_of (blocks t)" using sub by (simp add: submap_def)
  ultimately have c: "collect_to_migrate (fuel_of (blocks t)) (blocks t) (index_tip ?bi n) (bh_block_hash mb) [] = Inr bs"
    "banc (blocks t) (index_tip ?bi n) (bh_block_hash mb)"
    using collect_lift [OF sub a] by blast+
  then have "get_blocks_to_migrate mb t ?bi = get_blocks_to_migrate mb t' ?bi"
    using bs(1) item by (auto simp: prepare_migration_def get_blocks_to_migrate_def ok_or_def result_simps)
  then have "prepare_migration mb t ?bi = Inr bs" using bs(1) by (simp add: prepare_migration_def)
  then show "migrate_blocks cfg mb t s = (Inr (), s')" using bs(2) by (simp add: migrate_blocks_def)
  show "banc (blocks t) (index_tip ?bi n) (bh_block_hash mb)" by (rule c(2))
qed

lemma rooted_kept:
  assumes inv: "tree_inv t" and ok: "blocks_ok cfg t" and R: "rooted cfg t db n a"
    and k: "kept k (blocks t) (blocks t')" "k \<in> bdom (blocks t)" "banc (blocks t) k a"
  shows "rooted cfg t' db n a"
proof -
  let ?bs = "blocks t" and ?bs' = "blocks t'"
  note D = rootedD [OF R] and wf = tree_invD(1) [OF inv]
  have dom: "x \<in> bdom ?bs' \<longleftrightarrow> banc ?bs k x" for x
    using removed_dom [OF k(1)] anc_nodes(2) [of "bdom ?bs" "bpar ?bs" k x] by auto
  have a': "a \<in> bdom ?bs'" using dom k(3) by blast
  have old: "\<exists>e. map_of ?bs x = Some e \<and> header_of e = header_of e'" if "map_of ?bs' x = Some e'" for x e'
    using that removed_Some [OF k(1)] by auto
  have ht: "bht ?bs' x = bht ?bs x" if "x \<in> bdom ?bs'" for x by (rule removed_bht [OF k(1) that])
  have up: "banc ?bs x y" if "banc ?bs' x y" for x y using that removed_banc [OF wf k(1)] by blast
  have entries: "indexed_header db (bht ?bs' x) = Some (stored (header_of e'))"
    if x: "banc ?bs' x a" "map_of ?bs' x = Some e'" for x e'
    using old [OF x(2)] D(6) [OF up [OF x(1)]] ht [of x] x(2) by auto
  have below: "txs_apart cfg hdr (header_of ye')"
    if y: "map_of ?bs' y = Some ye'" "below_tree t' h" "h < n" "indexed_header db h = Some hdr" for y ye' h hdr
  proof -
    obtain ye where ye: "map_of ?bs y = Some ye" "header_of ye = header_of ye'" using old [OF y(1)] by blast
    have "h \<le> bht ?bs a" using y(3) D(5) by simp
    from below_or_ancestor [OF inv D(4) this] show ?thesis
    proof (elim disjE exE conjE)
      assume "below_tree t h"
      then show ?thesis using D(7) [OF ye(1) _ y(3,4)] ye(2) by simp
    next
      fix z assume z: "banc ?bs z a" "bht ?bs z = h"
      obtain ze where ze: "map_of ?bs z = Some ze" using anc_nodes(1) [OF z(1)] by blast
      have hdr: "hdr = stored (header_of ze)" using D(6) [OF z(1) ze] z(2) y(4) by simp
      have k': "k \<in> bdom ?bs'" using dom anc_refl [OF k(2)] by blast
      then have "h < bht ?bs' k" using y(2) unfolding below_tree_def by blast
      then have lt: "h < bht ?bs k" using ht [OF k'] by simp
      then have "banc ?bs z k" using banc_below [OF wf z(1) k(3)] z(2) by simp
      moreover have ky: "banc ?bs k y" using dom y(1) by blast
      ultimately have zy: "banc ?bs z y" by (rule banc_trans)
      have "z \<noteq> y" using lt z(2) banc_ht [OF wf ky] by auto
      then show ?thesis using ok zy ze ye unfolding blocks_ok_def hdr by (metis txs_apart_stored)
    qed
  qed
  show ?thesis
    unfolding rooted_def using D(1-3) a' ht [OF a'] D(5) entries below by simp
qed

section \<open>The tree changes\<close>

lemma blocks_ok_sub:
  assumes ok: "blocks_ok cfg t"
    and old: "\<And>x e'. map_of (blocks t') x = Some e' \<Longrightarrow> \<exists>e. map_of (blocks t) x = Some e \<and> bm_block e = bm_block e'"
    and up: "\<And>x y. banc (blocks t') x y \<Longrightarrow> banc (blocks t) x y"
  shows "blocks_ok cfg t'"
  unfolding blocks_ok_def
proof (intro conjI allI impI)
  fix h e' pe'
  assume "map_of (blocks t') h = Some e'" "map_of (blocks t') (parent_of e') = Some pe'"
  then obtain e pe where e: "map_of (blocks t) h = Some e" "bm_block e = bm_block e'"
    "map_of (blocks t) (parent_of e') = Some pe" "bm_block pe = bm_block pe'" using old by meson
  then have "map_of (blocks t) (parent_of e) = Some pe" by simp
  then have "ledgers_grow (header_of pe) (header_of e)" using ok e(1) unfolding blocks_ok_def by blast
  then show "ledgers_grow (header_of pe') (header_of e')" by (simp add: e)
next
  fix x y xe' ye'
  assume x: "banc (blocks t') x y" "x \<noteq> y" and "map_of (blocks t') x = Some xe'" "map_of (blocks t') y = Some ye'"
  then obtain xe ye where e: "map_of (blocks t) x = Some xe" "bm_block xe = bm_block xe'"
    "map_of (blocks t) y = Some ye" "bm_block ye = bm_block ye'" using old by meson
  then have "txs_apart cfg (header_of xe) (header_of ye)" using ok up [OF x(1)] x(2) unfolding blocks_ok_def by blast
  then show "txs_apart cfg (header_of xe') (header_of ye')" by (simp add: e)
qed

lemma blocks_ok_restate: "restate (blocks t) (blocks t') \<Longrightarrow> blocks_ok cfg t \<Longrightarrow> blocks_ok cfg t'"
  by (rule blocks_ok_sub, assumption, blast dest: restate_lookup, simp add: restate_banc)

lemma rooted_restate:
  assumes re: "restate (blocks t) (blocks t')" and R: "rooted cfg t db n a"
  shows "rooted cfg t' db n a"
proof -
  have old: "\<exists>e. map_of (blocks t) x = Some e \<and> bm_block e = bm_block e'" if "map_of (blocks t') x = Some e'" for x e'
    using restate_lookup [OF re that] by blast
  have bel: "below_tree t' h = below_tree t h" for h
    by (simp add: below_tree_def restate_dom [OF re] restate_bht [OF re])
  note D = rootedD [OF R]
  have "indexed_header db (bht (blocks t) x) = Some (stored (header_of e'))"
    if "banc (blocks t) x a" "map_of (blocks t') x = Some e'" for x e'
    using old [OF that(2)] D(6) [OF that(1)] by auto
  moreover have "txs_apart cfg hdr (header_of ye')"
    if "map_of (blocks t') y = Some ye'" "below_tree t h" "h < n" "indexed_header db h = Some hdr" for y ye' h hdr
    using old [OF that(1)] D(7) [OF _ that(2-4), of y] by metis
  ultimately show ?thesis
    unfolding rooted_def restate_banc [OF re] restate_bht [OF re] bel unfolding restate_dom [OF re]
    using D(1-5) by blast
qed

lemma blocks_ok_removed:
  assumes wf: "bs_wf (blocks t)" and r: "removed S (blocks t) (blocks t')" and ok: "blocks_ok cfg t"
  shows "blocks_ok cfg t'"
proof (rule blocks_ok_sub [OF ok])
  show "\<exists>e. map_of (blocks t) x = Some e \<and> bm_block e = bm_block e'" if "map_of (blocks t') x = Some e'" for x e'
    using that removed_Some [OF r] by auto
  show "banc (blocks t) x y" if "banc (blocks t') x y" for x y using that removed_banc [OF wf r] by blast
qed

section \<open>A move of the tip\<close>

lemma from_block_tree_sound:
  assumes inv: "tree_inv t" and ok: "from_block_tree db t bi md pd = Inr m"
  shows "banc (blocks t) (bh_block_hash (fc_migration_block m)) (tip t)"
    and "bht (blocks t) (tip t) - md \<le> bht (blocks t) (bh_block_hash (fc_migration_block m))"
proof -
  let ?H = "bht (blocks t) (tip t)"
  let ?mig = "compute_migration_height ?H (max (chain_floor t) (?H - md)) (latest_height bi)"
  note fl = chain_floor_le [OF inv]
  have b: "chain_floor t \<le> ?mig" "?mig \<le> ?H" "?H - md \<le> ?mig"
    using fl by (simp_all add: compute_migration_height_def)
  obtain hdr e where hdr: "block_at_height db ?mig (fst (get_canonical_chain t)) t bi = Inr hdr" "bh_height hdr = ?mig"
    "map_of (blocks t) (bh_block_hash hdr) = Some e" "header_of e = hdr" "banc (blocks t) (bh_block_hash hdr) (tip t)"
    using block_at_chain_height [OF inv b(1,2)] by blast
  have "fc_migration_block m = hdr"
    using ok hdr(1) tree_safe_height_ok(1,2) [OF inv]
    by (auto simp: from_block_tree_def Let_def result_simps)
  then show "banc (blocks t) (bh_block_hash (fc_migration_block m)) (tip t)"
    "?H - md \<le> bht (blocks t) (bh_block_hash (fc_migration_block m))"
    using hdr b(3) by simp_all
qed

lemma describe_ok:
  assumes "describe_tip_move cfg nt m sp s = (Inr (Some mv), s')"
  shows "sv_cache s' = sv_cache s" and "tm_fcu_markers mv = m" and "tm_blocks_to_confirm mv = rs_new_divergent sp"
    and "(case tm_reorg_event mv of None \<Rightarrow> [] | Some ev \<Rightarrow> re_old_fork ev) = rs_old_divergent sp"
    and "sv_migration s' = sv_migration s \<or>
      recover_from_network_partition cfg (bh_height (sb_header (rs_lca sp))) (sv_migration s) = (Inr (), sv_migration s')"
  using assms
  by (auto simp: describe_tip_move_def Let_def case_prod_beta prod_eq_iff split: if_splits sum.splits)

lemma publish_ok_steps:
  assumes "publish_tip_move ops cfg mv s = (Inr (), s')"
  shows "sv_cache s' = sv_cache s" and "\<exists>mig.
    persist_metadata cfg (case tm_reorg_event mv of None \<Rightarrow> [] | Some ev \<Rightarrow> re_old_fork ev)
      (tm_blocks_to_confirm mv) (sv_migration s) = Inr mig \<and>
    migrate_blocks cfg (fc_migration_block (tm_fcu_markers mv)) (sv_cache s) mig = (Inr (), sv_migration s')"
proof -
  show "sv_cache s' = sv_cache s" using quiet_cache [OF quiet_publish, of ops cfg mv s] assms by simp
  obtain s1 s2 s3 s4 where
    1: "(case tm_epoch_block mv of None \<Rightarrow> (Inr (), s) | Some b \<Rightarrow> send_epoch_events ops b s) = (Inr (), s1)"
    and 2: "persist_tip_metadata cfg (case tm_reorg_event mv of None \<Rightarrow> [] | Some ev \<Rightarrow> re_old_fork ev)
        (tm_blocks_to_confirm mv) s1 = (Inr (), s2)"
    and 3: "emit_fcu (tm_fcu_markers mv)
        (case tm_reorg_event mv of None \<Rightarrow> s2 | Some ev \<Rightarrow> send (ReorgHappened ev) s2) = (Inr (), s3)"
    and 4: "migrate_block cfg (fc_migration_block (tm_fcu_markers mv))
        (fold (\<lambda>sb. send (BlockConfirmed sb)) (tm_blocks_to_confirm mv) s3) = (Inr (), s4)"
    and 5: "sv_migration s' = sv_migration s4"
    using assms unfolding publish_tip_move_def Let_def by (auto simp: sbind_Inr_iff)
  have m1: "sv_migration s1 = sv_migration s" "sv_cache s1 = sv_cache s"
    using 1 send_epoch_events_migration [of ops _ s] quiet_cache [OF quiet_send_epoch_events [OF refl], of ops _ s]
    by (auto split: option.splits) (metis snd_conv)+
  have m2: "persist_metadata cfg (case tm_reorg_event mv of None \<Rightarrow> [] | Some ev \<Rightarrow> re_old_fork ev)
      (tm_blocks_to_confirm mv) (sv_migration s) = Inr (sv_migration s2)" "sv_cache s2 = sv_cache s"
    using 2 m1 by (auto simp: persist_tip_metadata_def split: sum.splits)
  have m3: "sv_migration s3 = sv_migration s2" "sv_cache s3 = sv_cache s"
    using 3 m2(2) by (auto simp: emit_fcu_def split: if_splits option.splits)
  have "migrate_blocks cfg (fc_migration_block (tm_fcu_markers mv)) (sv_cache s) (sv_migration s2) = (Inr (), sv_migration s4)"
    using 4 m3 by (auto simp: migrate_block_def Let_def case_prod_beta prod_eq_iff)
  then show "\<exists>mig.
    persist_metadata cfg (case tm_reorg_event mv of None \<Rightarrow> [] | Some ev \<Rightarrow> re_old_fork ev)
      (tm_blocks_to_confirm mv) (sv_migration s) = Inr mig \<and>
    migrate_blocks cfg (fc_migration_block (tm_fcu_markers mv)) (sv_cache s) mig = (Inr (), sv_migration s')"
    using m2(1) 5 by auto
qed

definition config_ok :: "migration_config \<Rightarrow> bool" where
  "config_ok cfg \<longleftrightarrow> set_insert (mc_dup_ins cfg) \<and> 0 < mc_chunk_size cfg \<and>
     mc_block_migration_depth cfg < mc_block_tree_depth cfg"

definition canonical_inv :: "migration_config \<Rightarrow> ('e, 'c, 'm, 'i) service_state \<Rightarrow> bool" where
  "canonical_inv cfg s \<longleftrightarrow>
     service_inv cfg s \<and> blocks_ok cfg (sv_cache s) \<and>
     (\<exists>n. anchored cfg (sv_cache s) (ms_db (sv_migration s)) n)"

lemma recover_ok_cases:
  assumes wf: "index_wf (db_index (ms_db s)) n" "0 < n" and ok: "recover_from_network_partition cfg f s = (Inr (), s')"
  shows "s' = s \<or> f < n - 1 \<and> (\<exists>bi. truncate_to_height f (db_index (ms_db s)) = Inr bi \<and> ms_db s' = (ms_db s)\<lparr>db_index := bi\<rparr>)"
  using ok wf(2) index_wf_latest [OF wf(1)]
  by (auto simp: recover_from_network_partition_def Let_def split: if_splits sum.splits)

lemma rolled_rooted:
  assumes inv: "tree_inv t" and R: "rooted cfg t (ms_db s) n a"
    and a: "banc (blocks t) a old" and l: "banc (blocks t) l old"
    and s': "s' = s \<or> recover_from_network_partition cfg (bht (blocks t) l) s = (Inr (), s')"
  shows "\<exists>n' a'. rooted cfg t (ms_db s') n' a' \<and> banc (blocks t) a' old"
proof -
  note D = rootedD [OF R] and wf = tree_invD(1) [OF inv]
  consider "s' = s" | bi where "bht (blocks t) l < n - 1" "truncate_to_height (bht (blocks t) l) (db_index (ms_db s)) = Inr bi"
    "ms_db s' = (ms_db s)\<lparr>db_index := bi\<rparr>"
    using s' recover_ok_cases [OF tables_wfD(1) [OF D(1)] D(2)] by blast
  then show ?thesis
  proof cases
    case 1
    then show ?thesis using R a by blast
  next
    case 2
    have "banc (blocks t) l a" using banc_below [OF wf l a] 2(1) D(5) by simp
    then show ?thesis using rooted_truncated [OF inv R _ 2(2)] 2(3) l by auto
  qed
qed

lemma branch_restate:
  assumes "restate bs r" and "bs_wf bs" and "banc bs a h" and "b \<in> set (branch bs a h)"
  shows "\<exists>x e. map_of r x = Some e \<and> b = bm_block e \<and> banc bs a x \<and> a \<noteq> x \<and> banc bs x h"
proof -
  obtain x e where x: "map_of bs x = Some e" "b = bm_block e" "banc bs a x" "a \<noteq> x" "banc bs x h"
    using branch_member [OF assms(2-4)] by blast
  then show ?thesis using restate_entry [OF assms(1) x(1)] by fastforce
qed

lemma published_rooted:
  assumes cfg: "config_ok cfg" and inv: "tree_inv t" and ok: "blocks_ok cfg t"
    and R: "rooted cfg t (ms_db s) n a" and a: "banc (blocks t) a old"
    and l: "banc (blocks t) l old" "\<And>x. banc (blocks t) x h \<Longrightarrow> banc (blocks t) x old \<Longrightarrow> banc (blocks t) x l"
    and clear: "\<And>b. b \<in> set clear \<Longrightarrow> \<exists>x e. map_of (blocks t) x = Some e \<and> b = bm_block e \<and> banc (blocks t) l x \<and> l \<noteq> x"
    and m: "persist_metadata cfg clear new s = Inr s1" "migrate_blocks cfg mb t' s1 = (Inr (), s2)"
    and t': "submap (blocks t') (blocks t)" and mb: "banc (blocks t) (bh_block_hash mb) h"
  shows "rooted cfg t (ms_db s2) (Suc (bht (blocks t) (bh_block_hash mb))) (bh_block_hash mb)"
proof -
  note D = rootedD [OF R]
  have c: "cleared cfg (map sb_header clear) (ms_db s) (ms_db s1)"
  proof -
    have "list_all (\<lambda>b. ensure_header_body_consistent b = Inr ()) (clear @ new)"
      using persist_metadata_mismatch [of clear new cfg s] m(1) by auto
    from persist_metadata_ok [OF this, of cfg s] show ?thesis using m(1) by auto
  qed
  then have ix: "db_index (ms_db s1) = db_index (ms_db s)" by (simp add: cleared_def)
  have iw: "index_wf (db_index (ms_db s1)) n" using tables_wfD(1) [OF D(1)] ix by simp
  have a1: "index_tip (db_index (ms_db s1)) n = a" using D(3) ix by simp
  note lift = migrate_lift [OF t' iw D(2) _ m(2), unfolded a1, OF D(4)]
  have al: "banc (blocks t) a l" using l(2) [OF banc_trans [OF lift(2) mb] a] .
  have R1: "rooted cfg t (ms_db s1) n a"
  proof (rule rooted_cleared [OF inv ok R c])
    fix b assume "b \<in> set (map sb_header clear)"
    then obtain sb where sb: "sb \<in> set clear" "b = sb_header sb" by auto
    obtain x e where x: "map_of (blocks t) x = Some e" "sb = bm_block e" "banc (blocks t) l x" "l \<noteq> x"
      using clear [OF sb(1)] by blast
    have "banc (blocks t) a x" by (rule banc_trans [OF al x(3)])
    moreover have "a \<noteq> x" using al x(3,4) banc_antisym [OF tree_invD(1) [OF inv]] by blast
    ultimately show "\<exists>x e. map_of (blocks t) x = Some e \<and> b = header_of e \<and> banc (blocks t) a x \<and> a \<noteq> x"
      using x(1,2) sb(2) by blast
  qed
  have "set_insert (mc_dup_ins cfg)" "0 < mc_chunk_size cfg" using cfg by (simp_all add: config_ok_def)
  from rooted_migrated [OF this inv ok R1 lift(2,1)] show ?thesis .
qed

lemma move_ok_steps:
  assumes inv: "service_inv cfg s" and h: "all_valid (blocks (sv_cache s)) h" "h \<in> bdom (blocks (sv_cache s))"
    and mv: "try_move_tip_to cfg h s = (Inr (Some mv), s1)" and pub: "publish_tip_move ops cfg mv s1 = (Inr (), s2)"
  obtains l t1 t2 m mig where "fork_point (sv_cache s) l h" "retipped (sv_cache s) h t1"
    "pruned (mc_block_tree_depth cfg - 1) t1 t2" "sv_cache s2 = t2"
    "from_block_tree (header_in_db (ms_db (sv_migration s))) t1 (svc_index s)
      (mc_block_migration_depth cfg) (mc_block_tree_depth cfg) = Inr m"
    "sv_migration s1 = sv_migration s \<or>
      recover_from_network_partition cfg (bht (blocks (sv_cache s)) l) (sv_migration s) = (Inr (), sv_migration s1)"
    "persist_metadata cfg (branch (blocks (sv_cache s)) l (tip (sv_cache s))) (branch (blocks (sv_cache s)) l h)
      (sv_migration s1) = Inr mig"
    "migrate_blocks cfg (fc_migration_block m) t2 mig = (Inr (), sv_migration s2)"
proof -
  let ?t = "sv_cache s"
  have hv: "heavier ?t h" using try_move_stays [OF inv h(2)] mv by fastforce
  obtain l where l: "fork_point ?t l h" and
    cases: "if bht (blocks ?t) l < window_floor cfg ?t h
     then try_move_tip_to cfg h s = (Inl (OutsideCacheWindow (bht (blocks ?t) l) (window_floor cfg ?t h)), s)
     else \<exists>t1 t2. retipped ?t h t1 \<and> pruned (mc_block_tree_depth cfg - 1) t1 t2 \<and>
       try_move_tip_to cfg h s = move_result cfg h l t1 t2 s"
    using try_move_cases [OF inv h(1) hv] by blast
  obtain t1 t2 where t1: "retipped ?t h t1" and t2: "pruned (mc_block_tree_depth cfg - 1) t1 t2"
    and run: "move_result cfg h l t1 t2 s = (Inr (Some mv), s1)"
    using cases mv by (auto split: if_splits)
  have "banc (blocks ?t) l h" using l unfolding fork_point_def by blast
  from anc_nodes(1) [OF this] obtain le where le: "map_of (blocks ?t) l = Some le" by blast
  obtain m where m: "from_block_tree (header_in_db (ms_db (sv_migration s))) t1 (svc_index s)
      (mc_block_migration_depth cfg) (mc_block_tree_depth cfg) = Inr m"
    and d: "describe_tip_move cfg (header_of (the (map_of (blocks ?t) h))) m
      \<lparr>rs_lca = bm_block le, rs_old_divergent = branch (blocks ?t) l (tip ?t), rs_new_divergent = branch (blocks ?t) l h\<rparr>
      (s\<lparr>sv_cache := t2\<rparr>) = (Inr (Some mv), s1)"
    using run le by (auto simp: move_result_def split: sum.splits)
  note d = describe_ok [OF d, simplified] and p = publish_ok_steps [OF pub]
  obtain mig where mig: "persist_metadata cfg (branch (blocks ?t) l (tip ?t)) (branch (blocks ?t) l h) (sv_migration s1) = Inr mig"
    "migrate_blocks cfg (fc_migration_block m) t2 mig = (Inr (), sv_migration s2)"
    using p(2) d(1-4) by auto
  show ?thesis
    by (rule that [OF l t1 t2 _ m _ mig]) (use p(1) d(1,5) le in simp_all)
qed

lemma pruned_anchored:
  assumes cfg: "config_ok cfg" and inv: "tree_inv t1" and ok: "blocks_ok cfg t1" and p: "pruned (mc_block_tree_depth cfg - 1) t1 t2"
    and R: "rooted cfg t1 db n mb" and mb: "banc (blocks t1) mb (tip t1)"
      "bht (blocks t1) (tip t1) - mc_block_migration_depth cfg \<le> bht (blocks t1) mb"
  shows "rooted cfg t2 db n mb" and "banc (blocks t2) mb (tip t2)" and "blocks_ok cfg t2"
proof -
  note wf = tree_invD(1) [OF inv]
  obtain k where k: "banc (blocks t1) k (tip t1)"
    "bht (blocks t1) k = bht (blocks t1) (tip t1) - (mc_block_tree_depth cfg - 1) \<or> root (blocks t1) k"
    "kept k (blocks t1) (blocks t2)"
    using p unfolding pruned_def by blast
  have "banc (blocks t1) k mb"
  proof (cases "root (blocks t1) k")
    case True
    then show ?thesis using anc_nodes(1) [OF mb(1)] by (auto simp: root_def)
  next
    case False
    then have "bht (blocks t1) k \<le> bht (blocks t1) mb" using k(2) mb(2) cfg by (auto simp: config_ok_def)
    then show ?thesis by (rule banc_below [OF wf k(1) mb(1)])
  qed
  note R2 = rooted_kept [OF inv ok R k(3) anc_nodes(1) [OF k(1)] this]
  show "rooted cfg t2 db n mb" by (rule R2)
  show "banc (blocks t2) mb (tip t2)"
    using kept_banc [OF wf k(3) rootedD(4) [OF R2]] mb(1) p by (simp add: pruned_def)
  show "blocks_ok cfg t2" by (rule blocks_ok_removed [OF wf k(3) ok])
qed

lemma canonicalI:
  "service_inv cfg s \<Longrightarrow> blocks_ok cfg (sv_cache s) \<Longrightarrow> rooted cfg (sv_cache s) (ms_db (sv_migration s)) n a \<Longrightarrow>
   banc (blocks (sv_cache s)) a (tip (sv_cache s)) \<Longrightarrow> canonical_inv cfg s"
  unfolding canonical_inv_def anchored_def using rootedD(3) by blast

lemma canonicalE:
  assumes "canonical_inv cfg s"
  obtains n a where "service_inv cfg s" "blocks_ok cfg (sv_cache s)"
    "rooted cfg (sv_cache s) (ms_db (sv_migration s)) n a" "banc (blocks (sv_cache s)) a (tip (sv_cache s))"
  using assms unfolding canonical_inv_def anchored_def by blast

lemma move_keeps_canonical:
  assumes cfg: "config_ok cfg" and C: "canonical_inv cfg s"
    and h: "all_valid (blocks (sv_cache s)) h" "h \<in> bdom (blocks (sv_cache s))"
    and mv: "try_move_tip_to cfg h s = (Inr (Some mv), s1)" and pub: "publish_tip_move ops cfg mv s1 = (Inr (), s2)"
  shows "canonical_inv cfg s2"
proof -
  let ?t = "sv_cache s"
  obtain n a where inv: "service_inv cfg s" and ok: "blocks_ok cfg ?t"
    and R: "rooted cfg ?t (ms_db (sv_migration s)) n a" "banc (blocks ?t) a (tip ?t)"
    using canonicalE [OF C] by blast
  obtain l t1 t2 m mig where l: "fork_point ?t l h" and t1: "retipped ?t h t1"
    and t2: "pruned (mc_block_tree_depth cfg - 1) t1 t2" "sv_cache s2 = t2"
    and m: "from_block_tree (header_in_db (ms_db (sv_migration s))) t1 (svc_index s)
      (mc_block_migration_depth cfg) (mc_block_tree_depth cfg) = Inr m"
    and rec: "sv_migration s1 = sv_migration s \<or>
      recover_from_network_partition cfg (bht (blocks ?t) l) (sv_migration s) = (Inr (), sv_migration s1)"
    and mig: "persist_metadata cfg (branch (blocks ?t) l (tip ?t)) (branch (blocks ?t) l h) (sv_migration s1) = Inr mig"
      "migrate_blocks cfg (fc_migration_block m) t2 mig = (Inr (), sv_migration s2)"
    by (rule move_ok_steps [OF inv h mv pub])
  have inv1: "tree_inv t1" "tip t1 = h" and re: "restate (blocks ?t) (blocks t1)"
    using t1 remarked_restate unfolding retipped_def by blast+
  note wf1 = tree_invD(1) [OF inv1(1)] and wf = tree_invD(1) [OF service_invD(1) [OF inv]] and bt = restate_banc [OF re]
  have lb: "banc (blocks ?t) l (tip ?t)" "\<And>x. banc (blocks ?t) x h \<Longrightarrow> banc (blocks ?t) x (tip ?t) \<Longrightarrow> banc (blocks ?t) x l"
    using l unfolding fork_point_def by blast+
  have mb: "banc (blocks t1) (bh_block_hash (fc_migration_block m)) h"
    using from_block_tree_sound(1) [OF inv1(1) m] inv1(2) by simp
  from rolled_rooted [OF inv1(1) rooted_restate [OF re R(1)] R(2) [folded bt] lb(1) [folded bt] rec [folded restate_bht [OF re]]]
  obtain n' a' where R': "rooted cfg t1 (ms_db (sv_migration s1)) n' a'" "banc (blocks t1) a' (tip ?t)" by blast
  have sub: "submap (blocks t2) (blocks t1)"
    by (rule pruned_submap [OF wf1 t2(1)])
  note ok1 = blocks_ok_restate [OF re ok]
  have cl: "\<exists>x e. map_of (blocks t1) x = Some e \<and> b = bm_block e \<and> banc (blocks t1) l x \<and> l \<noteq> x"
    if "b \<in> set (branch (blocks ?t) l (tip ?t))" for b
    using branch_restate [OF re wf lb(1) that] unfolding bt by blast
  note R2 = published_rooted [OF cfg inv1(1) ok1 R' lb(1) [folded bt] lb(2) [folded bt] cl mig sub mb]
  note P = pruned_anchored [OF cfg inv1(1) ok1 t2(1) R2 from_block_tree_sound [OF inv1(1) m]]
  have "service_inv cfg s2"
    using pruned_inv [OF inv t1 t2(1)] t2(2) by (simp add: service_inv_def)
  then show ?thesis by (rule canonicalI) (use P t2(2) in simp_all)
qed

section \<open>The other changes of the tree\<close>

lemma canonical_send [simp]: "canonical_inv cfg (send m s) = canonical_inv cfg s"
  by (simp add: canonical_inv_def)

definition new_block_ok :: "migration_config \<Rightarrow> ('e, 'c, 'm, 'i) service_state \<Rightarrow> irys_block_header \<Rightarrow> bool" where
  "new_block_ok cfg s b \<longleftrightarrow>
     (\<forall>pe. map_of (blocks (sv_cache s)) (bh_previous_block_hash b) = Some pe \<longrightarrow> ledgers_grow (header_of pe) b) \<and>
     (\<forall>x xe. banc (blocks (sv_cache s)) x (bh_previous_block_hash b) \<longrightarrow> map_of (blocks (sv_cache s)) x = Some xe \<longrightarrow>
        txs_apart cfg (header_of xe) b) \<and>
     (\<forall>h hdr. below_tree (sv_cache s) h \<longrightarrow> indexed_header (ms_db (sv_migration s)) h = Some hdr \<longrightarrow> txs_apart cfg hdr b)"

lemma new_block_okD:
  assumes "new_block_ok cfg s b"
  shows "map_of (blocks (sv_cache s)) (bh_previous_block_hash b) = Some pe \<Longrightarrow> ledgers_grow (header_of pe) b"
    and "banc (blocks (sv_cache s)) x (bh_previous_block_hash b) \<Longrightarrow> map_of (blocks (sv_cache s)) x = Some xe \<Longrightarrow>
        txs_apart cfg (header_of xe) b"
    and "below_tree (sv_cache s) h \<Longrightarrow> indexed_header (ms_db (sv_migration s)) h = Some hdr \<Longrightarrow> txs_apart cfg hdr b"
  using assms unfolding new_block_ok_def by blast+

lemma blocks_ok_grown:
  assumes ok: "blocks_ok cfg (sv_cache s)" and g: "grown (blocks (sv_cache s)) e (blocks t')"
    and n: "new_block_ok cfg s (header_of e)"
  shows "blocks_ok cfg t'"
  unfolding blocks_ok_def
proof (intro conjI allI impI)
  let ?bs = "blocks (sv_cache s)" and ?n = "bh_block_hash (header_of e)"
  note nD = new_block_okD [OF n]
  have ext: "map_of ?bs ?n = None" "\<And>x xe. map_of ?bs x = Some xe \<Longrightarrow> parent_of xe \<noteq> ?n"
    using grownD(4) [OF g] unfolding extends_def by blast+
  have old: "\<exists>xe. map_of ?bs x = Some xe \<and> bm_block xe = bm_block xe'" if "map_of (blocks t') x = Some xe'" "x \<noteq> ?n" for x xe'
    using grown_lookup_old [OF g that(1)] that(2) by blast
  have new: "xe' = e" if "map_of (blocks t') ?n = Some xe'" for xe' using grown_new [OF g] that by simp
  { fix h e' pe'
    assume h: "map_of (blocks t') h = Some e'" and p: "map_of (blocks t') (parent_of e') = Some pe'"
    show "ledgers_grow (header_of pe') (header_of e')"
    proof (cases "h = ?n")
      case True
      then have "e' = e" using new h by blast
      moreover have "parent_of e \<noteq> ?n" using extends_prev(1) [OF grownD(4) [OF g]] .
      ultimately obtain pe where "map_of ?bs (parent_of e) = Some pe" "bm_block pe = bm_block pe'" using old [of "parent_of e"] p by blast
      then show ?thesis using nD(1) \<open>e' = e\<close> by metis
    next
      case False
      then obtain e0 where e0: "map_of ?bs h = Some e0" "bm_block e0 = bm_block e'" using old h by blast
      then have "parent_of e' \<noteq> ?n" using ext(2) by metis
      then obtain pe where pe: "map_of ?bs (parent_of e') = Some pe" "bm_block pe = bm_block pe'" using old p by blast
      then have "ledgers_grow (header_of pe) (header_of e0)" using ok e0 unfolding blocks_ok_def by metis
      then show ?thesis by (simp add: e0 pe)
    qed }
  { fix x y xe' ye'
    assume xy: "banc (blocks t') x y" "x \<noteq> y" and x: "map_of (blocks t') x = Some xe'" and y: "map_of (blocks t') y = Some ye'"
    show "txs_apart cfg (header_of xe') (header_of ye')"
    proof (cases "y = ?n")
      case True
      then have b: "banc ?bs x (parent_of e)" using grown_banc_new [OF g] xy by blast
      then have "x \<noteq> ?n" using anc_nodes(1) [OF b] ext(1) by auto
      then obtain xe where "map_of ?bs x = Some xe" "bm_block xe = bm_block xe'" using old x by blast
      then show ?thesis using nD(2) [OF b] new y True by metis
    next
      case False
      then obtain ye where ye: "map_of ?bs y = Some ye" "bm_block ye = bm_block ye'" using old y by blast
      then have b: "banc ?bs x y" using grown_banc_old [OF g, of y x] xy(1) by blast
      then have "x \<noteq> ?n" using anc_nodes(1) [OF b] ext(1) by auto
      then obtain xe where xe: "map_of ?bs x = Some xe" "bm_block xe = bm_block xe'" using old x by blast
      have "txs_apart cfg (header_of xe) (header_of ye)" using ok b xy(2) xe(1) ye(1) unfolding blocks_ok_def by blast
      then show ?thesis by (simp add: xe ye)
    qed }
qed

lemma rooted_grown:
  assumes R: "rooted cfg (sv_cache s) (ms_db (sv_migration s)) n a" and g: "grown (blocks (sv_cache s)) e (blocks t')"
    and nb: "new_block_ok cfg s (header_of e)"
  shows "rooted cfg t' (ms_db (sv_migration s)) n a"
proof -
  let ?bs = "blocks (sv_cache s)" and ?bs' = "blocks t'"
  note D = rootedD [OF R]
  have ht: "bht ?bs' x = bht ?bs x" if "x \<in> bdom ?bs" for x
    using that grown_old [OF g] by fastforce
  have dom: "bdom ?bs' = insert (bh_block_hash (header_of e)) (bdom ?bs)" by (rule grown_dom [OF g])
  have bel: "below_tree (sv_cache s) h" if "below_tree t' h" for h
    using that ht unfolding below_tree_def dom by auto
  have anc: "banc ?bs' x a \<longleftrightarrow> banc ?bs x a" for x by (rule grown_banc_old [OF g D(4)])
  have "indexed_header (ms_db (sv_migration s)) (bht ?bs' x) = Some (stored (header_of e'))"
    if x: "banc ?bs x a" "map_of ?bs' x = Some e'" for x e'
  proof -
    obtain xe where xe: "map_of ?bs x = Some xe" using anc_nodes(1) [OF x(1)] by blast
    then have "bm_block xe = bm_block e'" using grown_old [OF g xe] x(2) by auto
    moreover have "bht ?bs' x = bht ?bs x" using ht xe by blast
    ultimately show ?thesis using D(6) [OF x(1) xe] by simp
  qed
  moreover have "txs_apart cfg hdr (header_of ye')"
    if "map_of ?bs' y = Some ye'" "below_tree t' h" "h < n" "indexed_header (ms_db (sv_migration s)) h = Some hdr" for y ye' h hdr
    using grown_lookup_old [OF g that(1)] D(7) [OF _ bel [OF that(2)] that(3,4), of y]
      new_block_okD(3) [OF nb bel [OF that(2)] that(4)] by metis
  ultimately show ?thesis
    unfolding rooted_def anc using D(1-5) ht [OF D(4)] dom by simp
qed

end
