(* ===== verification/Canonical_Steps.thy ===== *)
theory Canonical_Steps
  imports Canonical_Index
begin

text \<open>
  Every message that the block tree service handles without an error keeps \<open>canonical_inv\<close>, for any
  interleaving of new blocks, validation results and moves of the tip.
\<close>

section \<open>Discards\<close>

lemma rooted_discarded:
  assumes inv: "tree_inv t" and R: "rooted cfg t db n a" and a: "banc (blocks t) a (tip t)"
    and h: "\<not> onchain (blocks t) h" and r: "removed (subtrees (blocks t) {h}) (blocks t) (blocks t')"
  shows "rooted cfg t' db n a" and "banc (blocks t') a (tip t)"
proof -
  let ?bs = "blocks t" and ?bs' = "blocks t'"
  note D = rootedD [OF R] and wf = tree_invD(1) [OF inv] and C = tree_invD(2) [OF inv]
  have off: "\<not> banc ?bs h (tip t)" using h chain_inv_onchain [OF C] by blast
  have keep: "x \<notin> subtrees ?bs {h}" if "banc ?bs x (tip t)" for x
    using off banc_trans [OF _ that] by (auto simp: subtrees_def)
  have anc: "banc ?bs' x y \<longleftrightarrow> banc ?bs x y" if "banc ?bs y (tip t)" for x y
    using removed_banc [OF wf r] keep banc_trans [OF _ that] by blast
  show "banc ?bs' a (tip t)" using anc [of "tip t" a] a anc_refl [OF anc_nodes(2) [OF a]] by blast
  have dom: "bdom ?bs' = bdom ?bs - subtrees ?bs {h}" by (rule removed_dom [OF r])
  have a': "a \<in> bdom ?bs'" using D(4) keep [OF a] dom by blast
  have old: "\<exists>e. map_of ?bs x = Some e \<and> header_of e = header_of e'" if "map_of ?bs' x = Some e'" for x e'
    using that removed_Some [OF r] by auto
  have bel: "below_tree t k" if b: "below_tree t' k" for k
  proof -
    obtain z where z: "root ?bs z" using root_exists [OF inv] by blast
    then have up: "banc ?bs z x" if "x \<in> bdom ?bs" for x using that by (auto simp: root_def)
    have zt: "banc ?bs z (tip t)" by (rule up [OF anc_nodes(2) [OF a]])
    have z': "z \<in> bdom ?bs'" using anc_nodes(1) [OF zt] keep [OF zt] dom by blast
    with b have "k < bht ?bs' z" unfolding below_tree_def by blast
    then have "k < bht ?bs z" using removed_bht [OF r z'] by simp
    then show ?thesis unfolding below_tree_def using banc_ht [OF wf up] by (meson less_le_trans)
  qed
  have "indexed_header db (bht ?bs' x) = Some (stored (header_of e'))"
    if x: "banc ?bs' x a" "map_of ?bs' x = Some e'" for x e'
  proof -
    obtain e where e: "map_of ?bs x = Some e" "header_of e = header_of e'" using old [OF x(2)] by blast
    have "bht ?bs' x = bht ?bs x" by (rule removed_bht [OF r]) (use x(2) in blast)
    then show ?thesis using D(6) [OF _ e(1)] x(1) anc [OF a] e(2) by simp
  qed
  moreover have "txs_apart cfg hdr (header_of ye')"
    if "map_of ?bs' y = Some ye'" "below_tree t' k" "k < n" "indexed_header db k = Some hdr" for y ye' k hdr
    using old [OF that(1)] D(7) [OF _ bel [OF that(2)] that(3,4), of y] by metis
  ultimately show "rooted cfg t' db n a"
    unfolding rooted_def using D(1-3,5) a' removed_bht [OF r a'] by simp
qed

lemma canonical_discard:
  assumes C: "canonical_inv cfg s" and d: "discard_and_broadcast h r kind s = (Inr (), s')"
  shows "canonical_inv cfg s'"
proof -
  let ?t = "sv_cache s"
  obtain n a where inv: "service_inv cfg s" and ok: "blocks_ok cfg ?t"
    and R: "rooted cfg ?t (ms_db (sv_migration s)) n a" "banc (blocks ?t) a (tip ?t)"
    by (rule canonicalE [OF C])
  note I = service_invD(1) [OF inv]
  have inv': "service_inv cfg s'" using discard_inv [OF inv, of h r kind] d by (simp add: keeps_inv_def)
  show ?thesis
  proof (cases "onchain (blocks ?t) h \<or> map_of (blocks ?t) h = None")
    case True
    then have "sv_cache s' = ?t" "sv_migration s' = sv_migration s"
      using d by (auto simp: discard_and_broadcast_def Let_def get_block_def get_block_and_status_def block_state_def
          onchain_def remove_block_def split: if_splits)
    then show ?thesis using C inv' by (simp add: canonical_inv_def)
  next
    case False
    then obtain e where e: "map_of (blocks ?t) h = Some e" "bm_chain_state e \<noteq> Onchain" by (auto simp: onchain_def)
    obtain t' where t': "remove_block h ?t = (Inr (), t')"
      "removed (subtrees (blocks ?t) {h}) (blocks ?t) (blocks t')" "same_frame ?t t'"
      using remove_block_ok [OF I e] by blast
    have s': "sv_cache s' = t'" "sv_migration s' = sv_migration s"
      using d t'(1) e by (auto simp: discard_and_broadcast_def Let_def get_block_def get_block_and_status_def split: if_splits)
    from False have "\<not> onchain (blocks ?t) h" by blast
    note R' = rooted_discarded [OF I R this t'(2)]
    have "blocks_ok cfg t'" by (rule blocks_ok_removed [OF tree_invD(1) [OF I] t'(2) ok])
    then show ?thesis
      using canonicalI [OF inv'] R' s' t'(3) by (simp add: same_frame_def)
  qed
qed

section \<open>Moves of the tip\<close>

definition ok_canonical ::
  "migration_config \<Rightarrow> (service_error + 'a) \<times> ('e, 'c, 'm, 'i) service_state \<Rightarrow> bool"
where
  "ok_canonical cfg m \<longleftrightarrow> (\<forall>x. fst m = Inr x \<longrightarrow> canonical_inv cfg (snd m))"

lemma ok_canonicalI: "canonical_inv cfg s \<Longrightarrow> ok_canonical cfg (r, s)"
  by (simp add: ok_canonical_def)

lemma ok_canonical_error [simp]: "ok_canonical cfg (Inl e, s)"
  by (simp add: ok_canonical_def)

lemma ok_canonical_sbind:
  assumes "\<And>x s'. m = (Inr x, s') \<Longrightarrow> ok_canonical cfg (f x s')"
  shows "ok_canonical cfg (sbind m f)"
  using assms by (cases m; cases "fst m") auto

lemma try_move_None:
  assumes inv: "service_inv cfg s" and h: "all_valid (blocks (sv_cache s)) h" "h \<in> bdom (blocks (sv_cache s))"
    and n: "try_move_tip_to cfg h s = (Inr None, s')"
  shows "s' = s"
proof (cases "heavier (sv_cache s) h")
  case True
  have "fst (move_result cfg h l t1 t2 s) \<noteq> Inr None" for l t1 t2
    by (auto simp: move_result_def describe_tip_move_def Let_def split: sum.splits prod.splits)
  moreover have "fst (try_move_tip_to cfg h s) = Inr None" using n by simp
  ultimately show ?thesis using try_move_cases [OF inv h(1) True] by (metis fst_conv Inl_Inr_False)
qed (use try_move_stays [OF inv h(2)] n in simp)

lemma ok_canonical_move:
  assumes cfg: "config_ok cfg" and C: "canonical_inv cfg s"
    and h: "all_valid (blocks (sv_cache s)) h" "h \<in> bdom (blocks (sv_cache s))"
    and none: "ok_canonical cfg (f None s)"
    and some: "\<And>mv s1. ok_canonical cfg (publish_tip_move ops cfg mv s1) \<Longrightarrow> ok_canonical cfg (f (Some mv) s1)"
  shows "ok_canonical cfg (sbind (try_move_tip_to cfg h s) f)"
proof (rule ok_canonical_sbind)
  fix x s1 assume m: "try_move_tip_to cfg h s = (Inr x, s1)"
  have inv: "service_inv cfg s" using C by (simp add: canonical_inv_def)
  show "ok_canonical cfg (f x s1)"
  proof (cases x)
    case None
    then show ?thesis using try_move_None [OF inv h] m none by blast
  next
    case (Some mv)
    have "ok_canonical cfg (publish_tip_move ops cfg mv s1)"
      using move_keeps_canonical [OF cfg C h m [unfolded Some]]
      by (cases "publish_tip_move ops cfg mv s1") (auto simp: ok_canonical_def)
    then show ?thesis using some Some by blast
  qed
qed

lemma ok_canonical_publish:
  assumes "ok_canonical cfg (publish_tip_move ops cfg mv s)" and "\<And>s'. canonical_inv cfg s' \<Longrightarrow> canonical_inv cfg (g s')"
  shows "ok_canonical cfg (sbind (publish_tip_move ops cfg mv s) (\<lambda>_ s'. (Inr (), g s')))"
  using assms by (intro ok_canonical_sbind) (simp add: ok_canonical_def)

lemma canonical_move_after_discard:
  assumes cfg: "config_ok cfg" and C: "canonical_inv cfg s"
  shows "ok_canonical cfg (move_tip_after_discard ops cfg s)"
proof -
  let ?t = "sv_cache s" and ?m = "snd (max_cumulative_difficulty (sv_cache s))"
  have inv: "service_inv cfg s" using C by (simp add: canonical_inv_def)
  note I = service_invD(1) [OF inv]
  have "ok_canonical cfg (sbind (try_move_tip_to cfg ?m s) (\<lambda>mv s.
        case mv of
          None \<Rightarrow> (Inr (), s)
        | Some mv \<Rightarrow>
            sbind (publish_tip_move ops cfg mv s) (\<lambda>_ s.
            (Inr (), send (state_updated (bh_block_hash (tm_new_tip mv)) (bh_height (tm_new_tip mv))
                             Onchain False Valid) s))))"
    if "get_max_chain_validated_head ?t = Inr (Some ?m)"
    by (rule ok_canonical_move [OF cfg C validated_head_max [OF I that] max_entry [OF I], where ops = ops])
      (simp_all add: ok_canonicalI [OF C] ok_canonical_publish)
  then show ?thesis
    using ok_canonicalI [OF C]
    by (auto simp: move_tip_after_discard_def Let_def split: sum.splits option.splits)
qed

lemma canonical_restated:
  assumes C: "canonical_inv cfg s" and inv: "service_inv cfg (s\<lparr>sv_cache := t'\<rparr>)"
    and re: "restate (blocks (sv_cache s)) (blocks t')" "tip t' = tip (sv_cache s)"
  shows "canonical_inv cfg (s\<lparr>sv_cache := t'\<rparr>)"
proof -
  obtain n a where ok: "blocks_ok cfg (sv_cache s)"
    and R: "rooted cfg (sv_cache s) (ms_db (sv_migration s)) n a" "banc (blocks (sv_cache s)) a (tip (sv_cache s))"
    by (rule canonicalE [OF C])
  show ?thesis
    by (rule canonicalI [OF inv])
      (use blocks_ok_restate [OF re(1) ok] rooted_restate [OF re(1) R(1)] R(2) re(2) restate_banc [OF re(1)] in simp_all)
qed

lemma canonical_persist_nothing:
  assumes C: "canonical_inv cfg s"
  shows "ok_canonical cfg (persist_tip_metadata cfg [] [] s)"
proof -
  obtain n a where inv: "service_inv cfg s" and ok: "blocks_ok cfg (sv_cache s)"
    and R: "rooted cfg (sv_cache s) (ms_db (sv_migration s)) n a" "banc (blocks (sv_cache s)) a (tip (sv_cache s))"
    by (rule canonicalE [OF C])
  obtain db' where db': "cleared cfg [] (ms_db (sv_migration s)) db'"
    "persist_metadata cfg [] [] (sv_migration s) = Inr ((sv_migration s)\<lparr>ms_db := db',
       ms_cached_data_roots := ms_cached_data_roots (sv_migration s)\<rparr>)"
    using persist_metadata_ok [of "[]" "[]" cfg "sv_migration s"] by auto
  have "rooted cfg (sv_cache s) db' n a"
    by (rule rooted_cleared [OF service_invD(1) [OF inv] ok R(1) db'(1)]) simp
  then have "canonical_inv cfg (s\<lparr>sv_migration := (sv_migration s)\<lparr>ms_db := db',
       ms_cached_data_roots := ms_cached_data_roots (sv_migration s)\<rparr>\<rparr>)"
    by (intro canonicalI [of _ _ n a]) (use inv ok R(2) in \<open>simp_all add: service_inv_def\<close>)
  then show ?thesis by (simp add: persist_tip_metadata_def db'(2) ok_canonicalI)
qed

section \<open>Validation results\<close>

lemma canonical_valid_block:
  assumes cfg: "config_ok cfg" and C: "canonical_inv cfg s" and pv: "parents_valid (sv_cache s) h"
  shows "ok_canonical cfg (on_valid_block ops cfg h s)"
proof (cases "map_of (blocks (sv_cache s)) h")
  case None
  then show ?thesis using C by (simp add: on_valid_block_def get_block_def ok_canonicalI)
next
  case (Some e)
  have inv: "service_inv cfg s" using C by (simp add: canonical_inv_def)
  note I = service_invD [OF inv]
  obtain te where te: "map_of (blocks (sv_cache s)) (tip (sv_cache s)) = Some te" using tip_entry [OF inv] by blast
  from marked_valid_cases [OF I(1,2) pv] show ?thesis
  proof (elim disjE exE conjE)
    fix er assume "mark_block_as_valid h (sv_cache s) = (Inl er, sv_cache s)"
    then show ?thesis using C Some te by (simp add: on_valid_block_def get_block_def Let_def ok_canonicalI)
  next
    fix t' assume t': "mark_block_as_valid h (sv_cache s) = (Inr (), t')" "tree_inv t'" "valid_closed (blocks t')"
      "restate (blocks (sv_cache s)) (blocks t')" "ready (blocks t') h" "tip t' = tip (sv_cache s)"
      "block_tree_depth t' = block_tree_depth (sv_cache s)"
    let ?s = "s\<lparr>sv_cache := t'\<rparr>"
    have "service_inv cfg ?s" using t' I(3) by (simp add: service_inv_def)
    note C' = canonical_restated [OF C this t'(4,6)]
    have h: "all_valid (blocks (sv_cache ?s)) h" "h \<in> bdom (blocks (sv_cache ?s))"
      using t'(3,5) by (auto simp: valid_closed_def ready_def)
    have "ok_canonical cfg (sbind (try_move_tip_to cfg h ?s) (\<lambda>mv s.
        let st = block_state h (sv_cache s) in
        sbind (case mv of
                 Some mv \<Rightarrow> publish_tip_move ops cfg mv s
               | None \<Rightarrow> persist_tip_metadata cfg [] [] s) (\<lambda>_ s.
        (Inr (), send (state_updated h (height_of e) st False Valid) s))))"
    proof (rule ok_canonical_move [OF cfg C' h, where ops = ops], unfold Let_def option.case)
      show "ok_canonical cfg (sbind (persist_tip_metadata cfg [] [] ?s)
          (\<lambda>_ s. (Inr (), send (state_updated h (height_of e) (block_state h (sv_cache ?s)) False Valid) s)))"
        using canonical_persist_nothing [OF C'] by (intro ok_canonical_sbind) (simp add: ok_canonical_def)
    qed (rule ok_canonical_publish, simp_all)
    then show ?thesis
      using Some te t'(1) C'
      by (auto simp: on_valid_block_def get_block_def Let_def ok_canonicalI split: sum.splits option.splits)
  qed
qed

lemma canonical_validation_finished:
  assumes cfg: "config_ok cfg" and C: "canonical_inv cfg s" and adm: "admissible (BlockValidationFinished h r) s"
  shows "ok_canonical cfg (on_block_validation_finished ops cfg h r s)"
proof -
  have d: "ok_canonical cfg (sbind (discard_and_broadcast h r k s) (\<lambda>_. move_tip_after_discard ops cfg))" for k
    by (rule ok_canonical_sbind, rule canonical_move_after_discard [OF cfg], rule canonical_discard [OF C]) simp
  show ?thesis
    using d canonical_valid_block [OF cfg C] adm
    by (cases r) (auto simp: on_block_validation_finished_def admissible_def)
qed

section \<open>New blocks\<close>

lemma scheduled_restate: "restate (blocks t) (blocks (mark_block_as_validation_scheduled h t))"
  by (auto simp: mark_block_as_validation_scheduled_def restate_set_state split: option.splits)

lemma canonical_prevalidated:
  assumes C: "canonical_inv cfg s" and adm: "admissible (BlockPreValidated now b skip) s"
    and nb: "new_block_ok cfg s (sb_header b)"
  shows "canonical_inv cfg (snd (on_block_prevalidated ops now b skip s))"
proof -
  let ?t = "sv_cache s"
  obtain n a where inv: "service_inv cfg s" and ok: "blocks_ok cfg ?t"
    and R: "rooted cfg ?t (ms_db (sv_migration s)) n a" "banc (blocks ?t) a (tip ?t)"
    by (rule canonicalE [OF C])
  note I = service_invD [OF inv]
  have new: "canonical_inv cfg (s\<lparr>sv_cache := mark_block_as_validation_scheduled h t'\<rparr>)"
    if g: "add_block now b cs es ms ?t = (Inr u, t')" and ext: "extends (blocks ?t) (sb_header b)" for h t' u cs es ms
  proof -
    let ?e = "new_entry now b cs es ms (next_insertion_sequence ?t)"
    have t': "tree_inv t'" "block_tree_depth t' = block_tree_depth ?t" "tip t' = tip ?t" "grown (blocks ?t) ?e (blocks t')"
      using add_block_frame [OF I(1) ext, of now cs es ms] g by auto
    have "valid_closed (blocks t')"
      by (rule valid_closed_grown [OF t'(4) _ I(2)]) (simp add: new_entry_def is_parent_ready_def)
    then have inv': "service_inv cfg (s\<lparr>sv_cache := t'\<rparr>)" using t' I(3) by (simp add: service_inv_def)
    have hd: "new_block_ok cfg s (header_of ?e)" using nb by (simp add: new_entry_def)
    have "banc (blocks t') a (tip t')"
      using grown_banc_old [OF t'(4) anc_nodes(2) [OF R(2)]] R(2) t'(3) by simp
    then have "canonical_inv cfg (s\<lparr>sv_cache := t'\<rparr>)"
      by (intro canonicalI [OF inv', of n a]) (use blocks_ok_grown [OF ok t'(4) hd] rooted_grown [OF R(1) t'(4) hd] in simp_all)
    moreover have "service_inv cfg (s\<lparr>sv_cache := mark_block_as_validation_scheduled h t'\<rparr>)"
      using inv' scheduled_frame [OF t'(1) \<open>valid_closed (blocks t')\<close>, of h] by (simp add: service_inv_def)
    ultimately show ?thesis
      using canonical_restated [of cfg "s\<lparr>sv_cache := t'\<rparr>" "mark_block_as_validation_scheduled h t'"]
        scheduled_restate [of t' h] scheduled_frame(4) [OF t'(1) \<open>valid_closed (blocks t')\<close>, of h] by simp
  qed
  show ?thesis
  proof (cases "get_block (hash_of b) ?t \<noteq> None \<or> bh_previous_block_hash (sb_header b) \<notin> bdom (blocks ?t)")
    case True
    then show ?thesis using C by (auto simp: on_block_prevalidated_def Let_def domIff)
  next
    case False
    then have ext: "extends (blocks ?t) (sb_header b)"
      using adm by (auto simp: admissible_def get_block_None domIff)
    have noerr: "add_block now b cs es ms ?t \<noteq> (Inl e, t')" for cs es ms e t'
      using add_block_frame [OF I(1) ext, of now cs es ms] by auto
    show ?thesis
      using False C noerr new [OF _ ext]
      by (auto simp: on_block_prevalidated_def Let_def split: option.splits sum.splits prod.splits)
  qed
qed

end
