(* ===== verification/Service_Runs.thy ===== *)
theory Service_Runs
  imports Canonical_Steps
begin

text \<open>
  Runs of the block tree service: what one message keeps is kept by the loop of the service for every
  sequence of messages. The locale \<open>outcome_inv\<close> is the contract between a handler and the loop that
  calls it; it is interpreted for the three contracts of \<open>handle_message\<close>.
\<close>

section \<open>Handlers and loops\<close>

text \<open>
  The messages of a run meet their guard when they arrive. The loop stops at the first error, so
  nothing is asked of the messages behind it.
\<close>

fun guarded ::
  "('x \<Rightarrow> 's \<Rightarrow> ('e + unit) \<times> 's) \<Rightarrow> ('x \<Rightarrow> 's \<Rightarrow> bool) \<Rightarrow> 'x list \<Rightarrow> 's \<Rightarrow> bool"
where
  "guarded step guard [] s = True"
| "guarded step guard (x # xs) s =
     (guard x s \<and> (case step x s of (Inl _, _) \<Rightarrow> True | (Inr _, s') \<Rightarrow> guarded step guard xs s'))"

locale outcome_inv =
  fixes step :: "'x \<Rightarrow> 's \<Rightarrow> ('e + unit) \<times> 's" and guard :: "'x \<Rightarrow> 's \<Rightarrow> bool"
    and good :: "('e + unit) \<times> 's \<Rightarrow> bool"
  assumes step_good: "good (Inr (), s) \<Longrightarrow> guard x s \<Longrightarrow> good (step x s)"
begin

lemma run_good: "good (Inr (), s) \<Longrightarrow> guarded step guard xs s \<Longrightarrow> good (st_fold step xs s)"
proof (induction xs arbitrary: s)
  case (Cons x xs)
  have x: "good (step x s)" using step_good Cons.prems by simp
  obtain r s' where m: "step x s = (r, s')" by fastforce
  show ?case
  proof (cases r)
    case (Inl e)
    then show ?thesis using x m by simp
  next
    case (Inr u)
    then show ?thesis using Cons.IH [of s'] Cons.prems(2) x m by simp
  qed
qed simp

end

section \<open>The contracts of the message handler\<close>

definition well_formed ::
  "(service_error + unit) \<times> migration_config \<times> ('e, 'c, 'm, 'i) service_state \<Rightarrow> bool"
where
  "well_formed m = (case m of (r, cfg, s) \<Rightarrow> service_inv cfg s \<and> no_tree_error r)"

definition steps_ledger ::
  "nat \<Rightarrow> h256 list \<Rightarrow> (service_error + unit) \<times> migration_config \<times> ('e, 'c, 'm, 'i) service_state \<Rightarrow> bool"
where
  "steps_ledger d xs m = (case m of (r, cfg, s) \<Rightarrow> rollback_depth cfg = d \<and> numbered (svc_index s) \<and>
     rtranclp (ledger_step d) xs (migrated_chain (svc_index s)))"

definition canonical_outcome ::
  "(service_error + unit) \<times> migration_config \<times> ('e, 'c, 'm, 'i) service_state \<Rightarrow> bool"
where
  "canonical_outcome m = (case m of (r, cfg, s) \<Rightarrow> config_ok cfg \<and> (r = Inr () \<longrightarrow> canonical_inv cfg s))"

definition admitted ::
  "request \<Rightarrow> migration_config \<times> ('e, 'c, 'm, 'i) service_state \<Rightarrow> bool"
where
  "admitted req cs = admissible req (snd cs)"

text \<open>A block that enters the tree extends the ledgers of its parent and repeats no transaction of its chain.\<close>

definition validated ::
  "request \<Rightarrow> migration_config \<times> ('e, 'c, 'm, 'i) service_state \<Rightarrow> bool"
where
  "validated req cs = (case cs of (cfg, s) \<Rightarrow> admissible req s \<and>
     (case req of BlockPreValidated _ b _ \<Rightarrow> new_block_ok cfg s (sb_header b) | _ \<Rightarrow> True))"

lemma keeps_well_formed:
  assumes "well_formed (Inr (), cs)" and "admitted req cs"
  shows "well_formed (handle_message ops req cs)"
proof -
  obtain cfg s where cs: "cs = (cfg, s)" by fastforce
  have inv: "service_inv cfg s" and adm: "admissible req s" using assms by (simp_all add: cs well_formed_def admitted_def)
  show ?thesis
  proof (cases req)
    case (BlockPreValidated now b skip)
    then show ?thesis using on_block_prevalidated_inv [OF inv] adm by (simp add: cs handle_message_def well_formed_def)
  next
    case (BlockValidationFinished h v)
    obtain r s' where m: "on_block_validation_finished ops cfg h v s = (r, s')" by fastforce
    show ?thesis
      using on_block_validation_finished_inv [OF inv, of h v ops] adm
      by (simp add: cs BlockValidationFinished handle_message_def well_formed_def m keeps_inv_def)
  qed (use inv in \<open>simp_all add: cs handle_message_def well_formed_def service_inv_def\<close>)
qed

lemma keeps_steps_ledger:
  assumes "steps_ledger d xs (Inr (), cs)"
  shows "steps_ledger d xs (handle_message ops req cs)"
proof -
  obtain cfg s where cs: "cs = (cfg, s)" by fastforce
  have nb: "numbered (svc_index s)" and rt: "rtranclp (ledger_step d) xs (migrated_chain (svc_index s))" and d: "rollback_depth cfg = d"
    using assms by (simp_all add: cs steps_ledger_def)
  show ?thesis
  proof (cases req)
    case (BlockPreValidated now b skip)
    then show ?thesis
      using nb rt d on_block_prevalidated_index [of ops now b skip s] by (simp add: cs handle_message_def steps_ledger_def)
  next
    case (BlockValidationFinished h v)
    obtain r s' where m: "on_block_validation_finished ops cfg h v s = (r, s')" by fastforce
    have "refines cfg s s'" using on_block_validation_finished_refines [OF nb, of cfg ops h v] m by simp
    then have "numbered (svc_index s')" "ledger_step d (migrated_chain (svc_index s)) (migrated_chain (svc_index s'))"
      by (simp_all add: refines_def d)
    then show ?thesis
      using rtranclp.rtrancl_into_rtrancl [OF rt] d
      by (simp add: cs BlockValidationFinished handle_message_def steps_ledger_def m)
  qed (use nb rt d in \<open>simp_all add: cs handle_message_def steps_ledger_def\<close>)
qed

lemma storage_guard_irrelevant:
  "canonical_inv (cfg\<lparr>mc_storage_modules_set := b\<rparr>) s = canonical_inv cfg s"
proof -
  have e: "is_non_genesis_epoch_block (cfg\<lparr>mc_storage_modules_set := b\<rparr>) h = is_non_genesis_epoch_block cfg h" for h
    by (simp add: is_non_genesis_epoch_block_def)
  then have "txs_apart (cfg\<lparr>mc_storage_modules_set := b\<rparr>) = txs_apart cfg"
    by (intro ext) (simp add: txs_apart_def)
  moreover have "rows_name (cfg\<lparr>mc_storage_modules_set := b\<rparr>) = rows_name cfg"
    by (intro ext) (simp add: rows_name_def e)
  then have "tables_wf (cfg\<lparr>mc_storage_modules_set := b\<rparr>) = tables_wf cfg"
    unfolding tables_wf_def fun_eq_iff by (simp only: simp_thms)
  ultimately show ?thesis
    by (simp add: canonical_inv_def service_inv_def blocks_ok_def anchored_def rooted_def)
qed

lemma keeps_canonical_outcome:
  assumes "canonical_outcome (Inr (), cs)" and "validated req cs"
  shows "canonical_outcome (handle_message ops req cs)"
proof -
  obtain cfg s where cs: "cs = (cfg, s)" by fastforce
  have cfg: "config_ok cfg" and C: "canonical_inv cfg s" and adm: "admissible req s"
    using assms by (simp_all add: cs canonical_outcome_def validated_def)
  show ?thesis
  proof (cases req)
    case (BlockPreValidated now b skip)
    then have "new_block_ok cfg s (sb_header b)" using assms(2) by (simp add: cs validated_def)
    then show ?thesis
      using canonical_prevalidated [OF C] adm cfg BlockPreValidated by (simp add: cs handle_message_def canonical_outcome_def)
  next
    case (BlockValidationFinished h v)
    obtain r s' where m: "on_block_validation_finished ops cfg h v s = (r, s')" by fastforce
    show ?thesis
      using canonical_validation_finished [OF cfg C, of h v ops] adm cfg
      by (simp add: cs BlockValidationFinished handle_message_def canonical_outcome_def m ok_canonical_def)
  qed (use cfg C in \<open>simp_all add: cs handle_message_def canonical_outcome_def config_ok_def storage_guard_irrelevant\<close>)
qed

interpretation safe: outcome_inv "handle_message ops" admitted well_formed
  for ops :: "('e, 'c, 'm, 'i) snapshot_ops"
  by unfold_locales (rule keeps_well_formed)

interpretation ledger: outcome_inv "handle_message ops" "\<lambda>_ _. True" "steps_ledger d xs"
  for ops :: "('e, 'c, 'm, 'i) snapshot_ops" and d xs
  by unfold_locales (rule keeps_steps_ledger)

interpretation canonical: outcome_inv "handle_message ops" validated canonical_outcome
  for ops :: "('e, 'c, 'm, 'i) snapshot_ops"
  by unfold_locales (rule keeps_canonical_outcome)

text \<open>The queue that is drained at shutdown is handled by the same contract.\<close>

interpretation drained: outcome_inv "drain_message ops" admitted well_formed
  for ops :: "('e, 'c, 'm, 'i) snapshot_ops"
proof unfold_locales
  fix s :: "migration_config \<times> ('e, 'c, 'm, 'i) service_state" and x
  assume s: "well_formed (Inr (), s)" and x: "admitted x s"
  show "well_formed (drain_message ops x s)"
    using s keeps_well_formed [OF s x, of ops]
    by (auto simp: drain_message_def well_formed_def split: request.splits validation_result.splits bool.splits)
qed

lemma guarded_True: "guarded step (\<lambda>_ _. True) xs s"
  by (induction xs arbitrary: s) (auto split: prod.splits sum.splits)

end
