(* ===== verification/Service_Props.thy ===== *)
theory Service_Props
  imports Service_Runs
begin

text \<open>
  The properties of the block tree service. The witnesses are runs of the service from genesis, which
  are evaluated message by message.
\<close>

section \<open>Checking the conditions on a run\<close>

definition admissible_check :: "request \<Rightarrow> ('e, 'c, 'm, 'i) service_state \<Rightarrow> bool" where
  "admissible_check req s =
     (let bs = blocks (sv_cache s) in
      case req of
        BlockPreValidated _ block _ \<Rightarrow>
          let hdr = sb_header block in
          map_of bs (bh_block_hash hdr) = None \<and>
          list_all (\<lambda>p. parent_of (snd p) \<noteq> bh_block_hash hdr) bs \<and>
          map_option (\<lambda>pe. bh_height hdr = Suc (height_of pe) \<and> diff_of pe < bh_cumulative_diff hdr)
            (map_of bs (bh_previous_block_hash hdr)) = Some True
      | BlockValidationFinished h Valid \<Rightarrow>
          list_all (\<lambda>p. fst p = h \<or> is_parent_ready (bm_chain_state (snd p))) (ancestry bs h)
      | _ \<Rightarrow> True)"

lemma admissible_check_ok:
  assumes wf: "bs_wf (blocks (sv_cache s))" and c: "admissible_check req s"
  shows "admissible req s"
proof -
  have "parents_valid (sv_cache s) h"
    if l: "list_all (\<lambda>p. fst p = h \<or> is_parent_ready (bm_chain_state (snd p))) (ancestry (blocks (sv_cache s)) h)" for h
    unfolding parents_valid_def
  proof (intro allI impI)
    fix y assume y: "banc (blocks (sv_cache s)) y h" "y \<noteq> h"
    obtain e where e: "map_of (blocks (sv_cache s)) y = Some e" using anc_nodes(1) [OF y(1)] by blast
    then have "(y, e) \<in> set (ancestry (blocks (sv_cache s)) h)" using ancestry_set [OF wf] y(1) by blast
    then show "ready (blocks (sv_cache s)) y" using l y(2) e by (auto simp: list_all_iff ready_def)
  qed
  then show ?thesis
    using c extendsI unfolding admissible_check_def admissible_def Let_def
    by (auto split: request.splits validation_result.splits)
qed

definition validated_check ::
  "request \<Rightarrow> migration_config \<times> ('e, 'c, 'm, 'i) service_state \<Rightarrow> bool"
where
  "validated_check req cs =
     (let (cfg, s) = cs; bs = blocks (sv_cache s); db = ms_db (sv_migration s) in
      admissible_check req s \<and>
      (case req of
         BlockPreValidated _ block _ \<Rightarrow>
           let b = sb_header block in
           (case map_of bs (bh_previous_block_hash b) of
              None \<Rightarrow> True | Some pe \<Rightarrow> ledgers_grow (header_of pe) b) \<and>
           list_all (\<lambda>p. txs_apart cfg (header_of (snd p)) b) (ancestry bs (bh_previous_block_hash b)) \<and>
           list_all (\<lambda>p. list_ex (\<lambda>q. height_of (snd q) \<le> fst p) bs \<or>
             (case indexed_header db (fst p) of None \<Rightarrow> True | Some hdr \<Rightarrow> txs_apart cfg hdr b))
             (bi_hashes (db_index db))
       | _ \<Rightarrow> True))"

lemma new_block_check:
  assumes wf: "bs_wf (blocks (sv_cache s))"
    and c: "validated_check (BlockPreValidated now block skip) (cfg, s)"
  shows "new_block_ok cfg s (sb_header block)"
  unfolding new_block_ok_def
proof (intro conjI allI impI)
  let ?bs = "blocks (sv_cache s)" and ?b = "sb_header block" and ?db = "ms_db (sv_migration s)"
  note c = c [unfolded validated_check_def Let_def, simplified]
  show "ledgers_grow (header_of pe) ?b" if "map_of ?bs (bh_previous_block_hash ?b) = Some pe" for pe
    using c that by simp
  show "txs_apart cfg (header_of xe) ?b"
    if "banc ?bs x (bh_previous_block_hash ?b)" "map_of ?bs x = Some xe" for x xe
    using c ancestry_set [OF wf, of x xe "bh_previous_block_hash ?b"] that by (auto simp: list_all_iff)
  show "txs_apart cfg hdr ?b" if b: "below_tree (sv_cache s) h" and i: "indexed_header ?db h = Some hdr" for h hdr
  proof -
    obtain x where "(h, x) \<in> set (bi_hashes (db_index ?db))"
      using i by (auto simp: indexed_header_def Option.bind_eq_Some_conv dest: map_of_SomeD)
    moreover have "\<not> height_of e \<le> h" if "(y, e) \<in> set ?bs" for y e
    proof -
      have "map_of ?bs y = Some e" using wf that by (simp add: bs_wf_def)
      then have "h < bht ?bs y" using b unfolding below_tree_def by blast
      then show ?thesis using \<open>map_of ?bs y = Some e\<close> by simp
    qed
    ultimately show ?thesis using c i by (fastforce simp: list_all_iff list_ex_iff)
  qed
qed

lemma guarded_stronger:
  assumes step: "\<And>x s. good (Inr (), s) \<Longrightarrow> guard x s \<Longrightarrow> good (step x s)"
    and imp: "\<And>x s. good (Inr (), s) \<Longrightarrow> check x s \<Longrightarrow> guard x s"
  shows "good (Inr (), s) \<Longrightarrow> guarded step check xs s \<Longrightarrow> guarded step guard xs s"
proof (induction xs arbitrary: s)
  case (Cons x xs)
  have g: "guard x s" using imp Cons.prems by simp
  obtain r s' where m: "step x s = (r, s')" by fastforce
  have "guarded step guard xs s'" if "r = Inr u" for u
    using Cons.IH [of s'] step [OF Cons.prems(1) g] Cons.prems(2) m that by simp
  then show ?case using g m by (auto split: sum.splits)
qed simp

lemma admitted_checks:
  "well_formed (Inr (), cs) \<Longrightarrow> admissible_check req (snd cs) \<Longrightarrow> admitted req cs"
  by (auto simp: well_formed_def admitted_def service_inv_def tree_inv_def intro!: admissible_check_ok)

lemma admitted_run:
  "well_formed (Inr (), cs) \<Longrightarrow> guarded (handle_message ops) (\<lambda>req cs. admissible_check req (snd cs)) msgs cs \<Longrightarrow>
   guarded (handle_message ops) admitted msgs cs"
  by (rule guarded_stronger [where good = well_formed, OF keeps_well_formed admitted_checks])

lemma admitted_drain:
  "well_formed (Inr (), cs) \<Longrightarrow> guarded (drain_message ops) (\<lambda>req cs. admissible_check req (snd cs)) msgs cs \<Longrightarrow>
   guarded (drain_message ops) admitted msgs cs"
  by (rule guarded_stronger [where good = well_formed, OF drained.step_good admitted_checks])

lemma validated_run:
  assumes "config_ok cfg" and "canonical_inv cfg s" and "guarded (handle_message ops) validated_check msgs (cfg, s)"
  shows "guarded (handle_message ops) validated msgs (cfg, s)"
proof (rule guarded_stronger [where good = canonical_outcome, OF keeps_canonical_outcome _ _ assms(3)])
  show "canonical_outcome (Inr (), cfg, s)" using assms by (simp add: canonical_outcome_def)
  fix x and cs :: "migration_config \<times> ('a, 'b, 'c, 'd) service_state"
  assume C: "canonical_outcome (Inr (), cs)" and c: "validated_check x cs"
  obtain cfg s where cs: "cs = (cfg, s)" by fastforce
  have "tree_inv (sv_cache s)" using C by (simp add: cs canonical_outcome_def canonical_inv_def service_inv_def)
  note wf = tree_invD(1) [OF this]
  have "admissible x s" using c by (intro admissible_check_ok [OF wf]) (simp add: cs validated_check_def Let_def)
  moreover have "new_block_ok cfg s (sb_header b)" if "x = BlockPreValidated now b skip" for now b skip
    using new_block_check [OF wf] c that by (simp add: cs)
  ultimately show "validated x cs" by (auto simp: cs validated_def split: request.splits)
qed

section \<open>The service at genesis\<close>

lemma genesis_service_inv:
  assumes "bh_previous_block_hash (sb_header g) \<noteq> hash_of g"
    and "sv_cache s = bt_new now (mc_block_tree_depth cfg) md g cs es ms"
  shows "service_inv cfg s"
proof -
  obtain e where bs: "blocks (sv_cache s) = [(hash_of g, e)]" by (simp add: assms(2) bt_new_def Let_def)
  have "valid_closed (blocks (sv_cache s))"
    unfolding bs by (rule valid_closedI) (simp only: banc_single)
  then show ?thesis
    using tree_inv_new [OF assms(1)] by (simp add: service_inv_def assms(2)) (simp add: bt_new_def Let_def)
qed

lemma genesis_canonical:
  assumes g: "bh_previous_block_hash (sb_header g) \<noteq> hash_of g" "bh_height (sb_header g) = 0"
    and t: "sv_cache s = bt_new now (mc_block_tree_depth cfg) md g cs es ms"
    and db: "tables_wf cfg (ms_db (sv_migration s)) 1" "indexed_header (ms_db (sv_migration s)) 0 = Some (stored (sb_header g))"
  shows "canonical_inv cfg s"
proof -
  let ?t = "sv_cache s" and ?db = "ms_db (sv_migration s)"
  obtain e where bs: "blocks ?t = [(hash_of g, e)]" and e: "bm_block e = g" and tp: "tip ?t = hash_of g"
    by (simp add: t bt_new_def Let_def)
  have ht: "bht (blocks ?t) (hash_of g) = 0" using g(2) by (simp add: bs e bht_def)
  have "blocks_ok cfg ?t" using g(1) by (auto simp: blocks_ok_def bs e banc_single split: if_splits)
  moreover have "index_tip (db_index ?db) 1 = hash_of g"
    using index_tip_header [OF db(1), of "sb_header g"] db(2) by simp
  moreover have "\<not> below_tree ?t h" for h using ht by (auto simp: below_tree_def bs)
  moreover have "indexed_header ?db (bht (blocks ?t) x) = Some (stored (header_of e'))"
    if "banc (blocks ?t) x (hash_of g)" "map_of (blocks ?t) x = Some e'" for x e'
  proof -
    have "x = hash_of g" using that(1) unfolding bs banc_single by simp
    then show ?thesis using that(2) db(2) ht e by (auto simp: bs)
  qed
  ultimately have "rooted cfg ?t ?db 1 (hash_of g)"
    unfolding rooted_def using db(1) ht by (auto simp: bs)
  moreover have "banc (blocks ?t) (hash_of g) (tip ?t)" unfolding bs tp banc_single by simp
  ultimately show ?thesis
    using genesis_service_inv [OF g(1) t] \<open>blocks_ok cfg ?t\<close> by (intro canonicalI)
qed

section \<open>A valid block that is heavier than the tip\<close>

lemma mark_valid_max: "max_cumulative_difficulty (snd (mark_block_as_valid h t)) = max_cumulative_difficulty t"
  by (simp add: mark_block_as_valid_def split: option.splits chain_state.splits block_state.splits)

lemma heavier_restate:
  assumes re: "restate (blocks t) (blocks t')" and "tip t' = tip t" "max_cumulative_difficulty t' = max_cumulative_difficulty t"
    and "heavier t h"
  shows "heavier t' h"
proof -
  obtain he te where e: "map_of (blocks t) h = Some he" "map_of (blocks t) (tip t) = Some te" "diff_of te < diff_of he"
    "diff_of he \<noteq> fst (max_cumulative_difficulty t) \<or> snd (max_cumulative_difficulty t) = h"
    using assms(4) unfolding heavier_def by blast
  obtain he' te' where "map_of (blocks t') h = Some he'" "bm_block he' = bm_block he"
    "map_of (blocks t') (tip t) = Some te'" "bm_block te' = bm_block te"
    using restate_entry [OF re e(1)] restate_entry [OF re e(2)] by auto
  then show ?thesis using e assms(2,3) by (auto simp: heavier_def)
qed

lemma in_window_restate:
  assumes "restate (blocks t) (blocks t')" and "tip t' = tip t" "block_tree_depth t' = block_tree_depth t"
  shows "in_window t' h = in_window t h"
  by (simp add: in_window_def fork_point_def restate_banc [OF assms(1)] restate_bht [OF assms(1)] assms(2,3))

lemma on_valid_block_tip:
  assumes inv: "service_inv cfg s" and pv: "parents_valid (sv_cache s) h"
    and mk: "fst (mark_block_as_valid h (sv_cache s)) = Inr ()" and hv: "heavier (sv_cache s) h"
    and w: "in_window (sv_cache s) h" "in_window (sv_cache s) (snd (max_cumulative_difficulty (sv_cache s)))"
  shows "tip (sv_cache (snd (on_valid_block ops cfg h s))) = h"
proof -
  note I = service_invD [OF inv]
  obtain t' where t': "mark_block_as_valid h (sv_cache s) = (Inr (), t')" "tree_inv t'" "valid_closed (blocks t')"
      "restate (blocks (sv_cache s)) (blocks t')" "ready (blocks t') h" "tip t' = tip (sv_cache s)"
      "block_tree_depth t' = block_tree_depth (sv_cache s)"
    using marked_valid_cases [OF I(1,2) pv] mk by auto
  have mx: "max_cumulative_difficulty t' = max_cumulative_difficulty (sv_cache s)"
    using mark_valid_max [of h "sv_cache s"] t'(1) by simp
  let ?s = "s\<lparr>sv_cache := t'\<rparr>"
  have inv': "service_inv cfg ?s" using t' I(3) by (simp add: service_inv_def)
  have hv': "heavier (sv_cache ?s) h" using heavier_restate [OF t'(4,6) mx hv] by simp
  have w': "in_window (sv_cache ?s) h" "in_window (sv_cache ?s) (snd (max_cumulative_difficulty (sv_cache ?s)))"
    using w in_window_restate [OF t'(4,6,7)] mx by simp_all
  obtain r where r: "get_earliest_not_onchain_in_longest_chain t' = Inr (Some r)"
    using heavier_gate [OF inv' hv' w'(2)] by auto
  obtain e te where e: "get_block h (sv_cache s) = Some e" "get_block (tip (sv_cache s)) (sv_cache s) = Some te"
    using hv unfolding heavier_def by (auto simp: get_block_def)
  have v: "all_valid (blocks (sv_cache ?s)) h" using t'(3,5) by (simp add: valid_closed_def)
  have "sv_cache (snd (on_valid_block ops cfg h s)) = sv_cache (snd (try_move_tip_to cfg h ?s))"
    using e r t'(1,5) unfolding on_valid_block_def
    by (auto simp: ready_def Let_def sbind_quiet_cache quiet_cache [OF quiet_publish] quiet_cache [OF quiet_persist]
        intro!: sbind_quiet_cache split: option.splits)
  then show ?thesis using try_move_tip [OF inv' v hv' w'(1)] by simp
qed

section \<open>Runs from genesis\<close>

definition ex_ops :: "(unit, unit, unit, unit) snapshot_ops" where
  "ex_ops = \<lparr>so_epoch_snapshot = \<lambda>_ _. Some (), so_commitment_snapshot = \<lambda>_ _ _ _. (),
     so_next_ema_snapshot = \<lambda>_ _ _. Some (), so_expired_partitions = \<lambda>_. None,
     so_storage_module_infos = \<lambda>_. Some ()\<rparr>"

definition ex_start :: "migration_config \<Rightarrow> (unit, unit, unit, unit) service_state" where
  "ex_start cfg = \<lparr>sv_cache = bt_new 0 (mc_block_tree_depth cfg) (mc_block_migration_depth cfg) ex_genesis () () (),
     sv_migration = ex_migration, sv_sent = [],
     sv_validation_open = True, sv_reth_open = True, sv_storage_modules_open = True\<rparr>"

definition ex_small :: migration_config where
  "ex_small = ex_cfg\<lparr>mc_block_tree_depth := 3, mc_block_migration_depth := 1\<rparr>"

abbreviation arrives :: "h256 \<Rightarrow> h256 \<Rightarrow> nat \<Rightarrow> u256 \<Rightarrow> request" where
  "arrives h p n d \<equiv> BlockPreValidated 0 (ex_full h p n d [] [] []) False"

abbreviation is_valid :: "h256 \<Rightarrow> request" where
  "is_valid h \<equiv> BlockValidationFinished h Valid"

abbreviation run_state :: "request list \<Rightarrow> (unit, unit, unit, unit) service_state" where
  "run_state msgs \<equiv> snd (snd (serve ex_ops msgs (ex_cfg, ex_start ex_cfg)))"

lemma ex_start_genesis:
  "bh_previous_block_hash (sb_header ex_genesis) \<noteq> hash_of ex_genesis" "bh_height (sb_header ex_genesis) = 0"
  "hash_of ex_genesis = 1"
  by (simp_all add: ex_genesis_def ex_full_def ex_block_def)

lemma ex_start_inv: "service_inv cfg (ex_start cfg)"
  by (rule genesis_service_inv [OF ex_start_genesis(1)]) (simp add: ex_start_def)

lemma ex_start_canonical: "canonical_inv ex_cfg (ex_start ex_cfg)"
proof (rule genesis_canonical [OF ex_start_genesis(1,2)])
  show "tables_wf ex_cfg (ms_db (sv_migration (ex_start ex_cfg))) 1"
    using ex_genesis_wf by (simp add: ex_start_def ex_migration_def)
  show "indexed_header (ms_db (sv_migration (ex_start ex_cfg))) 0 = Some (stored (sb_header ex_genesis))"
    by code_simp
qed (simp add: ex_start_def)

lemma ex_config_ok: "config_ok ex_cfg"
  using hash_set.set_insert_axioms by (simp add: config_ok_def ex_cfg_def)

text \<open>
  \<^bold>\<open>C2.\<close> The service never breaks its tree. From a well-formed tree, for every sequence of messages and
  every queue at shutdown whose messages are admissible when they are handled, the service ends with a
  well-formed tree in which a validated block has only validated ancestors, and it does not end
  because of the tree: no panic or failed lookup of the tree, its tip or a tip candidate.
\<close>

theorem service_tree_safe:
  assumes "service_inv cfg s" and "guarded (handle_message ops) admitted msgs (cfg, s)"
    and "\<forall>cs. serve ops msgs (cfg, s) = (Inr (), cs) \<longrightarrow> guarded (drain_message ops) admitted queued cs"
    and "start_service ops msgs queued (cfg, s) = (r, cfg', s')"
  shows "service_inv cfg' s' \<and> no_tree_error r"
proof -
  have good: "well_formed (Inr (), cfg, s)" using assms(1) by (simp add: well_formed_def)
  obtain r1 cs1 where 1: "serve ops msgs (cfg, s) = (r1, cs1)" by (cases "serve ops msgs (cfg, s)")
  have wf1: "well_formed (r1, cs1)" using safe.run_good [OF good assms(2)] 1 by (simp add: serve_def)
  have "well_formed (r, cfg', s')"
  proof (cases r1)
    case (Inl e)
    then show ?thesis using assms(4) wf1 1 by (simp add: start_service_def)
  next
    case (Inr u)
    then show ?thesis using drained.run_good [of cs1 ops queued] wf1 assms(3,4) 1 by (simp add: start_service_def)
  qed
  then show ?thesis by (simp add: well_formed_def)
qed

theorem service_tree_safe_witness:
  "case start_service ex_ops [arrives 2 1 1 3, is_valid 2] [arrives 3 2 2 5, is_valid 3] (ex_cfg, ex_start ex_cfg) of
     (r, cfg', s') \<Rightarrow> service_inv cfg' s' \<and> r = Inr () \<and> tip (sv_cache s') = 2 \<and> map fst (blocks (sv_cache s')) = [1, 2, 3]"
proof -
  let ?cs = "(ex_cfg, ex_start ex_cfg)" and ?m = "[arrives 2 1 1 3, is_valid 2]" and ?q = "[arrives 3 2 2 5, is_valid 3]"
  have wf: "well_formed (Inr (), ?cs)" using ex_start_inv by (simp add: well_formed_def)
  have m: "guarded (handle_message ex_ops) admitted ?m ?cs" by (rule admitted_run [OF wf]) code_simp
  have ok: "fst (serve ex_ops ?m ?cs) = Inr ()" by code_simp
  have "well_formed (serve ex_ops ?m ?cs)" using safe.run_good [OF wf m] by (simp add: serve_def)
  then have "well_formed (Inr (), snd (serve ex_ops ?m ?cs))" using ok by (metis prod.collapse)
  then have q: "guarded (drain_message ex_ops) admitted ?q (snd (serve ex_ops ?m ?cs))"
    by (rule admitted_drain) code_simp
  obtain r cfg' s' where run: "start_service ex_ops ?m ?q ?cs = (r, cfg', s')"
    by (cases "start_service ex_ops ?m ?q ?cs")
  have "service_inv cfg' s' \<and> no_tree_error r"
    by (rule service_tree_safe [OF ex_start_inv m _ run]) (use q in auto)
  moreover have "fst (start_service ex_ops ?m ?q ?cs) = Inr ()"
    "tip (sv_cache (snd (snd (start_service ex_ops ?m ?q ?cs)))) = 2"
    "map fst (blocks (sv_cache (snd (snd (start_service ex_ops ?m ?q ?cs))))) = [1, 2, 3]"
    by code_simp+
  ultimately show ?thesis unfolding run by simp
qed



text \<open>
  \<^bold>\<open>C1.\<close> The tables follow the canonical chain. From a state in which the tables are well formed and
  index a canonical block of the tree and its ancestors, for every sequence of blocks that extend the
  ledgers of their parent and repeat no transaction of their chain, of validation results and of moves
  of the tip that is handled without an error, the tables stay well formed, the last indexed block
  stays a canonical block of the tree, and the indexed headers are those of its ancestors.
\<close>

theorem service_keeps_tables_canonical:
  assumes "config_ok cfg" and "canonical_inv cfg s" and "guarded (handle_message ops) validated msgs (cfg, s)"
    and "serve ops msgs (cfg, s) = (Inr (), cfg', s')"
  shows "canonical_inv cfg' s'"
proof -
  have "canonical_outcome (Inr (), cfg, s)" using assms(1,2) by (simp add: canonical_outcome_def)
  from canonical.run_good [OF this assms(3)] show ?thesis
    using assms(4) by (simp add: serve_def canonical_outcome_def)
qed

theorem service_keeps_tables_canonical_witness:
  "case serve ex_ops [arrives 2 1 1 3, is_valid 2, arrives 3 2 2 5, is_valid 3, arrives 4 3 3 7, is_valid 4]
       (ex_cfg, ex_start ex_cfg) of
     (r, cfg', s') \<Rightarrow> canonical_inv cfg' s' \<and> tip (sv_cache s') = 4 \<and> bi_hashes (svc_index s') = [(0, 1), (1, 2)]"
proof -
  let ?m = "[arrives 2 1 1 3, is_valid 2, arrives 3 2 2 5, is_valid 3, arrives 4 3 3 7, is_valid 4]"
    and ?cs = "(ex_cfg, ex_start ex_cfg)"
  have g: "guarded (handle_message ex_ops) validated ?m ?cs"
    by (rule validated_run [OF ex_config_ok ex_start_canonical]) code_simp
  obtain r cfg' s' where run: "serve ex_ops ?m ?cs = (r, cfg', s')" by (cases "serve ex_ops ?m ?cs")
  have e: "fst (serve ex_ops ?m ?cs) = Inr ()" "tip (sv_cache (snd (snd (serve ex_ops ?m ?cs)))) = 4"
    "bi_hashes (svc_index (snd (snd (serve ex_ops ?m ?cs)))) = [(0, 1), (1, 2)]"
    by code_simp+
  have "canonical_inv cfg' s'"
    by (rule service_keeps_tables_canonical [OF ex_config_ok ex_start_canonical g]) (use run e(1) in simp)
  then show ?thesis using e unfolding run by simp
qed

section \<open>The tip\<close>


lemma in_window_extension:
  assumes "banc (blocks t) (tip t) h" and "bht (blocks t) h \<le> bht (blocks t) (tip t) + (block_tree_depth t - 1)"
  shows "in_window t h"
  unfolding in_window_def fork_point_def
  using assms anc_refl [OF anc_nodes(1) [OF assms(1)]] by blast

lemma heavierI:
  assumes "map_option diff_of (map_of (blocks t) h) = Some d" and "map_option diff_of (map_of (blocks t) (tip t)) = Some d'"
    and "d' < d" and "snd (max_cumulative_difficulty t) = h"
  shows "heavier t h"
  using assms by (auto simp: heavier_def)


text \<open>
  \<^bold>\<open>C6.\<close> A discard cannot leave the service on a lighter chain. After an invalid or retryable result for
  a block that is not on the canonical chain, whatever the later steps return: if the block of highest
  difficulty that remains and its ancestors are valid and its fork point lies in the window of the
  tree, the tip has the highest difficulty.
\<close>

theorem discard_restores_heaviest_tip:
  assumes "service_inv cfg s" and "v = Invalid \<and> \<not> onchain (blocks (sv_cache s)) h \<or> v = InternalFailure False"
    and "on_block_validation_finished ops cfg h v s = (r, s')"
    and "all_valid (blocks (sv_cache s')) (snd (max_cumulative_difficulty (sv_cache s')))"
    and "in_window (sv_cache s') (snd (max_cumulative_difficulty (sv_cache s')))"
  shows "max_tip (sv_cache s')"
proof -
  define kind where "kind = (if v = Invalid then DiscardInvalid else DiscardSoftInternal)"
  have "kind = DiscardSoftInternal \<or> \<not> onchain (blocks (sv_cache s)) h" using assms(2) by (auto simp: kind_def)
  from discard_ok [OF assms(1) this] obtain s1
    where s1: "discard_and_broadcast h v kind s = (Inr (), s1)" "service_inv cfg s1" by blast
  have s': "s' = snd (move_tip_after_discard ops cfg s1)"
    using assms(2,3) s1(1) by (auto simp: on_block_validation_finished_def kind_def)
  show ?thesis
    using discard_then_move_tip [OF s1(2) _ s' assms(4,5)] move_tip_after_discard_shape [OF s1(2), of ops] s' by blast
qed

text \<open>Block 13 ties block 3 and waits; when block 3 turns out to be invalid it becomes the tip.\<close>

abbreviation ex_waiting :: "request list" where
  "ex_waiting \<equiv> [arrives 2 1 1 3, is_valid 2, arrives 3 2 2 7, arrives 13 2 2 7, is_valid 13]"

theorem discard_restores_heaviest_tip_witness:
  "tip (sv_cache (run_state ex_waiting)) = 2 \<and>
   max_tip (sv_cache (snd (on_block_validation_finished ex_ops ex_cfg 3 Invalid (run_state ex_waiting)))) \<and>
   tip (sv_cache (snd (on_block_validation_finished ex_ops ex_cfg 3 Invalid (run_state ex_waiting)))) = 13"
proof -
  let ?s = "run_state ex_waiting" and ?cs = "(ex_cfg, ex_start ex_cfg)"
    and ?s' = "snd (on_block_validation_finished ex_ops ex_cfg 3 Invalid (run_state ex_waiting))"
  have wf: "well_formed (Inr (), ?cs)" using ex_start_inv by (simp add: well_formed_def)
  have "guarded (handle_message ex_ops) admitted ex_waiting ?cs" by (rule admitted_run [OF wf]) code_simp
  from safe.run_good [OF wf this] have wf1: "well_formed (serve ex_ops ex_waiting ?cs)" by (simp add: serve_def)
  have "mc_block_tree_depth (fst (snd (serve ex_ops ex_waiting ?cs))) = mc_block_tree_depth ex_cfg" by code_simp
  then have inv: "service_inv ex_cfg ?s" using wf1 by (auto simp: well_formed_def case_prod_beta service_inv_def)
  have off: "\<not> onchain (blocks (sv_cache ?s)) 3" unfolding onchain_iff by code_simp
  have inv': "service_inv ex_cfg ?s'"
    using on_block_validation_finished_inv [OF inv, of 3 Invalid ex_ops] by (simp add: admissible_def keeps_inv_def)
  note bs = tree_invD(1) [OF service_invD(1) [OF inv']]
  have m: "snd (max_cumulative_difficulty (sv_cache ?s')) = 13" "tip (sv_cache ?s') = 13" "tip (sv_cache ?s) = 2"
    by code_simp+
  have v: "all_valid (blocks (sv_cache ?s')) 13" unfolding all_valid_iff [OF bs] by code_simp
  have "banc (blocks (sv_cache ?s')) (tip (sv_cache ?s')) 13" by (rule banc_lists [OF bs]) code_simp
  then have w: "in_window (sv_cache ?s') 13" by (rule in_window_extension) code_simp
  obtain r s' where run: "on_block_validation_finished ex_ops ex_cfg 3 Invalid ?s = (r, s')" by fastforce
  then have s': "?s' = s'" by simp
  have "max_tip (sv_cache s')"
    by (rule discard_restores_heaviest_tip [OF inv _ run]) (use off v w m(1) in \<open>simp_all only: s' simp_thms\<close>)
  then show ?thesis using m unfolding s' by simp
qed

section \<open>Two runs the service does not foresee\<close>

definition ex_short_reorg :: "request list" where
  "ex_short_reorg =
     [arrives 2 1 1 3, is_valid 2, arrives 3 2 2 5, is_valid 3, arrives 4 3 3 7, is_valid 4, arrives 5 4 4 9,
      is_valid 5, arrives 14 3 3 11, is_valid 14, arrives 23 2 2 6, is_valid 23, arrives 24 23 3 20, is_valid 24]"

text \<open>
  \<^bold>\<open>C34.\<close> A reorganisation to a heavier but shorter chain leaves the index ahead of (tip height - migration
  depth). The next reorganisation, of no more blocks than the migration depth, then orphans an indexed
  block without a rollback: the service moves its tip to block 24, whose chain does not contain the
  indexed block 3, and ends with an error of the migration.
\<close>

theorem short_reorg_orphans_migrated_block:
  "guarded (handle_message ex_ops) validated ex_short_reorg (ex_cfg, ex_start ex_cfg) \<and>
   (case serve ex_ops ex_short_reorg (ex_cfg, ex_start ex_cfg) of (r, _, s) \<Rightarrow>
      (r, tip (sv_cache s), map fst (ancestry (blocks (sv_cache s)) 24), bi_hashes (svc_index s))) =
     (Inl (ServiceMigration (BlockNotFoundWhileCollecting 0)), 24, [24, 23, 2, 1], [(0, 1), (1, 2), (2, 3)])"
proof
  show "guarded (handle_message ex_ops) validated ex_short_reorg (ex_cfg, ex_start ex_cfg)"
    by (rule validated_run [OF ex_config_ok ex_start_canonical]) code_simp
qed code_simp

definition ex_pruned_rival :: "request list" where
  "ex_pruned_rival =
     [arrives 2 1 1 3, is_valid 2, arrives 3 2 2 5, is_valid 3, arrives 13 2 2 6, arrives 14 13 3 20,
      arrives 4 3 3 7, is_valid 4, arrives 15 3 3 20, is_valid 15, arrives 5 4 4 9, is_valid 5]"

text \<open>
  \<^bold>\<open>C35.\<close> A prune can leave the service on a lighter chain. Block 15 is valid but waits, because block 14
  has the same difficulty and came first. The move of the tip to block 5 prunes block 14; block 15 is
  then the block of highest difficulty, is valid and forks inside the window, and the tip stays at
  block 5 although no result for block 15 is outstanding.
\<close>

theorem prune_keeps_lighter_tip:
  "guarded (handle_message ex_ops) admitted ex_pruned_rival (ex_small, ex_start ex_small) \<and>
   (case serve ex_ops ex_pruned_rival (ex_small, ex_start ex_small) of (r, _, s) \<Rightarrow>
      (r, tip (sv_cache s), max_cumulative_difficulty (sv_cache s),
       map (\<lambda>(h, e). (h, height_of e, diff_of e, bm_chain_state e)) (blocks (sv_cache s)),
       map fst (ancestry (blocks (sv_cache s)) 15))) =
     (Inr (), 5, (20, 15), [(3, 2, 5, Onchain), (4, 3, 7, Onchain), (15, 3, 20, NotOnchain ValidBlock), (5, 4, 9, Onchain)],
      [15, 3])"
proof
  show "guarded (handle_message ex_ops) admitted ex_pruned_rival (ex_small, ex_start ex_small)"
    by (rule admitted_run) (simp add: well_formed_def ex_start_inv, code_simp)
qed code_simp

end
