(* ===== verification/Data_Ledgers.thy ===== *)
theory Data_Ledgers
  imports Consensus_Config
begin

text \<open>
  The data ledgers of an epoch (\<open>crates/database/src/data_ledger.rs\<close>): one permanent and several term
  ledgers, each a sequence of slots that hold the partitions storing a range of chunks, and the expiry
  of slots. The Cascade status of a block (\<open>ForBlock<Cascade>\<close>) is a \<open>bool\<close>. \<open>None\<close> is a panic: a term
  ledger that is not active, a slot index past the end, or an overflow of the checked arithmetic.
\<close>

section \<open>Slots\<close>

record ledger_slot =
  ls_partitions :: "h256 list"
  ls_is_expired :: bool
  ls_has_been_written :: bool
  ls_last_height :: nat

record permanent_ledger =
  pl_slots :: "ledger_slot list"
  pl_ledger_id :: nat
  pl_num_partitions_per_slot :: nat

record term_ledger =
  tl_slots :: "ledger_slot list"
  tl_ledger_id :: nat
  tl_epoch_length :: nat
  tl_num_blocks_in_epoch :: nat
  tl_num_partitions_per_slot :: nat

record ledgers =
  lg_perm :: permanent_ledger
  lg_term :: "term_ledger list"
  lg_publish_ledger_epoch_length :: "nat option"
  lg_num_blocks_in_epoch :: nat

record ledger_meta =
  lm_ledger_id :: nat
  lm_epoch_length :: "nat option"
  lm_num_slots :: nat
  lm_num_partitions_per_slot :: nat

record expiring_partition_info =
  epi_partition_hash :: h256
  epi_ledger_id :: data_ledger
  epi_slot_index :: nat

definition fully_written_slot_count :: "nat \<Rightarrow> nat \<Rightarrow> nat" where
  "fully_written_slot_count total_chunks chunks_per_slot =
     (if chunks_per_slot = 0 then 0 else total_chunks div chunks_per_slot)"

definition cascade_expiry_gate :: "bool \<Rightarrow> ledger_slot \<Rightarrow> nat \<Rightarrow> nat \<Rightarrow> bool" where
  "cascade_expiry_gate cascade slot slot_index fully_written_slots \<longleftrightarrow>
     \<not> cascade \<or> ls_has_been_written slot \<and> slot_index < fully_written_slots"

definition new_slot :: "nat \<Rightarrow> ledger_slot" where
  "new_slot height =
     \<lparr>ls_partitions = [], ls_is_expired = False, ls_has_been_written = False, ls_last_height = height\<rparr>"

text \<open>The slots after \<open>allocate_slots\<close> and the number of partitions it returns.\<close>

definition allocate_slots :: "nat \<Rightarrow> nat \<Rightarrow> nat \<Rightarrow> ledger_slot list \<Rightarrow> nat \<times> ledger_slot list" where
  "allocate_slots num_partitions_per_slot slots height sl =
     (slots * num_partitions_per_slot, sl @ replicate slots (new_slot height))"

definition slot_needs :: "nat \<Rightarrow> ledger_slot list \<Rightarrow> (nat \<times> nat) list option" where
  "slot_needs num_partitions_per_slot sl =
     (if list_all (\<lambda>slot. length (ls_partitions slot) \<le> num_partitions_per_slot) sl
      then Some (List.map_filter (\<lambda>(idx, slot).
             let needed = num_partitions_per_slot - length (ls_partitions slot) in
             if needed > 0 \<and> \<not> ls_is_expired slot then Some (idx, needed) else None)
             (List.enumerate 0 sl))
      else None)"

section \<open>Expiry\<close>

definition expiry_height_for :: "nat \<Rightarrow> nat \<Rightarrow> nat \<Rightarrow> nat option option" where
  "expiry_height_for epoch_length num_blocks_in_epoch epoch_height =
     (let min_blocks = epoch_length * num_blocks_in_epoch in
      if min_blocks < 2 ^ 64
      then Some (if epoch_height < min_blocks then None else Some (epoch_height - min_blocks))
      else None)"

definition expires_now :: "bool \<Rightarrow> nat \<Rightarrow> nat \<Rightarrow> ledger_slot list \<Rightarrow> nat \<Rightarrow> bool" where
  "expires_now cascade fully_written_slots expiry_height sl slot_index \<longleftrightarrow>
     slot_index \<noteq> length sl - 1 \<and>
     cascade_expiry_gate cascade (sl ! slot_index) slot_index fully_written_slots \<and>
     ls_last_height (sl ! slot_index) \<le> expiry_height \<and> \<not> ls_is_expired (sl ! slot_index)"

definition get_expired_slot_indexes ::
  "term_ledger \<Rightarrow> nat \<Rightarrow> bool \<Rightarrow> nat \<Rightarrow> nat \<Rightarrow> nat list option"
where
  "get_expired_slot_indexes t epoch_height cascade total_chunks chunks_per_slot =
     map_option (\<lambda>eh. case eh of
         None \<Rightarrow> []
       | Some expiry_height \<Rightarrow>
           filter (expires_now cascade (fully_written_slot_count total_chunks chunks_per_slot)
                     expiry_height (tl_slots t)) [0..<length (tl_slots t)])
       (expiry_height_for (tl_epoch_length t) (tl_num_blocks_in_epoch t) epoch_height)"

definition get_all_expired_slot_indexes ::
  "term_ledger \<Rightarrow> nat \<Rightarrow> bool \<Rightarrow> nat \<Rightarrow> nat \<Rightarrow> nat list option"
where
  "get_all_expired_slot_indexes t epoch_height cascade total_chunks chunks_per_slot =
     map_option (\<lambda>eh. case eh of
         None \<Rightarrow> []
       | Some expiry_height \<Rightarrow>
           (let fully_written_slots = fully_written_slot_count total_chunks chunks_per_slot in
            filter (\<lambda>i. let slot = tl_slots t ! i in
              ls_is_expired slot \<or>
              i \<noteq> length (tl_slots t) - 1 \<and> cascade_expiry_gate cascade slot i fully_written_slots \<and>
              ls_last_height slot \<le> expiry_height) [0..<length (tl_slots t)]))
       (expiry_height_for (tl_epoch_length t) (tl_num_blocks_in_epoch t) epoch_height)"

definition mark_expired :: "nat list \<Rightarrow> ledger_slot list \<Rightarrow> ledger_slot list" where
  "mark_expired idxs sl = fold (\<lambda>i sl. sl[i := (sl ! i)\<lparr>ls_is_expired := True\<rparr>]) idxs sl"

definition expire_old_slots ::
  "nat \<Rightarrow> bool \<Rightarrow> nat \<Rightarrow> nat \<Rightarrow> term_ledger \<Rightarrow> (nat list \<times> term_ledger) option"
where
  "expire_old_slots epoch_height cascade total_chunks chunks_per_slot t =
     map_option (\<lambda>idxs. (idxs, t\<lparr>tl_slots := mark_expired idxs (tl_slots t)\<rparr>))
       (get_expired_slot_indexes t epoch_height cascade total_chunks chunks_per_slot)"

section \<open>All ledgers\<close>

definition permanent_ledger_new :: "consensus_config \<Rightarrow> permanent_ledger" where
  "permanent_ledger_new config =
     \<lparr>pl_slots = [], pl_ledger_id = ledger_u32 Publish,
      pl_num_partitions_per_slot = cc_num_partitions_per_slot config\<rparr>"

definition term_ledger_new :: "data_ledger \<Rightarrow> consensus_config \<Rightarrow> nat \<Rightarrow> term_ledger" where
  "term_ledger_new ledger config epoch_length =
     \<lparr>tl_slots = [], tl_ledger_id = ledger_u32 ledger, tl_epoch_length = epoch_length,
      tl_num_blocks_in_epoch = cc_num_blocks_in_epoch config,
      tl_num_partitions_per_slot = cc_num_partitions_per_slot config\<rparr>"

definition cascade_term_ledgers :: "consensus_config \<Rightarrow> cascade \<Rightarrow> term_ledger list" where
  "cascade_term_ledgers config c =
     [term_ledger_new OneYear config (ca_one_year_epoch_length c),
      term_ledger_new ThirtyDay config (ca_thirty_day_epoch_length c)]"

definition ledgers_new :: "consensus_config \<Rightarrow> bool \<Rightarrow> ledgers" where
  "ledgers_new config cascade =
     \<lparr>lg_perm = permanent_ledger_new config,
      lg_term = term_ledger_new Submit config (cc_submit_ledger_epoch_length config) #
        (case (if cascade then hf_cascade (cc_hardforks config) else None) of
           None \<Rightarrow> [] | Some c \<Rightarrow> cascade_term_ledgers config c),
      lg_publish_ledger_epoch_length = cc_publish_ledger_epoch_length config,
      lg_num_blocks_in_epoch = cc_num_blocks_in_epoch config\<rparr>"

definition activate_cascade :: "consensus_config \<Rightarrow> ledgers \<Rightarrow> ledgers" where
  "activate_cascade config lg =
     (if list_ex (\<lambda>t. tl_ledger_id t = ledger_u32 OneYear) (lg_term lg) then lg
      else (case hf_cascade (cc_hardforks config) of
              None \<Rightarrow> lg
            | Some c \<Rightarrow> lg\<lparr>lg_term := lg_term lg @ cascade_term_ledgers config c\<rparr>))"

definition active_ledgers :: "ledgers \<Rightarrow> data_ledger list" where
  "active_ledgers lg = Publish # List.map_filter (\<lambda>t. ledger_from_u32 (tl_ledger_id t)) (lg_term lg)"

definition get_term_ledger :: "data_ledger \<Rightarrow> ledgers \<Rightarrow> term_ledger option" where
  "get_term_ledger ledger lg = find (\<lambda>t. tl_ledger_id t = ledger_u32 ledger) (lg_term lg)"

definition get_slots :: "data_ledger \<Rightarrow> ledgers \<Rightarrow> ledger_slot list option" where
  "get_slots ledger lg =
     (case ledger of
        Publish \<Rightarrow> Some (pl_slots (lg_perm lg))
      | _ \<Rightarrow> map_option tl_slots (get_term_ledger ledger lg))"

definition partitions_per_slot :: "data_ledger \<Rightarrow> ledgers \<Rightarrow> nat option" where
  "partitions_per_slot ledger lg =
     (case ledger of
        Publish \<Rightarrow> Some (pl_num_partitions_per_slot (lg_perm lg))
      | _ \<Rightarrow> map_option tl_num_partitions_per_slot (get_term_ledger ledger lg))"

definition slot_count :: "data_ledger \<Rightarrow> ledgers \<Rightarrow> nat option" where
  "slot_count ledger lg = map_option length (get_slots ledger lg)"

definition get_slot_needs :: "data_ledger \<Rightarrow> ledgers \<Rightarrow> (nat \<times> nat) list option" where
  "get_slot_needs ledger lg =
     Option.bind (partitions_per_slot ledger lg) (\<lambda>n. Option.bind (get_slots ledger lg) (slot_needs n))"

text \<open>\<open>slots_mut\<close> with the update made through the reference it returns.\<close>

fun update_term ::
  "nat \<Rightarrow> (ledger_slot list \<Rightarrow> ledger_slot list option) \<Rightarrow> term_ledger list \<Rightarrow> term_ledger list option"
where
  "update_term ledger_id f [] = None"
| "update_term ledger_id f (t # ts) =
     (if tl_ledger_id t = ledger_id
      then map_option (\<lambda>sl. t\<lparr>tl_slots := sl\<rparr> # ts) (f (tl_slots t))
      else map_option ((#) t) (update_term ledger_id f ts))"

definition slots_mut ::
  "data_ledger \<Rightarrow> (ledger_slot list \<Rightarrow> ledger_slot list option) \<Rightarrow> ledgers \<Rightarrow> ledgers option"
where
  "slots_mut ledger f lg =
     (case ledger of
        Publish \<Rightarrow>
          map_option (\<lambda>sl. lg\<lparr>lg_perm := (lg_perm lg)\<lparr>pl_slots := sl\<rparr>\<rparr>) (f (pl_slots (lg_perm lg)))
      | _ \<Rightarrow> map_option (\<lambda>ts. lg\<lparr>lg_term := ts\<rparr>) (update_term (ledger_u32 ledger) f (lg_term lg)))"

definition allocate_ledger_slots ::
  "data_ledger \<Rightarrow> nat \<Rightarrow> nat \<Rightarrow> ledgers \<Rightarrow> (nat \<times> ledgers) option"
where
  "allocate_ledger_slots ledger slots height lg =
     Option.bind (partitions_per_slot ledger lg) (\<lambda>n.
     map_option (\<lambda>lg. (slots * n, lg)) (slots_mut ledger (\<lambda>sl. Some (snd (allocate_slots n slots height sl))) lg))"

definition push_partition_to_slot :: "data_ledger \<Rightarrow> nat \<Rightarrow> h256 \<Rightarrow> ledgers \<Rightarrow> ledgers option" where
  "push_partition_to_slot ledger slot_index partition_hash lg =
     slots_mut ledger (\<lambda>sl.
       if slot_index < length sl
       then Some (sl[slot_index := (sl ! slot_index)
              \<lparr>ls_partitions := ls_partitions (sl ! slot_index) @ [partition_hash]\<rparr>])
       else None) lg"

definition remove_partition_from_slot :: "data_ledger \<Rightarrow> nat \<Rightarrow> h256 \<Rightarrow> ledgers \<Rightarrow> ledgers option" where
  "remove_partition_from_slot ledger slot_index partition_hash lg =
     slots_mut ledger (\<lambda>sl.
       if slot_index < length sl
       then Some (sl[slot_index := (sl ! slot_index)
              \<lparr>ls_partitions := filter (\<lambda>p. p \<noteq> partition_hash) (ls_partitions (sl ! slot_index))\<rparr>])
       else None) lg"

definition get_perm_expiring_slots ::
  "ledgers \<Rightarrow> nat \<Rightarrow> bool \<Rightarrow> nat \<Rightarrow> nat \<Rightarrow> (nat \<times> h256 list) list option"
where
  "get_perm_expiring_slots lg epoch_height cascade total_chunks chunks_per_slot =
     (case lg_publish_ledger_epoch_length lg of
        None \<Rightarrow> Some []
      | Some epoch_length \<Rightarrow>
          map_option (\<lambda>eh. case eh of
              None \<Rightarrow> []
            | Some expiry_height \<Rightarrow>
                map (\<lambda>i. (i, ls_partitions (pl_slots (lg_perm lg) ! i)))
                  (filter (expires_now cascade (fully_written_slot_count total_chunks chunks_per_slot)
                             expiry_height (pl_slots (lg_perm lg))) [0..<length (pl_slots (lg_perm lg))]))
            (expiry_height_for epoch_length (lg_num_blocks_in_epoch lg) epoch_height))"

definition infos_of :: "data_ledger \<Rightarrow> nat \<times> h256 list \<Rightarrow> expiring_partition_info list" where
  "infos_of ledger p =
     map (\<lambda>h. \<lparr>epi_partition_hash = h, epi_ledger_id = ledger, epi_slot_index = fst p\<rparr>) (snd p)"

fun expire_terms ::
  "nat \<Rightarrow> bool \<Rightarrow> (data_ledger \<Rightarrow> nat) \<Rightarrow> nat \<Rightarrow> term_ledger list \<Rightarrow>
   (expiring_partition_info list \<times> term_ledger list) option"
where
  "expire_terms epoch_height cascade total_chunks chunks_per_slot [] = Some ([], [])"
| "expire_terms epoch_height cascade total_chunks chunks_per_slot (t # ts) =
     Option.bind (ledger_from_u32 (tl_ledger_id t)) (\<lambda>ledger.
     Option.bind (expire_old_slots epoch_height cascade (total_chunks ledger) chunks_per_slot t) (\<lambda>(idxs, t).
     map_option (\<lambda>(infos, ts).
       (concat (map (\<lambda>i. infos_of ledger (i, ls_partitions (tl_slots t ! i))) idxs) @ infos, t # ts))
       (expire_terms epoch_height cascade total_chunks chunks_per_slot ts)))"

definition expire_partitions ::
  "nat \<Rightarrow> bool \<Rightarrow> (data_ledger \<Rightarrow> nat) \<Rightarrow> nat \<Rightarrow> ledgers \<Rightarrow>
   (expiring_partition_info list \<times> ledgers) option"
where
  "expire_partitions epoch_height cascade total_chunks chunks_per_slot lg =
     Option.bind (get_perm_expiring_slots lg epoch_height cascade (total_chunks Publish) chunks_per_slot) (\<lambda>perm.
     map_option (\<lambda>(infos, ts).
       (concat (map (infos_of Publish) perm) @ infos,
        lg\<lparr>lg_perm := (lg_perm lg)\<lparr>pl_slots := mark_expired (map fst perm) (pl_slots (lg_perm lg))\<rparr>,
           lg_term := ts\<rparr>))
       (expire_terms epoch_height cascade total_chunks chunks_per_slot (lg_term lg)))"

fun expiring_terms ::
  "nat \<Rightarrow> bool \<Rightarrow> (data_ledger \<Rightarrow> nat) \<Rightarrow> nat \<Rightarrow> term_ledger list \<Rightarrow>
   (data_ledger \<times> nat \<times> h256 list) list option"
where
  "expiring_terms epoch_height cascade total_chunks chunks_per_slot [] = Some []"
| "expiring_terms epoch_height cascade total_chunks chunks_per_slot (t # ts) =
     Option.bind (ledger_from_u32 (tl_ledger_id t)) (\<lambda>ledger.
     Option.bind (get_expired_slot_indexes t epoch_height cascade (total_chunks ledger) chunks_per_slot) (\<lambda>idxs.
     map_option (\<lambda>rest. map (\<lambda>i. (ledger, i, ls_partitions (tl_slots t ! i))) idxs @ rest)
       (expiring_terms epoch_height cascade total_chunks chunks_per_slot ts)))"

definition get_expiring_slots ::
  "ledgers \<Rightarrow> nat \<Rightarrow> bool \<Rightarrow> (data_ledger \<Rightarrow> nat) \<Rightarrow> nat \<Rightarrow>
   (data_ledger \<times> nat \<times> h256 list) list option"
where
  "get_expiring_slots lg epoch_height cascade total_chunks chunks_per_slot =
     Option.bind (get_perm_expiring_slots lg epoch_height cascade (total_chunks Publish) chunks_per_slot) (\<lambda>perm.
     map_option (\<lambda>rest. map (\<lambda>p. (Publish, p)) perm @ rest)
       (expiring_terms epoch_height cascade total_chunks chunks_per_slot (lg_term lg)))"

definition get_all_expired_term_slot_indexes ::
  "ledgers \<Rightarrow> data_ledger \<Rightarrow> nat \<Rightarrow> bool \<Rightarrow> nat \<Rightarrow> nat \<Rightarrow> nat list option"
where
  "get_all_expired_term_slot_indexes lg ledger epoch_height cascade total_chunks chunks_per_slot =
     Option.bind (get_term_ledger ledger lg) (\<lambda>t.
     get_all_expired_slot_indexes t epoch_height cascade total_chunks chunks_per_slot)"

definition ledger_meta_for :: "data_ledger \<Rightarrow> ledgers \<Rightarrow> ledger_meta option" where
  "ledger_meta_for ledger lg =
     (if pl_ledger_id (lg_perm lg) = ledger_u32 ledger
      then Some \<lparr>lm_ledger_id = pl_ledger_id (lg_perm lg), lm_epoch_length = lg_publish_ledger_epoch_length lg,
                 lm_num_slots = length (pl_slots (lg_perm lg)),
                 lm_num_partitions_per_slot = pl_num_partitions_per_slot (lg_perm lg)\<rparr>
      else map_option (\<lambda>t.
             \<lparr>lm_ledger_id = tl_ledger_id t, lm_epoch_length = Some (tl_epoch_length t),
              lm_num_slots = length (tl_slots t), lm_num_partitions_per_slot = tl_num_partitions_per_slot t\<rparr>)
             (find (\<lambda>t. tl_ledger_id t = ledger_u32 ledger) (lg_term lg)))"

definition ledger_metas :: "ledgers \<Rightarrow> ledger_meta list" where
  "ledger_metas lg = List.map_filter (\<lambda>ledger. ledger_meta_for ledger lg) (active_ledgers lg)"

definition expiry_frontier_for :: "data_ledger \<Rightarrow> ledgers \<Rightarrow> nat option" where
  "expiry_frontier_for ledger lg =
     map_option (\<lambda>sl. case find (\<lambda>i. \<not> ls_is_expired (sl ! i)) [0..<length sl] of
                        Some i \<Rightarrow> i | None \<Rightarrow> 0) (get_slots ledger lg)"

definition touch_slot :: "nat \<Rightarrow> bool \<Rightarrow> ledger_slot \<Rightarrow> ledger_slot" where
  "touch_slot height refresh slot =
     (let slot = slot\<lparr>ls_has_been_written := True\<rparr> in
      if refresh \<and> \<not> ls_is_expired slot then slot\<lparr>ls_last_height := height\<rparr> else slot)"

definition touch_filled_slots ::
  "data_ledger \<Rightarrow> nat \<Rightarrow> nat \<Rightarrow> nat \<Rightarrow> nat \<Rightarrow> bool \<Rightarrow> ledgers \<Rightarrow> ledgers option"
where
  "touch_filled_slots ledger prev_total_chunks new_total_chunks chunks_per_slot height refresh lg =
     (if new_total_chunks \<le> prev_total_chunks \<or> chunks_per_slot = 0 then Some lg
      else
        let first = prev_total_chunks div chunks_per_slot;
            last = (new_total_chunks - 1) div chunks_per_slot in
        slots_mut ledger (\<lambda>sl.
          if first \<ge> length sl then Some sl
          else let last = min last (length sl - 1) in
            Some (map (\<lambda>(i, slot). if first \<le> i \<and> i \<le> last then touch_slot height refresh slot else slot)
                    (List.enumerate 0 sl))) lg)"

end
