(* ===== verification/Ledger_Correct.thy ===== *)
theory Ledger_Correct
  imports Data_Ledgers
begin

text \<open>
  What the operations of the data ledgers do to the slots of each ledger. The locale \<open>slot_store\<close> is
  the contract of the mutable access to the slots of one ledger; the ledgers are its instance.
\<close>

section \<open>The contract of a store of slots\<close>

locale slot_store =
  fixes get :: "'l \<Rightarrow> 's \<Rightarrow> 'v option"
    and upd :: "'l \<Rightarrow> ('v \<Rightarrow> 'v option) \<Rightarrow> 's \<Rightarrow> 's option"
  assumes get_upd: "upd l f s = Some s' \<Longrightarrow> get l' s' = (if l' = l then Option.bind (get l s) f else get l' s)"
    and upd_None: "upd l f s = None \<longleftrightarrow> Option.bind (get l s) f = None"
begin

lemma upd_total:
  assumes "get l s = Some v" and "f v = Some w"
  obtains s' where "upd l f s = Some s'" and "get l s' = Some w"
    and "\<And>l'. l' \<noteq> l \<Longrightarrow> get l' s' = get l' s"
proof -
  obtain s' where s': "upd l f s = Some s'"
    using assms upd_None [of l f s] by (cases "upd l f s") simp_all
  show ?thesis
    by (rule that [OF s']) (simp_all add: get_upd [OF s'] assms)
qed

lemma dom_upd:
  assumes "upd l f s = Some s'"
  shows "get l' s' = None \<longleftrightarrow> get l' s = None"
  using get_upd [OF assms, of l'] upd_None [of l f s] assms by (cases "get l s") auto

lemma upd_rel:
  assumes "upd l f s = Some s'" and "\<And>v w. get l s = Some v \<Longrightarrow> f v = Some w \<Longrightarrow> R v w" and "\<And>v. R v v"
  shows "rel_option R (get l' s) (get l' s')"
proof (cases "l' = l")
  case True
  then show ?thesis
    using get_upd [OF assms(1), of l] upd_None [of l f s] assms(1,2)
    by (cases "get l s") (auto simp: option_rel_Some1)
next
  case False
  then show ?thesis
    using get_upd [OF assms(1), of l'] assms(3) by (simp add: option.rel_refl)
qed

end

lemma get_term_after_update:
  assumes "update_term k f ts = Some ts'"
  shows "map_option tl_slots (find (\<lambda>t. tl_ledger_id t = k') ts') =
    (if k' = k then Option.bind (map_option tl_slots (find (\<lambda>t. tl_ledger_id t = k) ts)) f
     else map_option tl_slots (find (\<lambda>t. tl_ledger_id t = k') ts))"
  using assms by (induction k f ts arbitrary: ts' rule: update_term.induct) (auto split: if_splits)

lemma update_term_None:
  "update_term k f ts = None \<longleftrightarrow>
     Option.bind (map_option tl_slots (find (\<lambda>t. tl_ledger_id t = k) ts)) f = None"
  by (induction k f ts rule: update_term.induct) (auto split: if_splits)

interpretation slots: slot_store get_slots slots_mut
proof
  fix l f s s' l'
  assume upd: "slots_mut l f s = Some s'"
  show "get_slots l' s' = (if l' = l then Option.bind (get_slots l s) f else get_slots l' s)"
  proof (cases "l = Publish")
    case True
    then show ?thesis
      using upd by (cases l') (auto simp: slots_mut_def get_slots_def get_term_ledger_def)
  next
    case False
    then obtain ts where ts: "update_term (ledger_u32 l) f (lg_term s) = Some ts" "s' = s\<lparr>lg_term := ts\<rparr>"
      using upd by (cases l) (auto simp: slots_mut_def)
    have "get_slots k x = map_option tl_slots (find (\<lambda>t. tl_ledger_id t = ledger_u32 k) (lg_term x))"
      if "k \<noteq> Publish" for k x
      using that by (cases k) (simp_all add: get_slots_def get_term_ledger_def)
    then show ?thesis
      using get_term_after_update [OF ts(1), of "ledger_u32 l'"] False ts(2)
      by (cases "l' = Publish") (auto simp: get_slots_def)
  qed
next
  show "slots_mut l f s = None \<longleftrightarrow> Option.bind (get_slots l s) f = None" for l f s
    by (cases l) (auto simp: slots_mut_def get_slots_def get_term_ledger_def update_term_None)
qed

section \<open>The set of ledgers\<close>

text \<open>
  The term ledgers are the submit ledger, and from the Cascade activation on also the one-year and
  the thirty-day ledger. Every ledger has the number of replicas and the epoch length of the
  configuration.
\<close>

definition term_ok :: "consensus_config \<Rightarrow> term_ledger \<Rightarrow> bool" where
  "term_ok config t \<longleftrightarrow>
     tl_num_partitions_per_slot t = cc_num_partitions_per_slot config \<and>
     tl_num_blocks_in_epoch t = cc_num_blocks_in_epoch config \<and>
     (tl_ledger_id t = ledger_u32 Submit \<and> tl_epoch_length t = cc_submit_ledger_epoch_length config \<or>
      (\<exists>c. hf_cascade (cc_hardforks config) = Some c \<and>
        (tl_ledger_id t = ledger_u32 OneYear \<and> tl_epoch_length t = ca_one_year_epoch_length c \<or>
         tl_ledger_id t = ledger_u32 ThirtyDay \<and> tl_epoch_length t = ca_thirty_day_epoch_length c)))"

definition ledgers_ok :: "consensus_config \<Rightarrow> ledgers \<Rightarrow> bool" where
  "ledgers_ok config lg \<longleftrightarrow>
     pl_ledger_id (lg_perm lg) = ledger_u32 Publish \<and>
     pl_num_partitions_per_slot (lg_perm lg) = cc_num_partitions_per_slot config \<and>
     lg_publish_ledger_epoch_length lg = cc_publish_ledger_epoch_length config \<and>
     lg_num_blocks_in_epoch lg = cc_num_blocks_in_epoch config \<and>
     list_all (term_ok config) (lg_term lg) \<and>
     (map tl_ledger_id (lg_term lg) = [ledger_u32 Submit] \<or>
      map tl_ledger_id (lg_term lg) = [ledger_u32 Submit, ledger_u32 OneYear, ledger_u32 ThirtyDay])"

text \<open>Products of an epoch length and the epoch size that do not overflow (checked by the configuration).\<close>

definition epoch_lengths_fit :: "consensus_config \<Rightarrow> bool" where
  "epoch_lengths_fit config \<longleftrightarrow>
     cc_submit_ledger_epoch_length config * cc_num_blocks_in_epoch config < 2 ^ 64 \<and>
     (case cc_publish_ledger_epoch_length config of
        None \<Rightarrow> True | Some e \<Rightarrow> e * cc_num_blocks_in_epoch config < 2 ^ 64) \<and>
     (case hf_cascade (cc_hardforks config) of
        None \<Rightarrow> True
      | Some c \<Rightarrow> ca_one_year_epoch_length c * cc_num_blocks_in_epoch config < 2 ^ 64 \<and>
                  ca_thirty_day_epoch_length c * cc_num_blocks_in_epoch config < 2 ^ 64)"

definition shape :: "ledgers \<Rightarrow> ledgers" where
  "shape lg = lg\<lparr>lg_perm := (lg_perm lg)\<lparr>pl_slots := []\<rparr>, lg_term := map (tl_slots_update (\<lambda>_. [])) (lg_term lg)\<rparr>"

lemma ledgers_ok_shape: "ledgers_ok config (shape lg) = ledgers_ok config lg"
  by (simp add: ledgers_ok_def shape_def comp_def list_all_iff term_ok_def)

lemma active_ledgers_shape: "active_ledgers (shape lg) = active_ledgers lg"
  by (simp add: active_ledgers_def shape_def List.map_filter_def filter_map comp_def)

lemma partitions_per_slot_shape: "partitions_per_slot l (shape lg) = partitions_per_slot l lg"
proof -
  have "map_option tl_num_partitions_per_slot (find P (map (tl_slots_update (\<lambda>_. [])) ts)) =
      map_option tl_num_partitions_per_slot (find P ts)"
    if "\<And>t. P (tl_slots_update (\<lambda>_. []) t) = P t" for P and ts :: "term_ledger list"
    by (induction ts) (auto simp: that)
  then show ?thesis
    by (cases l) (simp_all add: partitions_per_slot_def shape_def get_term_ledger_def)
qed

lemma shape_slots_mut: "slots_mut l f lg = Some lg' \<Longrightarrow> shape lg' = shape lg"
proof -
  have "map (tl_slots_update (\<lambda>_. [])) ts' = map (tl_slots_update (\<lambda>_. [])) ts"
    if "update_term k f ts = Some ts'" for k ts ts'
    using that by (induction k f ts arbitrary: ts' rule: update_term.induct) (auto split: if_splits)
  then show "slots_mut l f lg = Some lg' \<Longrightarrow> shape lg' = shape lg"
    by (cases l) (auto simp: slots_mut_def shape_def)
qed

lemma ledgers_ok_cases:
  assumes "ledgers_ok config lg"
  obtains t where "lg_term lg = [t]" "tl_ledger_id t = ledger_u32 Submit" "term_ok config t"
    "active_ledgers lg = [Publish, Submit]"
  | t t1 t2 where "lg_term lg = [t, t1, t2]" "tl_ledger_id t = ledger_u32 Submit" "term_ok config t"
    "tl_ledger_id t1 = ledger_u32 OneYear" "term_ok config t1"
    "tl_ledger_id t2 = ledger_u32 ThirtyDay" "term_ok config t2"
    "active_ledgers lg = [Publish, Submit, OneYear, ThirtyDay]"
proof -
  have "map tl_ledger_id (lg_term lg) = [ledger_u32 Submit] \<or>
      map tl_ledger_id (lg_term lg) = [ledger_u32 Submit, ledger_u32 OneYear, ledger_u32 ThirtyDay]"
    and ok: "list_all (term_ok config) (lg_term lg)"
    using assms by (simp_all add: ledgers_ok_def)
  then consider t where "lg_term lg = [t]" "tl_ledger_id t = ledger_u32 Submit"
    | t t1 t2 where "lg_term lg = [t, t1, t2]" "tl_ledger_id t = ledger_u32 Submit"
      "tl_ledger_id t1 = ledger_u32 OneYear" "tl_ledger_id t2 = ledger_u32 ThirtyDay"
    by (auto simp: map_eq_Cons_conv)
  then show ?thesis
    using that ok by cases (simp_all add: active_ledgers_def List.map_filter_simps)
qed

lemmas get_slots_simps = get_slots_def get_term_ledger_def partitions_per_slot_def

lemma active_iff:
  assumes "ledgers_ok config lg"
  shows "l \<in> set (active_ledgers lg) \<longleftrightarrow> get_slots l lg \<noteq> None"
  using assms by (cases rule: ledgers_ok_cases; cases l) (simp_all add: get_slots_simps)

lemma active_per_slot:
  assumes "ledgers_ok config lg" and "l \<in> set (active_ledgers lg)"
  shows "partitions_per_slot l lg = Some (cc_num_partitions_per_slot config)"
  using assms(1)
proof (cases rule: ledgers_ok_cases)
  case (1 t)
  then show ?thesis
    using assms by (cases l) (simp_all add: get_slots_simps term_ok_def ledgers_ok_def)
next
  case (2 t t1 t2)
  then show ?thesis
    using assms by (cases l) (simp_all add: get_slots_simps term_ok_def ledgers_ok_def)
qed

lemma distinct_active: "ledgers_ok config lg \<Longrightarrow> distinct (active_ledgers lg)"
  by (cases rule: ledgers_ok_cases) auto

lemma ledgers_ok_new: "ledgers_ok config (ledgers_new config cascade)"
  by (auto simp: ledgers_ok_def ledgers_new_def term_ok_def permanent_ledger_new_def term_ledger_new_def
      cascade_term_ledgers_def split: option.splits)

lemma ledgers_ok_activate:
  assumes "ledgers_ok config lg"
  shows "ledgers_ok config (activate_cascade config lg)"
  using assms
proof (cases rule: ledgers_ok_cases)
  case (1 t)
  then show ?thesis
    using assms by (simp add: ledgers_ok_def activate_cascade_def cascade_term_ledgers_def term_ledger_new_def
        term_ok_def split: option.splits)
qed (use assms in \<open>simp add: activate_cascade_def\<close>)

lemma get_slots_activate:
  assumes "ledgers_ok config lg"
  shows "get_slots l (activate_cascade config lg) = get_slots l lg \<or>
    get_slots l lg = None \<and> get_slots l (activate_cascade config lg) = Some []"
  using assms
proof (cases rule: ledgers_ok_cases)
  case (1 t)
  then show ?thesis
    by (cases l) (simp_all add: activate_cascade_def get_slots_simps cascade_term_ledgers_def term_ledger_new_def
        split: option.splits)
qed (simp add: activate_cascade_def)

section \<open>Updates of single slots\<close>

lemma slots_mut_ok:
  assumes "get_slots l lg = Some sl" and "f sl = Some w"
  shows "\<exists>lg'. slots_mut l f lg = Some lg' \<and> get_slots l lg' = Some w \<and>
    (\<forall>l'. l' \<noteq> l \<longrightarrow> get_slots l' lg' = get_slots l' lg) \<and> shape lg' = shape lg"
  by (rule slots.upd_total [where f = f, OF assms]) (auto dest: shape_slots_mut)

lemma allocate_ledger_slots_ok:
  assumes "ledgers_ok config lg" and "get_slots l lg = Some sl"
  obtains lg' where
    "allocate_ledger_slots l k height lg = Some (k * cc_num_partitions_per_slot config, lg')"
    "get_slots l lg' = Some (sl @ replicate k (new_slot height))"
    "\<And>l'. l' \<noteq> l \<Longrightarrow> get_slots l' lg' = get_slots l' lg" "shape lg' = shape lg"
proof -
  let ?n = "cc_num_partitions_per_slot config"
  have n: "partitions_per_slot l lg = Some ?n"
    using assms active_iff [OF assms(1)] active_per_slot [OF assms(1)] by auto
  show ?thesis
    using slots_mut_ok [OF assms(2), of "\<lambda>sl. Some (snd (allocate_slots ?n k height sl))"] that
    by (auto simp: allocate_ledger_slots_def n allocate_slots_def)
qed

lemma push_partition_ok:
  assumes "get_slots l lg = Some sl" and "i < length sl"
  obtains lg' where "push_partition_to_slot l i h lg = Some lg'"
    "get_slots l lg' = Some (sl[i := (sl ! i)\<lparr>ls_partitions := ls_partitions (sl ! i) @ [h]\<rparr>])"
    "\<And>l'. l' \<noteq> l \<Longrightarrow> get_slots l' lg' = get_slots l' lg" "shape lg' = shape lg"
  using slots_mut_ok [OF assms(1), of "\<lambda>sl. if i < length sl
    then Some (sl[i := (sl ! i)\<lparr>ls_partitions := ls_partitions (sl ! i) @ [h]\<rparr>]) else None"] assms(2) that
  by (auto simp: push_partition_to_slot_def)

lemma remove_partition_ok:
  assumes "get_slots l lg = Some sl" and "i < length sl"
  obtains lg' where "remove_partition_from_slot l i h lg = Some lg'"
    "get_slots l lg' =
       Some (sl[i := (sl ! i)\<lparr>ls_partitions := filter (\<lambda>p. p \<noteq> h) (ls_partitions (sl ! i))\<rparr>])"
    "\<And>l'. l' \<noteq> l \<Longrightarrow> get_slots l' lg' = get_slots l' lg" "shape lg' = shape lg"
  using slots_mut_ok [OF assms(1), of "\<lambda>sl. if i < length sl
    then Some (sl[i := (sl ! i)\<lparr>ls_partitions := filter (\<lambda>p. p \<noteq> h) (ls_partitions (sl ! i))\<rparr>])
    else None"] assms(2) that
  by (auto simp: remove_partition_from_slot_def)

text \<open>The slots that a write window touches.\<close>

definition in_window :: "nat \<Rightarrow> nat \<Rightarrow> nat \<Rightarrow> nat \<Rightarrow> bool" where
  "in_window prev_total new_total chunks_per_slot i \<longleftrightarrow>
     prev_total < new_total \<and> chunks_per_slot \<noteq> 0 \<and>
     prev_total div chunks_per_slot \<le> i \<and> i \<le> (new_total - 1) div chunks_per_slot"

definition touch_window :: "nat \<Rightarrow> nat \<Rightarrow> nat \<Rightarrow> nat \<Rightarrow> bool \<Rightarrow> ledger_slot list \<Rightarrow> ledger_slot list" where
  "touch_window prev_total new_total chunks_per_slot height refresh sl =
     map (\<lambda>i. if in_window prev_total new_total chunks_per_slot i then touch_slot height refresh (sl ! i)
              else sl ! i) [0..<length sl]"

lemma touch_window_id: "(\<And>i. \<not> in_window p n c i \<or> length sl \<le> i) \<Longrightarrow> touch_window p n c h r sl = sl"
  by (rule nth_equalityI) (auto simp: touch_window_def dest: leD)

lemma touch_filled_slots_ok:
  assumes "get_slots l lg = Some sl"
  obtains lg' where "touch_filled_slots l p n c height refresh lg = Some lg'"
    "get_slots l lg' = Some (touch_window p n c height refresh sl)"
    "\<And>l'. l' \<noteq> l \<Longrightarrow> get_slots l' lg' = get_slots l' lg" "shape lg' = shape lg"
proof (cases "n \<le> p \<or> c = 0")
  case True
  then have "touch_window p n c height refresh sl = sl"
    by (intro touch_window_id) (auto simp: in_window_def)
  then show ?thesis
    using that [of lg] assms True by (simp add: touch_filled_slots_def)
next
  case False
  let ?f = "\<lambda>sl. if p div c \<ge> length sl then Some sl
      else let last = min ((n - 1) div c) (length sl - 1) in
        Some (map (\<lambda>(i, slot). if p div c \<le> i \<and> i \<le> last then touch_slot height refresh slot else slot)
                (List.enumerate 0 sl))"
  have "?f sl = Some (touch_window p n c height refresh sl)"
  proof (cases "p div c \<ge> length sl")
    case True
    then have "touch_window p n c height refresh sl = sl"
      by (intro touch_window_id) (auto simp: in_window_def)
    with True show ?thesis by simp
  next
    case less: False
    have "map (\<lambda>(i, slot). if p div c \<le> i \<and> i \<le> min ((n - 1) div c) (length sl - 1)
        then touch_slot height refresh slot else slot) (List.enumerate 0 sl) =
      touch_window p n c height refresh sl"
    proof (rule nth_equalityI)
      fix i assume "i < length (map (\<lambda>(i, slot). if p div c \<le> i \<and> i \<le> min ((n - 1) div c) (length sl - 1)
        then touch_slot height refresh slot else slot) (List.enumerate 0 sl))"
      then have i: "i < length sl" by simp
      then have "i \<le> length sl - 1" by simp
      then show "map (\<lambda>(i, slot). if p div c \<le> i \<and> i \<le> min ((n - 1) div c) (length sl - 1)
        then touch_slot height refresh slot else slot) (List.enumerate 0 sl) ! i =
        touch_window p n c height refresh sl ! i"
        using False i by (simp add: touch_window_def in_window_def nth_enumerate_eq)
    qed (simp add: touch_window_def)
    then show ?thesis using less by (simp add: Let_def)
  qed
  moreover have "touch_filled_slots l p n c height refresh lg = slots_mut l ?f lg"
    by (simp only: touch_filled_slots_def Let_def False if_False)
  ultimately show ?thesis
    using slots_mut_ok [OF assms, of ?f] that by auto
qed

section \<open>Expiry\<close>

text \<open>The slots of a ledger that expire at a height, for the permanent and the term ledgers alike.\<close>

definition ledger_epoch_length :: "data_ledger \<Rightarrow> ledgers \<Rightarrow> nat option" where
  "ledger_epoch_length l lg = Option.bind (ledger_meta_for l lg) lm_epoch_length"

definition expiring ::
  "nat \<Rightarrow> nat option \<Rightarrow> nat \<Rightarrow> bool \<Rightarrow> nat \<Rightarrow> nat \<Rightarrow> ledger_slot list \<Rightarrow> nat list"
where
  "expiring num_blocks epoch_length height cascade tot chunks_per_slot sl =
     (case epoch_length of
        None \<Rightarrow> []
      | Some e \<Rightarrow>
          if height < e * num_blocks then []
          else filter (expires_now cascade (fully_written_slot_count tot chunks_per_slot)
                         (height - e * num_blocks) sl) [0..<length sl])"

definition expiring_at ::
  "ledgers \<Rightarrow> nat \<Rightarrow> bool \<Rightarrow> (data_ledger \<Rightarrow> nat) \<Rightarrow> nat \<Rightarrow> data_ledger \<Rightarrow> (nat \<times> h256 list) list"
where
  "expiring_at lg height cascade totals chunks_per_slot l =
     (case get_slots l lg of
        None \<Rightarrow> []
      | Some sl \<Rightarrow> map (\<lambda>i. (i, ls_partitions (sl ! i)))
          (expiring (lg_num_blocks_in_epoch lg) (ledger_epoch_length l lg) height cascade (totals l)
             chunks_per_slot sl))"

lemma length_mark_expired [simp]: "length (mark_expired idxs sl) = length sl"
  unfolding mark_expired_def by (induction idxs arbitrary: sl) simp_all

lemma nth_mark_expired:
  "i < length sl \<Longrightarrow> mark_expired idxs sl ! i =
     (if i \<in> set idxs then (sl ! i)\<lparr>ls_is_expired := True\<rparr> else sl ! i)"
proof (induction idxs arbitrary: sl)
  case (Cons a idxs)
  have "mark_expired (a # idxs) sl = mark_expired idxs (sl[a := (sl ! a)\<lparr>ls_is_expired := True\<rparr>])"
    by (simp add: mark_expired_def)
  then show ?case
    using Cons by (cases "a = i") simp_all
qed (simp add: mark_expired_def)

lemma mark_expired_partitions [simp]:
  "i < length sl \<Longrightarrow> ls_partitions (mark_expired idxs sl ! i) = ls_partitions (sl ! i)"
  by (simp add: nth_mark_expired)

lemma term_expired_idx:
  assumes "term_ok config t" and "epoch_lengths_fit config"
  shows "get_expired_slot_indexes t height cascade tot c =
    Some (expiring (cc_num_blocks_in_epoch config) (Some (tl_epoch_length t)) height cascade tot c (tl_slots t))"
proof -
  have "tl_epoch_length t * tl_num_blocks_in_epoch t < 2 ^ 64"
    using assms by (auto simp: term_ok_def epoch_lengths_fit_def split: option.splits)
  then show ?thesis
    using assms(1) by (simp add: get_expired_slot_indexes_def expiry_height_for_def Let_def expiring_def term_ok_def)
qed

lemma perm_expired_idx:
  assumes "ledgers_ok config lg" and "epoch_lengths_fit config"
  shows "get_perm_expiring_slots lg height cascade tot c =
    Some (map (\<lambda>i. (i, ls_partitions (pl_slots (lg_perm lg) ! i)))
      (expiring (cc_num_blocks_in_epoch config) (cc_publish_ledger_epoch_length config) height cascade tot c
         (pl_slots (lg_perm lg))))"
  using assms by (auto simp: get_perm_expiring_slots_def ledgers_ok_def epoch_lengths_fit_def
      expiry_height_for_def Let_def expiring_def split: option.splits)

lemma get_expiring_slots_eq:
  assumes "ledgers_ok config lg" and "epoch_lengths_fit config"
  shows "get_expiring_slots lg height cascade totals c =
    Some (concat (map (\<lambda>l. map (Pair l) (expiring_at lg height cascade totals c l)) (active_ledgers lg)))"
  using assms(1)
proof (cases rule: ledgers_ok_cases)
  case (1 t)
  then show ?thesis
    using assms
    by (simp add: get_expiring_slots_def perm_expired_idx term_expired_idx expiring_at_def get_slots_simps
        ledger_epoch_length_def ledger_meta_for_def ledgers_ok_def comp_def)
next
  case (2 t t1 t2)
  then show ?thesis
    using assms
    by (simp add: get_expiring_slots_def perm_expired_idx term_expired_idx expiring_at_def get_slots_simps
        ledger_epoch_length_def ledger_meta_for_def ledgers_ok_def comp_def)
qed

lemma expiring_in_range: "i \<in> set (expiring nb e h cascade tot c sl) \<Longrightarrow> i < length sl"
  by (auto simp: expiring_def split: option.splits if_splits)

lemma expire_terms_Cons:
  fixes t config height cascade totals c l
  defines "idx \<equiv> expiring (cc_num_blocks_in_epoch config) (Some (tl_epoch_length t)) height cascade (totals l) c
    (tl_slots t)"
  assumes "term_ok config t" and "epoch_lengths_fit config" and "tl_ledger_id t = ledger_u32 l"
  shows "expire_terms height cascade totals c (t # ts) =
    map_option (\<lambda>(infos, ts).
      (concat (map (infos_of l) (map (\<lambda>i. (i, ls_partitions (tl_slots t ! i))) idx)) @ infos,
       t\<lparr>tl_slots := mark_expired idx (tl_slots t)\<rparr> # ts)) (expire_terms height cascade totals c ts)"
proof -
  have "map (\<lambda>i. infos_of l (i, ls_partitions (mark_expired idx (tl_slots t) ! i))) idx =
      map (infos_of l) (map (\<lambda>i. (i, ls_partitions (tl_slots t ! i))) idx)"
    using expiring_in_range by (auto simp: idx_def)
  then show ?thesis
    using assms(4)
    by (simp add: expire_old_slots_def term_expired_idx [OF assms(2,3)] idx_def [symmetric] del: map_map)
qed

lemma expire_partitions_eq:
  assumes ok: "ledgers_ok config lg" and fit: "epoch_lengths_fit config"
  obtains lg' where "expire_partitions height cascade totals c lg =
      Some (concat (map (\<lambda>l. concat (map (infos_of l) (expiring_at lg height cascade totals c l)))
        (active_ledgers lg)), lg')"
    and "\<And>l. get_slots l lg' =
      map_option (mark_expired (map fst (expiring_at lg height cascade totals c l))) (get_slots l lg)"
    and "shape lg' = shape lg"
proof -
  define perm where "perm = expiring (cc_num_blocks_in_epoch config) (cc_publish_ledger_epoch_length config)
    height cascade (totals Publish) c (pl_slots (lg_perm lg))"
  define idx where "idx l t = expiring (cc_num_blocks_in_epoch config) (Some (tl_epoch_length t)) height cascade
    (totals l) c (tl_slots t)" for l and t :: term_ledger
  note perm_eq = perm_expired_idx [OF ok fit, of height cascade "totals Publish" c, folded perm_def]
  note defs = expiring_at_def get_slots_simps ledger_epoch_length_def ledger_meta_for_def comp_def
    perm_def [symmetric] idx_def [symmetric]
  let ?mark = "\<lambda>l (t :: term_ledger). t\<lparr>tl_slots := mark_expired (idx l t) (tl_slots t)\<rparr>"
  define lg0 where "lg0 ts = lg\<lparr>lg_perm := (lg_perm lg)\<lparr>pl_slots := mark_expired perm (pl_slots (lg_perm lg))\<rparr>,
    lg_term := ts\<rparr>" for ts
  from ok show ?thesis
  proof (cases rule: ledgers_ok_cases)
    case (1 t)
    note terms = expire_terms_Cons [OF 1(3) fit 1(2), folded idx_def]
    show ?thesis
    proof (rule that [of "lg0 [?mark Submit t]"])
      show "expire_partitions height cascade totals c lg =
        Some (concat (map (\<lambda>l. concat (map (infos_of l) (expiring_at lg height cascade totals c l)))
          (active_ledgers lg)), lg0 [?mark Submit t])"
        using ok 1 by (simp add: expire_partitions_def perm_eq terms defs lg0_def ledgers_ok_def
            del: expire_terms.simps(2))
      show "get_slots l (lg0 [?mark Submit t]) =
        map_option (mark_expired (map fst (expiring_at lg height cascade totals c l))) (get_slots l lg)" for l
        using ok 1 by (cases l) (simp_all add: defs lg0_def ledgers_ok_def)
      show "shape (lg0 [?mark Submit t]) = shape lg"
        using 1 by (simp add: shape_def lg0_def)
    qed
  next
    case (2 t t1 t2)
    note terms = expire_terms_Cons [OF 2(3) fit 2(2), folded idx_def]
      expire_terms_Cons [OF 2(5) fit 2(4), folded idx_def] expire_terms_Cons [OF 2(7) fit 2(6), folded idx_def]
    let ?ts = "[?mark Submit t, ?mark OneYear t1, ?mark ThirtyDay t2]"
    show ?thesis
    proof (rule that [of "lg0 ?ts"])
      show "expire_partitions height cascade totals c lg =
        Some (concat (map (\<lambda>l. concat (map (infos_of l) (expiring_at lg height cascade totals c l)))
          (active_ledgers lg)), lg0 ?ts)"
        using ok 2 by (simp add: expire_partitions_def perm_eq terms defs lg0_def ledgers_ok_def
            del: expire_terms.simps(2))
      show "get_slots l (lg0 ?ts) =
        map_option (mark_expired (map fst (expiring_at lg height cascade totals c l))) (get_slots l lg)" for l
        using ok 2 by (cases l) (simp_all add: defs lg0_def ledgers_ok_def)
      show "shape (lg0 ?ts) = shape lg"
        using 2 by (simp add: shape_def lg0_def)
    qed
  qed
qed

end
