(* ===== verification/Ledger_Props.thy ===== *)
theory Ledger_Props
  imports Ledger_Correct Storage_Pricing
begin

text \<open>
  The properties of slot expiry: which slots a ledger expires, and that the slots recycled at an epoch
  block are the slots reported for the settlement of fees, each of them once.
\<close>

section \<open>An example\<close>

text \<open>A submit ledger with three slots, the first of which is due at height 43200.\<close>

definition ex_slot :: "h256 \<Rightarrow> nat \<Rightarrow> ledger_slot" where
  "ex_slot h height =
     \<lparr>ls_partitions = [h], ls_is_expired = False, ls_has_been_written = True, ls_last_height = height\<rparr>"

definition ex_ledgers :: ledgers where
  "ex_ledgers = (ledgers_new ex_config False)
     \<lparr>lg_term := [(term_ledger_new Submit ex_config 5)
        \<lparr>tl_slots := [ex_slot 7 0, ex_slot 8 36000, new_slot 36000]\<rparr>]\<rparr>"

lemma ex_ledgers_ok: "ledgers_ok ex_config ex_ledgers"
  by (simp add: ledgers_ok_def ex_ledgers_def ledgers_new_def permanent_ledger_new_def term_ok_def
      term_ledger_new_def ex_config_def)

lemma ex_config_fits: "epoch_lengths_fit ex_config"
  by (simp add: epoch_lengths_fit_def ex_config_def)

lemma ex_expiring: "get_expiring_slots ex_ledgers 43200 False (\<lambda>_. 0) 75534400 = Some [(Submit, 0, [7])]"
  by (simp add: get_expiring_slots_def get_perm_expiring_slots_def ex_ledgers_def ledgers_new_def
      term_ledger_new_def ex_config_def get_expired_slot_indexes_def expiry_height_for_def ex_slot_def new_slot_def
      expires_now_def cascade_expiry_gate_def upt_rec)

section \<open>Which slots expire\<close>

lemma expires_now_iff:
  assumes "i < length sl"
  shows "expires_now cascade (fully_written_slot_count tot c) eh sl i \<longleftrightarrow>
    Suc i < length sl \<and> ls_last_height (sl ! i) \<le> eh \<and> \<not> ls_is_expired (sl ! i) \<and>
    (cascade \<longrightarrow> ls_has_been_written (sl ! i) \<and> 0 < c \<and> Suc i * c \<le> tot)"
proof -
  have "i < fully_written_slot_count tot c \<longleftrightarrow> 0 < c \<and> Suc i * c \<le> tot"
    using less_eq_div_iff_mult_less_eq [of c "Suc i" tot]
    by (cases "c = 0") (simp_all only: fully_written_slot_count_def Suc_le_eq if_True if_False neq0_conv, simp_all)
  then show ?thesis
    using assms by (auto simp: expires_now_def cascade_expiry_gate_def)
qed

text \<open>The slot of a ledger is due at a height.\<close>

definition slot_due ::
  "ledgers \<Rightarrow> nat \<Rightarrow> bool \<Rightarrow> (data_ledger \<Rightarrow> nat) \<Rightarrow> nat \<Rightarrow> data_ledger \<Rightarrow> nat \<Rightarrow> h256 list \<Rightarrow> bool"
where
  "slot_due lg height cascade totals c l i ps \<longleftrightarrow>
     (\<exists>sl e. get_slots l lg = Some sl \<and> ledger_epoch_length l lg = Some e \<and>
        Suc i < length sl \<and> ps = ls_partitions (sl ! i) \<and> \<not> ls_is_expired (sl ! i) \<and>
        ls_last_height (sl ! i) + e * lg_num_blocks_in_epoch lg \<le> height \<and>
        (cascade \<longrightarrow> ls_has_been_written (sl ! i) \<and> 0 < c \<and> Suc i * c \<le> totals l))"

lemma expiring_at_iff:
  "(i, ps) \<in> set (expiring_at lg height cascade totals c l) \<longleftrightarrow>
     slot_due lg height cascade totals c l i ps"
proof (cases "get_slots l lg")
  case (Some sl)
  show ?thesis
  proof (cases "ledger_epoch_length l lg")
    case (Some e)
    define m where "m = e * lg_num_blocks_in_epoch lg"
    have "(i, ps) \<in> set (expiring_at lg height cascade totals c l) \<longleftrightarrow>
        i < length sl \<and> ps = ls_partitions (sl ! i) \<and> m \<le> height \<and>
        expires_now cascade (fully_written_slot_count (totals l) c) (height - m) sl i"
      using Some \<open>get_slots l lg = Some sl\<close>
      by (auto simp: expiring_at_def expiring_def m_def [symmetric])
    moreover have "slot_due lg height cascade totals c l i ps \<longleftrightarrow>
        Suc i < length sl \<and> ps = ls_partitions (sl ! i) \<and> \<not> ls_is_expired (sl ! i) \<and>
        ls_last_height (sl ! i) + m \<le> height \<and>
        (cascade \<longrightarrow> ls_has_been_written (sl ! i) \<and> 0 < c \<and> Suc i * c \<le> totals l)"
      using Some \<open>get_slots l lg = Some sl\<close> by (simp add: slot_due_def m_def)
    ultimately show ?thesis
      by (cases "i < length sl") (auto simp: expires_now_iff)
  qed (auto simp: expiring_at_def expiring_def slot_due_def Some)
qed (simp add: expiring_at_def slot_due_def)

lemma distinct_expiring_at: "distinct (map fst (expiring_at lg height cascade totals c l))"
  by (auto simp: expiring_at_def expiring_def comp_def split: option.splits)

lemma get_expiring_slots_spec:
  assumes "ledgers_ok config lg" and "epoch_lengths_fit config"
  shows "\<exists>slots. get_expiring_slots lg height cascade totals c = Some slots \<and>
    distinct (map (\<lambda>(l, i, _). (l, i)) slots) \<and>
    (\<forall>l i ps. (l, i, ps) \<in> set slots \<longleftrightarrow> slot_due lg height cascade totals c l i ps) \<and>
    concat (map (\<lambda>l. concat (map (infos_of l) (expiring_at lg height cascade totals c l)))
      (active_ledgers lg)) = concat (map (\<lambda>(l, p). infos_of l p) slots)"
proof -
  let ?at = "expiring_at lg height cascade totals c"
  define slots where "slots = concat (map (\<lambda>l. map (Pair l) (?at l)) (active_ledgers lg))"
  have "distinct (concat (map (\<lambda>l. map (Pair l) (map fst (?at l))) ls))" if "distinct ls" for ls
    using that distinct_expiring_at by (induction ls) (auto simp: distinct_map inj_on_def)
  from this [OF distinct_active [OF assms(1)]]
  have "distinct (map (\<lambda>(l, i, _). (l, i)) slots)"
    by (simp add: slots_def map_concat comp_def case_prod_unfold)
  moreover have "(l, i, ps) \<in> set slots \<longleftrightarrow> slot_due lg height cascade totals c l i ps" for l i ps
    using active_iff [OF assms(1), of l]
    by (auto simp: slots_def image_iff expiring_at_iff) (auto simp: slot_due_def)
  moreover have "concat (map (\<lambda>l. concat (map (infos_of l) (?at l))) ls) =
      concat (map (\<lambda>(l, p). infos_of l p) (concat (map (\<lambda>l. map (Pair l) (?at l)) ls)))" for ls
    by (induction ls) (simp_all add: comp_def)
  ultimately show ?thesis
    unfolding slots_def by (intro exI conjI allI) (rule get_expiring_slots_eq [OF assms])
qed

text \<open>
  \<^bold>\<open>C37.\<close> The slots reported as expiring at a height are exactly the slots that are due: every slot but the
  last of a ledger with an epoch length whose clock is at least that many epochs old and which has not
  expired before; with the Cascade hardfork only slots that hold data and lie entirely below the write
  frontier, so that no data can still arrive in them. No slot is reported twice, and the query never
  panics.
\<close>

theorem expiring_slots_exact:
  assumes "ledgers_ok config lg" and "epoch_lengths_fit config"
  shows "\<exists>slots. get_expiring_slots lg height cascade totals c = Some slots \<and>
    distinct (map (\<lambda>(l, i, _). (l, i)) slots) \<and>
    (\<forall>l i ps. (l, i, ps) \<in> set slots \<longleftrightarrow> slot_due lg height cascade totals c l i ps)"
  using get_expiring_slots_spec [OF assms] by blast

theorem expiring_slots_exact_witness:
  "get_expiring_slots ex_ledgers 43200 False (\<lambda>_. 0) 75534400 = Some [(Submit, 0, [7])] \<and>
   slot_due ex_ledgers 43200 False (\<lambda>_. 0) 75534400 Submit 0 [7] \<and>
   \<not> slot_due ex_ledgers 43200 False (\<lambda>_. 0) 75534400 Submit 1 [8]"
  using expiring_slots_exact [OF ex_ledgers_ok ex_config_fits, of 43200 False "\<lambda>_. 0" 75534400] ex_expiring
  by auto

lemma ledgers_ok_same_shape: "shape lg' = shape lg \<Longrightarrow> ledgers_ok config lg \<Longrightarrow> ledgers_ok config lg'"
  by (metis ledgers_ok_shape)

text \<open>
  \<^bold>\<open>C36.\<close> The slots that an epoch block recycles are the slots reported for the settlement of fees at the same
  height: the recycled partitions are the partitions of the reported slots, exactly these slots
  become expired and nothing else changes in any slot. A slot recycled once is never reported again,
  at any height and with any totals, so its fees are settled once.
\<close>

theorem expire_partitions_settles_once:
  assumes "ledgers_ok config lg" and "epoch_lengths_fit config"
  shows "\<exists>slots infos lg'. get_expiring_slots lg height cascade totals c = Some slots \<and>
    expire_partitions height cascade totals c lg = Some (infos, lg') \<and>
    infos = concat (map (\<lambda>(l, p). infos_of l p) slots) \<and> ledgers_ok config lg' \<and>
    (\<forall>l sl. get_slots l lg = Some sl \<longrightarrow> (\<exists>sl'. get_slots l lg' = Some sl' \<and> length sl' = length sl \<and>
      (\<forall>i < length sl. sl' ! i =
        (if \<exists>ps. (l, i, ps) \<in> set slots then (sl ! i)\<lparr>ls_is_expired := True\<rparr> else sl ! i)))) \<and>
    (\<forall>height' cascade' totals' c'. \<exists>slots'.
      get_expiring_slots lg' height' cascade' totals' c' = Some slots' \<and>
      (\<forall>l i ps ps'. (l, i, ps) \<in> set slots \<longrightarrow> (l, i, ps') \<notin> set slots'))"
proof -
  let ?at = "expiring_at lg height cascade totals c"
  obtain slots where slots: "get_expiring_slots lg height cascade totals c = Some slots"
    "distinct (map (\<lambda>(l, i, _). (l, i)) slots)"
    "\<And>l i ps. (l, i, ps) \<in> set slots \<longleftrightarrow> slot_due lg height cascade totals c l i ps"
    "concat (map (\<lambda>l. concat (map (infos_of l) (?at l))) (active_ledgers lg)) =
      concat (map (\<lambda>(l, p). infos_of l p) slots)"
    using get_expiring_slots_spec [OF assms, of height cascade totals c] by blast
  obtain lg' where lg': "expire_partitions height cascade totals c lg =
      Some (concat (map (\<lambda>l. concat (map (infos_of l) (?at l))) (active_ledgers lg)), lg')"
    "\<And>l. get_slots l lg' = map_option (mark_expired (map fst (?at l))) (get_slots l lg)"
    "shape lg' = shape lg"
    by (rule expire_partitions_eq [OF assms, of height cascade totals c]) (rule that)
  have ok': "ledgers_ok config lg'"
    using ledgers_ok_same_shape [OF lg'(3) assms(1)] .
  have marked: "i \<in> set (map fst (?at l)) \<longleftrightarrow> (\<exists>ps. (l, i, ps) \<in> set slots)" for l i
    by (auto simp: slots(3) expiring_at_iff image_iff) (metis expiring_at_iff fst_conv)
  have once: "\<not> slot_due lg' height' cascade' totals' c' l i ps'"
    if "(l, i, ps) \<in> set slots" for height' cascade' totals' c' l i ps ps'
  proof
    assume "slot_due lg' height' cascade' totals' c' l i ps'"
    then obtain sl' where sl': "get_slots l lg' = Some sl'" "i < length sl'" "\<not> ls_is_expired (sl' ! i)"
      by (auto simp: slot_due_def)
    then obtain sl where "get_slots l lg = Some sl" "sl' = mark_expired (map fst (?at l)) sl"
      using lg'(2) [of l] by auto
    moreover have "i \<in> set (map fst (?at l))" using marked [of i l] that by blast
    ultimately show False using sl'(2,3) by (simp add: nth_mark_expired del: set_map)
  qed
  have "\<exists>slots'. get_expiring_slots lg' height' cascade' totals' c' = Some slots' \<and>
      (\<forall>l i ps ps'. (l, i, ps) \<in> set slots \<longrightarrow> (l, i, ps') \<notin> set slots')" for height' cascade' totals' c'
    using get_expiring_slots_spec [OF ok' assms(2), of height' cascade' totals' c'] once by blast
  moreover have "\<exists>sl'. get_slots l lg' = Some sl' \<and> length sl' = length sl \<and>
      (\<forall>i < length sl. sl' ! i =
        (if \<exists>ps. (l, i, ps) \<in> set slots then (sl ! i)\<lparr>ls_is_expired := True\<rparr> else sl ! i))"
    if "get_slots l lg = Some sl" for l sl
    using that lg'(2) [of l] marked [of _ l] by (simp add: nth_mark_expired del: set_map)
  ultimately show ?thesis
    using slots(1,4) lg'(1) ok' by (intro exI [of _ slots] exI [of _ "concat (map (\<lambda>(l, p). infos_of l p) slots)"]
        exI [of _ lg']) simp
qed

theorem expire_partitions_settles_once_witness:
  "\<exists>lg'. expire_partitions 43200 False (\<lambda>_. 0) 75534400 ex_ledgers =
      Some ([\<lparr>epi_partition_hash = 7, epi_ledger_id = Submit, epi_slot_index = 0\<rparr>], lg') \<and>
    get_slots Submit ex_ledgers = Some [ex_slot 7 0, ex_slot 8 36000, new_slot 36000] \<and>
    (\<exists>slots'. get_expiring_slots lg' 100000 False (\<lambda>_. 0) 75534400 = Some slots' \<and>
      (Submit, 0, [7]) \<notin> set slots')"
proof -
  have "get_slots Submit ex_ledgers = Some [ex_slot 7 0, ex_slot 8 36000, new_slot 36000]"
    by (simp add: get_slots_def get_term_ledger_def ex_ledgers_def term_ledger_new_def)
  then show ?thesis
    using expire_partitions_settles_once [OF ex_ledgers_ok ex_config_fits, of 43200 False "\<lambda>_. 0" 75534400]
      ex_expiring by (fastforce simp: infos_of_def)
qed

end
