(* ===== verification/Ema_Snapshot.thy ===== *)
theory Ema_Snapshot
  imports Storage_Pricing
begin

text \<open>
  The price snapshot of a block (\<open>crates/domain/src/snapshots/ema_snapshot.rs\<close>): the averaged token
  price of the current and the two previous price intervals. A node computes it block by block
  (\<open>next_snapshot\<close>), or, after a restart, from the headers of the recent chain
  (\<open>create_ema_snapshot_from_chain_history\<close>). The theory shows that both ways agree. Prices are amounts
  of \<open>U256\<close>, as natural numbers.
\<close>

section \<open>Operations\<close>

record ema_snapshot =
  ema_price_2_intervals_ago :: nat
  oracle_price_for_current_ema_predecessor :: nat
  ema_price_current_interval :: nat
  ema_price_1_interval_ago :: nat

record ema_calculation =
  oracle_price_for_calculation :: nat
  oracle_price_for_block_inclusion :: nat
  calculated_ema :: nat

datatype ema_history_error = NoBlocks | NotHighest nat nat | BlockNotInHistory nat

definition ema_price :: "irys_block_header \<Rightarrow> nat" where
  "ema_price b = unat (bh_ema_irys_price b)"

definition oracle_price :: "irys_block_header \<Rightarrow> nat" where
  "oracle_price b = unat (bh_oracle_irys_price b)"

definition ema_genesis :: "irys_block_header \<Rightarrow> ema_snapshot" where
  "ema_genesis genesis_header =
     \<lparr>ema_price_2_intervals_ago = ema_price genesis_header,
      oracle_price_for_current_ema_predecessor = oracle_price genesis_header,
      ema_price_current_interval = ema_price genesis_header,
      ema_price_1_interval_ago = ema_price genesis_header\<rparr>"

definition next_snapshot ::
  "ema_snapshot \<Rightarrow> irys_block_header \<Rightarrow> irys_block_header \<Rightarrow> consensus_config \<Rightarrow> ema_snapshot"
where
  "next_snapshot s new_block parent_block config =
     (let blocks_in_interval = cc_price_adjustment_interval config;
          crossing_interval_boundary = blocks_in_interval dvd bh_height new_block \<and> bh_height new_block > 0;
          (two_ago, one_ago) =
            (if crossing_interval_boundary
             then (ema_price_1_interval_ago s, ema_price_current_interval s)
             else (ema_price_2_intervals_ago s, ema_price_1_interval_ago s)) in
      if is_ema_recalculation_block (bh_height new_block) blocks_in_interval
      then \<lparr>ema_price_2_intervals_ago = two_ago,
            oracle_price_for_current_ema_predecessor = oracle_price parent_block,
            ema_price_current_interval = ema_price new_block,
            ema_price_1_interval_ago = one_ago\<rparr>
      else \<lparr>ema_price_2_intervals_ago = two_ago,
            oracle_price_for_current_ema_predecessor = oracle_price_for_current_ema_predecessor s,
            ema_price_current_interval = ema_price_current_interval s,
            ema_price_1_interval_ago = one_ago\<rparr>)"

definition bound_in_min_max_range :: "nat \<Rightarrow> nat \<Rightarrow> nat \<Rightarrow> nat" where
  "bound_in_min_max_range desired_price safe_range base_price =
     (let max_acceptable = unwrap_or (add_multiplier base_price safe_range) base_price;
          min_acceptable = unwrap_or (sub_multiplier base_price safe_range) base_price in
      if desired_price > max_acceptable then max_acceptable
      else if desired_price < min_acceptable then min_acceptable
      else desired_price)"

definition calculate_ema_for_new_block ::
  "ema_snapshot \<Rightarrow> irys_block_header \<Rightarrow> nat \<Rightarrow> nat \<Rightarrow> nat \<Rightarrow> ema_calculation"
where
  "calculate_ema_for_new_block s parent_block price safe_range blocks_in_interval =
     (let for_calculation = bound_in_min_max_range
            (if bh_height parent_block < blocks_in_interval * 2 then price
             else oracle_price_for_current_ema_predecessor s)
            safe_range (oracle_price parent_block) in
      \<lparr>oracle_price_for_calculation = for_calculation,
       oracle_price_for_block_inclusion =
         bound_in_min_max_range price safe_range (oracle_price parent_block),
       calculated_ema =
         unwrap_or (calculate_ema for_calculation blocks_in_interval (ema_price_current_interval s))
           (ema_price_current_interval s)\<rparr>)"

definition oracle_price_is_valid :: "nat \<Rightarrow> nat \<Rightarrow> nat \<Rightarrow> bool" where
  "oracle_price_is_valid price previous_oracle_price safe_range \<longleftrightarrow>
     price \<noteq> 0 \<and> price = bound_in_min_max_range price safe_range previous_oracle_price"

definition ema_for_public_pricing :: "ema_snapshot \<Rightarrow> nat" where
  "ema_for_public_pricing s = ema_price_2_intervals_ago s"

definition tip_in_last_quarter_of_ema_interval :: "nat \<Rightarrow> nat \<Rightarrow> bool" where
  "tip_in_last_quarter_of_ema_interval tip_height price_adjustment_interval \<longleftrightarrow>
     tip_height mod price_adjustment_interval \<ge>
     price_adjustment_interval - (price_adjustment_interval + 3) div 4"

definition ema_for_public_quote :: "ema_snapshot \<Rightarrow> nat \<Rightarrow> nat \<Rightarrow> nat" where
  "ema_for_public_quote s tip_height price_adjustment_interval =
     (if tip_in_last_quarter_of_ema_interval tip_height price_adjustment_interval
      then min (ema_price_1_interval_ago s) (ema_price_2_intervals_ago s)
      else ema_for_public_pricing s)"

definition get_block_with_height ::
  "irys_block_header list \<Rightarrow> nat \<Rightarrow> ema_history_error + irys_block_header"
where
  "get_block_with_height blocks desired_height =
     ok_or (find (\<lambda>b. bh_height b = desired_height) blocks) (BlockNotInHistory desired_height)"

definition height_1_interval_ago :: "nat \<Rightarrow> nat \<Rightarrow> nat" where
  "height_1_interval_ago h blocks_in_interval =
     (if h < blocks_in_interval then 0
      else (h div blocks_in_interval - 1) * blocks_in_interval + (blocks_in_interval - 1))"

definition height_latest_ema_block :: "nat \<Rightarrow> nat \<Rightarrow> nat" where
  "height_latest_ema_block h blocks_in_interval =
     (if is_ema_recalculation_block h blocks_in_interval then h
      else previous_ema_recalculation_block_height h blocks_in_interval)"

definition create_ema_snapshot_from_chain_history ::
  "irys_block_header list \<Rightarrow> consensus_config \<Rightarrow> ema_history_error + ema_snapshot"
where
  "create_ema_snapshot_from_chain_history blocks config =
     rbind (ok_or (if blocks = [] then None else Some (last blocks)) NoBlocks) (\<lambda>latest_block.
     let max_height = foldr max (map bh_height blocks) 0;
         h = bh_height latest_block;
         n = cc_price_adjustment_interval config in
     rbind (ensure (h = max_height) (NotHighest h max_height)) (\<lambda>_.
     rbind (get_block_with_height blocks (block_height_to_use_for_price h n)) (\<lambda>pricing.
     rbind (get_block_with_height blocks (height_1_interval_ago h n)) (\<lambda>one_ago.
     rbind (get_block_with_height blocks (height_latest_ema_block h n - 1)) (\<lambda>predecessor.
     rbind (get_block_with_height blocks (height_latest_ema_block h n)) (\<lambda>latest.
     Inr \<lparr>ema_price_2_intervals_ago = ema_price pricing,
          oracle_price_for_current_ema_predecessor = oracle_price predecessor,
          ema_price_current_interval = ema_price latest,
          ema_price_1_interval_ago = ema_price one_ago\<rparr>))))))"

section \<open>Replaying a chain\<close>

text \<open>
  The snapshot of the last block of a chain that starts at the genesis block, computed one block at
  a time as the block tree does when it adds them.
\<close>

fun ema_extend ::
  "consensus_config \<Rightarrow> irys_block_header \<Rightarrow> irys_block_header list \<Rightarrow> ema_snapshot \<Rightarrow> ema_snapshot"
where
  "ema_extend config parent [] s = s"
| "ema_extend config parent (b # bs) s = ema_extend config b bs (next_snapshot s b parent config)"

fun ema_of_chain :: "consensus_config \<Rightarrow> irys_block_header list \<Rightarrow> ema_snapshot" where
  "ema_of_chain config [] = \<lparr>ema_price_2_intervals_ago = 0, oracle_price_for_current_ema_predecessor = 0,
     ema_price_current_interval = 0, ema_price_1_interval_ago = 0\<rparr>"
| "ema_of_chain config (g # bs) = ema_extend config g bs (ema_genesis g)"

definition from_genesis :: "irys_block_header list \<Rightarrow> bool" where
  "from_genesis chain \<longleftrightarrow> map bh_height chain = [0..<length chain]"

lemma ema_extend_snoc:
  "ema_extend config parent (bs @ [b]) s =
     next_snapshot (ema_extend config parent bs s) b (last (parent # bs)) config"
  by (induction bs arbitrary: parent s) simp_all

lemma ema_of_chain_snoc:
  "chain \<noteq> [] \<Longrightarrow> ema_of_chain config (chain @ [b]) =
     next_snapshot (ema_of_chain config chain) b (last chain) config"
  by (cases chain) (simp_all add: ema_extend_snoc)

lemma from_genesis_take: "from_genesis chain \<Longrightarrow> from_genesis (take k chain)"
  by (simp add: from_genesis_def take_map [symmetric] take_upt min_def)

text \<open>What the snapshot holds at height \<open>h\<close>, in terms of the prices of the chain.\<close>

definition ema_at :: "irys_block_header list \<Rightarrow> nat \<Rightarrow> nat \<Rightarrow> ema_snapshot" where
  "ema_at chain n h =
     \<lparr>ema_price_2_intervals_ago = ema_price (chain ! block_height_to_use_for_price h n),
      oracle_price_for_current_ema_predecessor = oracle_price (chain ! (height_latest_ema_block h n - 1)),
      ema_price_current_interval = ema_price (chain ! height_latest_ema_block h n),
      ema_price_1_interval_ago = ema_price (chain ! height_1_interval_ago h n)\<rparr>"

lemma div_mod_obtain:
  assumes "0 < (n :: nat)"
  obtains q r where "h = q * n + r" "r < n" "h div n = q" "h mod n = r"
  using assms by (metis div_mult_mod_eq mod_less_divisor)

lemma prev_ema_eq:
  assumes "0 < n"
  shows "prev_ema_ignore_genesis_rules h n = (h div n) * n - 1"
proof -
  obtain q r where h: "h = q * n + r" "r < n" "h div n = q" "h mod n = r"
    using div_mod_obtain [OF assms] .
  have "(h + 1) mod n = (if Suc r = n then 0 else Suc r)"
    using mod_Suc [of h n] h(4) by simp
  then show ?thesis
    unfolding prev_ema_ignore_genesis_rules_def Let_def h(3) using h(1,2) by (cases "Suc r = n") auto
qed

lemma price_height_eq:
  assumes "0 < n"
  shows "block_height_to_use_for_price h n = (if h < n * 2 then 0 else (h div n - 1) * n - 1)"
proof -
  have "((h div n) * n - 1) div n = h div n - 1" if "\<not> h < n * 2"
  proof -
    have "n \<le> h" using that by simp
    then have "0 < h div n" using assms by (simp add: div_greater_zero_iff)
    then obtain q where q: "h div n = Suc q" by (cases "h div n") auto
    have "Suc q * n - 1 = (n - 1) + n * q" using assms by (simp add: mult.commute)
    moreover have "((n - 1) + n * q) div n = q"
      using assms by (subst div_mult_self2) simp_all
    ultimately show ?thesis by (simp only: q diff_Suc_1)
  qed
  then show ?thesis
    using assms by (simp add: block_height_to_use_for_price_def prev_ema_eq)
qed

lemma one_ago_eq:
  assumes "0 < n"
  shows "height_1_interval_ago h n = (h div n) * n - 1"
proof (cases "h div n")
  case 0
  then show ?thesis using assms by (simp add: height_1_interval_ago_def div_eq_0_iff)
next
  case (Suc q)
  then have "\<not> h < n" by auto
  then show ?thesis using assms by (simp add: height_1_interval_ago_def Suc)
qed

lemma latest_ema_eq:
  "0 < n \<Longrightarrow> height_latest_ema_block h n =
     (if h < n * 2 \<or> n dvd Suc h then h else (h div n) * n - 1)"
  by (simp add: height_latest_ema_block_def is_ema_recalculation_block_def
      previous_ema_recalculation_block_height_def prev_ema_eq)

lemmas ema_heights = price_height_eq one_ago_eq latest_ema_eq

lemma one_ago_le: "0 < n \<Longrightarrow> height_1_interval_ago h n \<le> h"
  and latest_ema_le: "0 < n \<Longrightarrow> height_latest_ema_block h n \<le> h"
  by (auto simp: one_ago_eq latest_ema_eq intro: le_trans [OF diff_le_self div_times_less_eq_dividend])

lemma price_height_lowest:
  assumes "0 < n"
  shows "block_height_to_use_for_price h n \<le> height_1_interval_ago h n"
    and "block_height_to_use_for_price h n \<le> height_latest_ema_block h n - 1"
proof -
  obtain q r where h: "h = q * n + r" "r < n" "h div n = q" "h mod n = r"
    using div_mod_obtain [OF assms] .
  have le: "(q - 1) * n \<le> q * n" by simp
  then show "block_height_to_use_for_price h n \<le> height_1_interval_ago h n"
    using assms by (simp add: ema_heights h(3) diff_le_mono)
  have "(q - 1) * n - 1 \<le> q * n - 1 - 1" if "\<not> h < n * 2"
  proof -
    have "q \<noteq> 0" using that h(1,2) by (cases q) auto
    then have "(q - 1) * n + n = q * n" by (cases q) auto
    then show ?thesis using assms by linarith
  qed
  moreover have "q * n \<le> h" using h(1) by simp
  ultimately show "block_height_to_use_for_price h n \<le> height_latest_ema_block h n - 1"
    using assms by (simp add: ema_heights h(3)) linarith
qed

lemma div_Suc_cross: "0 < n \<Longrightarrow> n dvd Suc h \<Longrightarrow> Suc h div n = Suc (h div n)"
  by (simp add: div_Suc dvd_eq_mod_eq_0)

lemma div_Suc_stay: "0 < n \<Longrightarrow> \<not> n dvd Suc h \<Longrightarrow> Suc h div n = h div n"
  by (simp add: div_Suc dvd_eq_mod_eq_0)

lemma cross_last: "0 < n \<Longrightarrow> n dvd Suc h \<Longrightarrow> Suc (h div n) * n - 1 = h"
  using div_Suc_cross [of n h] dvd_div_mult_self [of n "Suc h"] by simp

lemma ema_at_Suc:
  assumes n: "0 < cc_price_adjustment_interval config" and h: "bh_height b = Suc h"
    and len: "length chain = Suc h"
  shows "next_snapshot (ema_at chain (cc_price_adjustment_interval config) h) b (last chain) config =
    ema_at (chain @ [b]) (cc_price_adjustment_interval config) (Suc h)"
proof -
  define n where "n = cc_price_adjustment_interval config"
  have n0: "0 < n" using n by (simp add: n_def)
  have "chain \<noteq> []" using len by auto
  then have lst: "last chain = chain ! h" by (simp add: last_conv_nth len)
  have old: "(chain @ [b]) ! i = chain ! i" if "i \<le> h" for i
    using that len by (simp add: nth_append)
  have new: "(chain @ [b]) ! Suc h = b" using len by (metis nth_append_length)
  note le = price_height_lowest [OF n0, of h] one_ago_le [OF n0, of h] latest_ema_le [OF n0, of h]
  have price: "block_height_to_use_for_price (Suc h) n =
      (if n dvd Suc h then height_1_interval_ago h n else block_height_to_use_for_price h n)"
  proof (cases "n dvd Suc h")
    case True
    then have suc: "Suc h = Suc (h div n) * n"
      using cross_last [OF n0 True] n0 by simp
    have "h div n = 0" if "Suc h < n * 2"
    proof -
      have "Suc (h div n) * n < 2 * n" using that suc by simp
      then have "Suc (h div n) < 2" by (simp only: mult_less_cancel2)
      then show ?thesis by simp
    qed
    with True show ?thesis
      using n0 by (simp add: ema_heights div_Suc_cross)
  next
    case False
    moreover have "Suc h \<noteq> n * 2" using False by (metis dvd_triv_left)
    ultimately show ?thesis using n0 by (simp add: ema_heights div_Suc_stay)
  qed
  have one: "height_1_interval_ago (Suc h) n =
      (if n dvd Suc h then height_latest_ema_block h n else height_1_interval_ago h n)"
    using n0 cross_last [OF n0, of h] by (simp add: ema_heights div_Suc_cross div_Suc_stay)
  have two: "n dvd Suc h" if "h < n * 2" "\<not> Suc h < n * 2"
  proof -
    have "Suc h = n * 2" using that by simp
    then show ?thesis by (metis dvd_triv_left)
  qed
  have latest: "height_latest_ema_block (Suc h) n =
      (if is_ema_recalculation_block (Suc h) n then Suc h else height_latest_ema_block h n)"
    using n0 cross_last [OF n0, of h] two
    by (auto simp: ema_heights is_ema_recalculation_block_def div_Suc_cross div_Suc_stay)
  show ?thesis
    using le unfolding n_def [symmetric] ema_at_def price one latest next_snapshot_def
    by (simp add: h n_def [symmetric] lst old new)
qed

lemma ema_of_chain_eq:
  assumes "0 < cc_price_adjustment_interval config" and "from_genesis chain" and "chain \<noteq> []"
  shows "ema_of_chain config chain = ema_at chain (cc_price_adjustment_interval config) (length chain - 1)"
  using assms(3,2)
proof (induction chain rule: rev_nonempty_induct)
  case (single b)
  then show ?case
    using assms(1)
    by (simp add: ema_at_def ema_genesis_def ema_heights from_genesis_def)
next
  case (snoc b chain)
  then obtain h where len: "length chain = Suc h" by (cases chain) auto
  have "from_genesis chain" "bh_height b = Suc h"
    using snoc.prems len by (auto simp: from_genesis_def)
  then show ?case
    using snoc ema_at_Suc [OF assms(1) _ len] by (simp add: ema_of_chain_snoc len)
qed

lemma get_block_in_suffix:
  assumes "from_genesis chain" and "k \<le> i" and "i < length chain"
  shows "get_block_with_height (drop k chain) i = Inr (chain ! i)"
proof -
  have h: "bh_height (chain ! j) = j" if "j < length chain" for j
    using assms(1) that by (metis add_0 from_genesis_def length_map nth_map nth_upt)
  have "find (\<lambda>b. bh_height b = i) (drop k chain) = Some (chain ! i)"
    unfolding find_Some_iff using assms h by (intro exI [of _ "i - k"]) auto
  then show ?thesis by (simp add: get_block_with_height_def ok_or_def)
qed

lemma max_height_suffix:
  assumes "from_genesis chain" and "k < length chain"
  shows "foldr max (map bh_height (drop k chain)) 0 = length chain - 1"
proof -
  have "foldr max [k..<m] a = max a (m - 1)" if "k < m" for m a :: nat
    using that by (induction m arbitrary: a) (auto simp: less_Suc_eq max_def)
  moreover have "map bh_height (drop k chain) = [k..<length chain]"
    using assms(1) by (simp add: from_genesis_def drop_map [symmetric])
  ultimately show ?thesis using assms(2) by simp
qed

text \<open>
  \<^bold>\<open>C38.\<close> After a restart a node rebuilds the price snapshot from the headers of the recent chain, and
  gets the snapshot that adding the blocks one by one since the genesis block produces. The recent
  chain may be any suffix that still contains the block whose price the fees use.
\<close>

theorem ema_history_matches_replay:
  assumes "0 < cc_price_adjustment_interval config"
    and "from_genesis chain" and "chain \<noteq> []"
    and "k \<le> block_height_to_use_for_price (length chain - 1) (cc_price_adjustment_interval config)"
  shows "create_ema_snapshot_from_chain_history (drop k chain) config = Inr (ema_of_chain config chain)"
proof -
  define n h where "n = cc_price_adjustment_interval config" and "h = length chain - 1"
  have n0: "0 < n" using assms(1) by (simp add: n_def)
  note le = price_height_lowest [OF n0, of h] one_ago_le [OF n0, of h] latest_ema_le [OF n0, of h]
  have k: "k \<le> block_height_to_use_for_price h n" using assms(4) by (simp add: n_def h_def)
  have len: "h < length chain" using assms(3) by (simp add: h_def)
  have kl: "k < length chain" using k le len by linarith
  have lst: "last (drop k chain) = chain ! h" "drop k chain \<noteq> []"
    using kl assms(3) by (simp_all add: h_def last_conv_nth)
  have hh: "bh_height (chain ! h) = h"
    using assms(2) len by (metis add_0 from_genesis_def length_map nth_map nth_upt)
  have get: "get_block_with_height (drop k chain) i = Inr (chain ! i)" if "k \<le> i" "i \<le> h" for i
    using get_block_in_suffix [OF assms(2) that(1)] that(2) len by simp
  have max: "foldr max (map bh_height (drop k chain)) 0 = h"
    using max_height_suffix [OF assms(2) kl] by (simp add: h_def)
  have eq: "ema_of_chain config chain = ema_at chain n h"
    using ema_of_chain_eq [OF assms(1-3)] by (simp add: n_def h_def)
  show ?thesis
    using le k lst(2)
    by (simp add: create_ema_snapshot_from_chain_history_def Let_def lst(1) ok_or_def ensure_def max hh
        n_def [symmetric] get eq ema_at_def)
qed

definition ex_price_chain :: "nat \<Rightarrow> irys_block_header list" where
  "ex_price_chain len = map (\<lambda>i.
     \<lparr>bh_block_hash = word_of_nat (i + 1), bh_height = i, bh_diff = 1, bh_cumulative_diff = word_of_nat (i + 1),
      bh_solution_hash = word_of_nat i, bh_last_epoch_hash = 0, bh_previous_block_hash = word_of_nat i,
      bh_previous_cumulative_diff = word_of_nat i, bh_last_diff_timestamp = 0, bh_timestamp = 1000 * i,
      bh_system_ledgers = [], bh_data_ledgers = [],
      bh_vdf_limiter_info = \<lparr>vdf_output = 0, vdf_global_step_number = i, vdf_seed = 0, vdf_next_seed = 0,
        vdf_steps = []\<rparr>,
      bh_oracle_irys_price = word_of_nat (100 + 3 * i), bh_ema_irys_price = word_of_nat (100 + 2 * i),
      bh_poa_chunk = None\<rparr>) [0..<len]"

lemma ex_price_chain_ok: "from_genesis (ex_price_chain len)"
  by (simp add: from_genesis_def ex_price_chain_def comp_def)

lemma length_ex_price_chain [simp]: "length (ex_price_chain len) = len"
  by (simp add: ex_price_chain_def)

lemma ema_price_ex: "i < len \<Longrightarrow> i < 1000 \<Longrightarrow> ema_price (ex_price_chain len ! i) = 100 + 2 * i"
proof -
  assume "i < len" "i < 1000"
  then have "unat (word_of_nat (100 + 2 * i) :: u256) = 100 + 2 * i"
    by (simp only: unsigned_of_nat) (simp add: take_bit_nat_eq_self)
  then show ?thesis
    using \<open>i < len\<close> by (simp add: ema_price_def ex_price_chain_def)
qed

lemma take_ex_price_chain: "k \<le> len \<Longrightarrow> take k (ex_price_chain len) = ex_price_chain k"
  by (simp add: ex_price_chain_def take_map take_upt)

lemmas ex_ema = ema_of_chain_eq [OF _ ex_price_chain_ok] ema_at_def price_height_eq one_ago_eq ema_price_ex
  ex_config_def length_0_conv [symmetric]

theorem ema_history_matches_replay_witness:
  "create_ema_snapshot_from_chain_history (drop 9 (ex_price_chain 27)) ex_config =
     Inr (ema_of_chain ex_config (ex_price_chain 27)) \<and>
   ema_price_2_intervals_ago (ema_of_chain ex_config (ex_price_chain 27)) = 118"
proof
  show "create_ema_snapshot_from_chain_history (drop 9 (ex_price_chain 27)) ex_config =
     Inr (ema_of_chain ex_config (ex_price_chain 27))"
    by (rule ema_history_matches_replay [OF _ ex_price_chain_ok])
      (simp_all add: ex_config_def price_height_eq length_0_conv [symmetric] del: length_0_conv)
  show "ema_price_2_intervals_ago (ema_of_chain ex_config (ex_price_chain 27)) = 118"
    by (simp add: ex_ema del: length_0_conv)
qed

text \<open>
  \<^bold>\<open>C39.\<close> A price quoted to a user stays good: in the last quarter of a price interval the quote is at
  most the price the fees use in the rest of this interval and throughout the next one, and before
  the last quarter it is at most the price of the rest of the interval. The fee a user pays on the
  quote is therefore never below the fee the block needs.
\<close>

theorem ema_quote_holds:
  assumes n: "0 < cc_price_adjustment_interval config"
    and chain: "from_genesis chain" "t \<le> h" "h < length chain"
    and later: "h div cc_price_adjustment_interval config = t div cc_price_adjustment_interval config \<or>
      tip_in_last_quarter_of_ema_interval t (cc_price_adjustment_interval config) \<and>
      h div cc_price_adjustment_interval config = Suc (t div cc_price_adjustment_interval config)"
  shows "ema_for_public_quote (ema_of_chain config (take (Suc t) chain)) t (cc_price_adjustment_interval config)
    \<le> ema_for_public_pricing (ema_of_chain config (take (Suc h) chain))"
proof -
  define n where "n = cc_price_adjustment_interval config"
  have n0: "0 < n" using n by (simp add: n_def)
  have at: "ema_of_chain config (take (Suc i) chain) = ema_at (take (Suc i) chain) n i" if "i \<le> h" for i
  proof -
    have "Suc i \<le> length chain" "chain \<noteq> []" using that chain(3) by auto
    then show ?thesis
      using ema_of_chain_eq [OF assms(1) from_genesis_take [OF chain(1)], of "Suc i"] that chain
      by (auto simp: n_def)
  qed
  have two: "ema_price_2_intervals_ago (ema_at (take (Suc i) chain) n i) =
      ema_price (chain ! block_height_to_use_for_price i n)" for i
    using price_height_lowest(1) [OF n0, of i] one_ago_le [OF n0, of i] by (simp add: ema_at_def)
  have one: "ema_price_1_interval_ago (ema_at (take (Suc i) chain) n i) =
      ema_price (chain ! height_1_interval_ago i n)" for i
    using one_ago_le [OF n0, of i] by (simp add: ema_at_def)
  have lt: "i < n * 2 \<longleftrightarrow> i div n < 2" for i
    using n0 by (simp add: div_less_iff_less_mult mult.commute)
  have "block_height_to_use_for_price h n =
      (if h div n = t div n then block_height_to_use_for_price t n else height_1_interval_ago t n)"
    using later n0 by (auto simp: ema_heights n_def [symmetric] lt)
  then show ?thesis
    using later chain(2)
    by (auto simp: at n_def [symmetric] ema_for_public_quote_def ema_for_public_pricing_def two one)
qed

theorem ema_quote_holds_witness:
  "ema_for_public_quote (ema_of_chain ex_config (take (Suc 18) (ex_price_chain 30))) 18 10 = 100 \<and>
   ema_for_public_pricing (ema_of_chain ex_config (take (Suc 25) (ex_price_chain 30))) = 118 \<and>
   ema_for_public_quote (ema_of_chain ex_config (take (Suc 18) (ex_price_chain 30))) 18 10 \<le>
     ema_for_public_pricing (ema_of_chain ex_config (take (Suc 25) (ex_price_chain 30)))"
  (is "?a \<and> ?b \<and> ?c")
proof (intro conjI)
  show ?a
    by (simp add: ex_ema take_ex_price_chain ema_for_public_quote_def tip_in_last_quarter_of_ema_interval_def
        ema_for_public_pricing_def del: length_0_conv)
  show ?b
    by (simp add: ex_ema take_ex_price_chain ema_for_public_pricing_def del: length_0_conv)
  show ?c
    using ema_quote_holds [of ex_config "ex_price_chain 30" 18 25, OF _ ex_price_chain_ok]
    by (simp add: ex_config_def tip_in_last_quarter_of_ema_interval_def)
qed

end
