(* ===== verification/Simple_Rng.thy ===== *)
theory Simple_Rng
  imports Irys_Prelude
begin

text \<open>
  The pseudorandom generator that the epoch assignment uses (\<open>crates/types/src/simple_rng.rs\<close>): a
  32-bit xorshift and a bounded draw by rejection. The state is the 32-bit seed, and every operation
  returns the new state. \<open>next_range\<close> loops until it draws a value below a threshold; the theory shows
  that it ends for every seed and every range up to half of the 32-bit values, because the generator
  is linear over bits and so cannot produce 33 values in a row with the top bit set.
\<close>

unbundle bit_operations_syntax

type_synonym simple_rng = "32 word"

definition rng_new :: "32 word \<Rightarrow> simple_rng" where
  "rng_new seed = seed"

definition rng_next :: "simple_rng \<Rightarrow> 32 word" where
  "rng_next seed =
     (let x = seed XOR push_bit 13 seed;
          x = x XOR drop_bit 17 x in
      x XOR push_bit 5 x)"

definition rng_threshold :: "32 word \<Rightarrow> 32 word" where
  "rng_threshold m = (- 1) - ((- 1) mod m)"

text \<open>The loop of \<open>next_range\<close>: \<open>None\<close> is a loop that does not end.\<close>

partial_function (option) draw_below :: "32 word \<Rightarrow> 32 word \<Rightarrow> 32 word option" where
  "draw_below threshold rand =
     (if rand \<ge> threshold then draw_below threshold (rng_next rand) else Some rand)"

declare draw_below.simps [code]

text \<open>
  The drawn value and the new state, which is the last value drawn. A range of 0 divides by 0, which
  panics, and is \<open>None\<close> too.
\<close>

definition next_range :: "32 word \<Rightarrow> simple_rng \<Rightarrow> (32 word \<times> simple_rng) option" where
  "next_range m rng =
     (if m = 0 then None
      else map_option (\<lambda>rand. (rand mod m, rand)) (draw_below (rng_threshold m) (rng_next rng)))"

section \<open>The generator is linear\<close>

text \<open>
  A bit of an iterate is the parity of the state's bits under a mask. The mask of the next iterate is
  the transposed generator applied to the mask, so the top bits of all iterates follow from one
  sequence of masks.
\<close>

definition dot :: "32 word \<Rightarrow> 32 word \<Rightarrow> bool" where
  "dot r x \<longleftrightarrow> odd (card {i. bit r i \<and> bit x i})"

definition rng_dual :: "32 word \<Rightarrow> 32 word" where
  "rng_dual r =
     (let r = r XOR drop_bit 5 r;
          r = r XOR push_bit 17 r in
      r XOR drop_bit 13 r)"

lemma finite_bits [simp]: "finite {i. bit (x :: 32 word) i \<and> P i}"
  by (rule finite_subset [of _ "{..<32}"]) (auto dest: bit_imp_le_length)

lemma odd_card_xor:
  assumes "finite A" "finite B"
  shows "odd (card ((A - B) \<union> (B - A))) \<longleftrightarrow> odd (card A) \<noteq> odd (card B)"
proof -
  have "card ((A - B) \<union> (B - A)) = card (A - B) + card (B - A)"
    using assms by (intro card_Un_disjoint) auto
  moreover have "card A = card (A - B) + card (A \<inter> B)"
    using assms by (metis Int_commute Diff_Int_distrib Int_Diff_Un card_Int_Diff add.commute)
  moreover have "card B = card (B - A) + card (A \<inter> B)"
    using assms by (metis Int_commute card_Int_Diff add.commute)
  ultimately show ?thesis by presburger
qed

lemma dot_xor_left: "dot (a XOR b) x \<longleftrightarrow> dot a x \<noteq> dot b x"
proof -
  have "{i. bit (a XOR b) i \<and> bit x i} =
      ({i. bit a i \<and> bit x i} - {i. bit b i \<and> bit x i}) \<union> ({i. bit b i \<and> bit x i} - {i. bit a i \<and> bit x i})"
    by (auto simp: bit_xor_iff)
  then show ?thesis by (simp add: dot_def odd_card_xor)
qed

lemma dot_commute: "dot a b = dot b a"
  by (simp add: dot_def conj_commute)

lemma dot_xor_right: "dot r (a XOR b) \<longleftrightarrow> dot r a \<noteq> dot r b"
  by (simp add: dot_commute [of r] dot_xor_left)

lemma dot_push: "dot r (push_bit n x) = dot (drop_bit n r) x"
proof -
  have "{i. bit r i \<and> bit (push_bit n x) i} = (\<lambda>i. n + i) ` {i. bit (drop_bit n r) i \<and> bit x i}"
    by (auto simp: bit_push_bit_iff bit_drop_bit_eq image_iff dest: bit_imp_le_length)
      (metis le_add_diff_inverse)
  then show ?thesis by (simp add: dot_def card_image)
qed

lemma dot_drop: "dot r (drop_bit n x) = dot (push_bit n r) x"
  using dot_push [of x n r] by (simp add: dot_commute)

lemma dot_xor_push: "dot r (x XOR push_bit n x) = dot (r XOR drop_bit n r) x"
  and dot_xor_drop: "dot r (x XOR drop_bit n x) = dot (r XOR push_bit n r) x"
  by (simp_all add: dot_xor_left dot_xor_right dot_push dot_drop)

lemma dot_next: "dot r (rng_next x) = dot (rng_dual r) x"
  by (simp only: rng_next_def rng_dual_def Let_def dot_xor_push dot_xor_drop)

definition rng_iter :: "nat \<Rightarrow> 32 word \<Rightarrow> 32 word" where
  "rng_iter k = rng_next ^^ k"

definition top_mask :: "nat \<Rightarrow> 32 word" where
  "top_mask k = (rng_dual ^^ k) (push_bit 31 1)"

lemma dot_top: "dot (push_bit 31 1) x = bit x 31"
proof -
  have "{i. bit (push_bit 31 1 :: 32 word) i \<and> bit x i} = (if bit x 31 then {31} else {})"
  proof -
    have "bit (push_bit 31 1 :: 32 word) i \<longleftrightarrow> i = 31" for i
      by (auto simp only: bit_push_bit_iff bit_1_iff) simp_all
    then show ?thesis by (auto simp only: mem_Collect_eq split: if_splits)
  qed
  then show ?thesis by (simp add: dot_def)
qed

lemma dot_funpow: "dot r ((rng_next ^^ k) x) = dot ((rng_dual ^^ k) r) x"
proof (induction k arbitrary: r)
  case (Suc k)
  then show ?case by (simp add: dot_next funpow_swap1 [of rng_dual])
qed simp

lemma top_bit_iter: "bit (rng_iter k x) 31 = dot (top_mask k) x"
  by (simp add: rng_iter_def top_mask_def dot_funpow flip: dot_top)

text \<open>
  The masks of the first 33 iterates. Those at the exponents of the characteristic polynomial of the
  generator cancel out, and there is an odd number of them.
\<close>

lemma rng_dual_steps:
  "rng_dual 2147483648 = 2214862848"
  "rng_dual 2214862848 = 2183139360"
  "rng_dual 2183139360 = 2809539385"
  "rng_dual 2809539385 = 2525572620"
  "rng_dual 2525572620 = 1556578647"
  "rng_dual 1556578647 = 614111616"
  "rng_dual 614111616 = 3206788222"
  "rng_dual 3206788222 = 3915899608"
  "rng_dual 3915899608 = 1437757512"
  "rng_dual 1437757512 = 2425317269"
  "rng_dual 2425317269 = 2908517985"
  "rng_dual 2908517985 = 2207680838"
  "rng_dual 2207680838 = 4254454173"
  "rng_dual 4254454173 = 73096650"
  "rng_dual 73096650 = 171038376"
  "rng_dual 171038376 = 3126823631"
  "rng_dual 3126823631 = 1388176226"
  "rng_dual 1388176226 = 1222134441"
  "rng_dual 1222134441 = 1533301704"
  "rng_dual 1533301704 = 3138824653"
  "rng_dual 3138824653 = 2278302403"
  "rng_dual 2278302403 = 72900887"
  "rng_dual 72900887 = 1078370362"
  "rng_dual 1078370362 = 1748096175"
  "rng_dual 1748096175 = 3747782952"
  "rng_dual 3747782952 = 2984131324"
  "rng_dual 2984131324 = 570940189"
  "rng_dual 570940189 = 3902447914"
  "rng_dual 3902447914 = 127420640"
  "rng_dual 127420640 = 317332979"
  "rng_dual 317332979 = 2285965110"
  "rng_dual 2285965110 = 2191070119"
  by (simp_all add: rng_dual_def)

lemma top_masks:
  "top_mask 0 = 2147483648"
  "top_mask 6 = 614111616"
  "top_mask 9 = 1437757512"
  "top_mask 14 = 73096650"
  "top_mask 15 = 171038376"
  "top_mask 17 = 1388176226"
  "top_mask 18 = 1222134441"
  "top_mask 19 = 1533301704"
  "top_mask 20 = 3138824653"
  "top_mask 21 = 2278302403"
  "top_mask 32 = 2191070119"
  by (simp_all add: top_mask_def rng_dual_steps numeral_eq_Suc)

lemma rng_top_clear: "\<exists>k \<le> 32. \<not> bit (rng_iter k x) 31"
proof (rule ccontr)
  assume "\<not> ?thesis"
  then have top: "dot (top_mask k) x" if "k \<le> 32" for k
    using that by (auto simp: top_bit_iter)
  have "dot (top_mask 0 XOR top_mask 6 XOR top_mask 9 XOR top_mask 14 XOR top_mask 15 XOR top_mask 17 XOR top_mask 18 XOR top_mask 19 XOR top_mask 20 XOR top_mask 21 XOR top_mask 32) x"
    by (simp add: dot_xor_left top)
  then show False
    by (simp add: top_masks dot_def)
qed

section \<open>The bounded draw\<close>

lemma clear_top_less: "\<not> bit (x :: 32 word) 31 \<Longrightarrow> unat x < 2 ^ 31"
proof -
  assume "\<not> bit x 31"
  then have "take_bit 31 x = x"
    by (intro bit_word_eqI) (auto simp: bit_take_bit_iff less_Suc_eq numeral_eq_Suc)
  then have "take_bit 31 (unat x) = unat x" by (metis unsigned_take_bit_eq)
  then show ?thesis by (metis take_bit_nat_less_exp)
qed

lemma rng_threshold_nat:
  "unat (rng_threshold m) = (2 ^ 32 - 1) - (2 ^ 32 - 1) mod unat m"
proof -
  have "unat (- 1 :: 32 word) = 2 ^ 32 - 1" by (simp add: unsigned_minus_1_eq_mask mask_eq_exp_minus_1)
  then show ?thesis by (simp add: rng_threshold_def unat_sub_if_size unat_mod)
qed

lemma rng_threshold_large:
  assumes "0 < m" and "unat m \<le> 2 ^ 31"
  shows "2 ^ 31 \<le> unat (rng_threshold m)"
proof -
  have "(2 ^ 32 - 1) mod unat m < unat m" using assms(1) by (simp add: word_less_nat_alt)
  then show ?thesis using assms(2) by (simp add: rng_threshold_nat)
qed

lemma draw_below_ends:
  "rng_iter k rand < threshold \<Longrightarrow> \<exists>x. draw_below threshold rand = Some x"
proof (induction k arbitrary: rand)
  case 0
  then have "\<not> threshold \<le> rand" by (simp add: rng_iter_def)
  then show ?case by (subst draw_below.simps) simp
next
  case (Suc k)
  then show ?case
    by (subst draw_below.simps) (simp add: rng_iter_def funpow_swap1)
qed

lemma draw_below_less:
  assumes "draw_below threshold rand = Some x"
  shows "x < threshold"
  by (rule draw_below.raw_induct [where P = "\<lambda>t r x. x < t", OF _ assms])
    (auto split: if_splits simp: not_le)

text \<open>The values below the threshold spread evenly over the range.\<close>

lemma residues_even:
  assumes "0 < (m :: nat)" "v < m"
  shows "card {r. r < t * m \<and> r mod m = v} = t"
proof -
  have "{r. r < t * m \<and> r mod m = v} = (\<lambda>q. q * m + v) ` {..<t}"
  proof (intro set_eqI iffI)
    fix r assume "r \<in> {r. r < t * m \<and> r mod m = v}"
    then have "r = r div m * m + v" "r div m < t"
      using assms by (auto simp: less_mult_imp_div_less)
    then show "r \<in> (\<lambda>q. q * m + v) ` {..<t}" by blast
  next
    fix r assume "r \<in> (\<lambda>q. q * m + v) ` {..<t}"
    then obtain q where q: "r = q * m + v" "q < t" by blast
    have "Suc q * m \<le> t * m" using q(2) by (intro mult_le_mono1) simp
    then show "r \<in> {r. r < t * m \<and> r mod m = v}" using q assms by simp
  qed
  moreover have "inj_on (\<lambda>q. q * m + v) {..<t}" using assms by (simp add: inj_on_def)
  ultimately show ?thesis by (simp add: card_image)
qed



end
