(* ===== verification/Spec2Isabelle.thy ===== *)
theory Spec2Isabelle
  imports Token_Supply Service_Props Ledger_Props Ema_Snapshot Simple_Rng
begin

text \<open>
  A verification library for the Irys node, a data chain with a proof-of-work style fork choice that
  hands confirmed blocks to a database and to an execution layer. Paths are relative to \<open>src/\<close>.

  \<^bold>\<open>The program.\<close> A pre-validated block enters the block tree, an in-memory forest of the recent blocks
  (\<open>crates/domain/src/models/block_tree.rs\<close>). The block tree service
  (\<open>crates/actors/src/block_tree_service.rs\<close>) owns the tree: it receives new blocks and the results of
  their validation, one message at a time, moves the tip to heavier valid blocks, prunes the tree, and
  publishes every move. The fork-choice markers (\<open>crates/domain/src/models/forkchoice_markers.rs\<close>) name
  the head, the block to migrate and the block to prune. The migration service
  (\<open>crates/actors/src/block_migration_service.rs\<close>) maintains the metadata of transactions at every move,
  writes the canonical branch up to the migration block to the tables
  (\<open>crates/database/src/database.rs\<close>, \<open>db_index.rs\<close>, \<open>db_cache.rs\<close>) and to the block index
  (\<open>crates/domain/src/models/block_index.rs\<close> and its accessors in \<open>database.rs\<close>), adds the block's
  reward to the supply state (\<open>crates/domain/src/models/supply_state.rs\<close>), and rolls all of it back
  after a network partition. Prices, fees and rewards are fixed-point and checked 256-bit arithmetic
  (\<open>crates/types/src/storage_pricing.rs\<close>, \<open>crates/reward-curve/src/lib.rs\<close>,
  \<open>crates/actors/src/block_reward.rs\<close>), parameterised by the consensus configuration and the hardfork
  schedule (\<open>crates/types/src/config/consensus.rs\<close>, \<open>crates/types/src/hardfork_config.rs\<close>). Every block
  carries a snapshot of the averaged token price (\<open>crates/domain/src/snapshots/ema_snapshot.rs\<close>). The
  chunks of the chain live in ledgers of slots (\<open>crates/database/src/data_ledger.rs\<close>), which epoch
  blocks allocate, fill with partitions drawn by a small generator (\<open>crates/types/src/simple_rng.rs\<close>)
  and let expire.

  \<^bold>\<open>Conventions.\<close> A fallible function returns a sum, \<open>Inl\<close> the error; \<open>rbind\<close>, \<open>try_fold\<close> and \<open>rmap\<close>
  are \<open>?\<close> and the fallible iterators. A method that mutates and may fail returns the pair of the result
  and the state, so that what was written before an error is visible; \<open>sbind\<close> and \<open>st_fold\<close> thread it. A
  \<open>HashMap\<close> is an association list, a \<open>BTreeMap\<close> a sorted one. Hashes and 256-bit amounts are
  \<open>256 word\<close>; 64-bit heights, counters and sizes are naturals with the overflow checks of the code
  written out where they matter. The inclusion order of a hash set is a parameter with the locale
  \<open>set_insert\<close>, interpreted on \<open>List.insert\<close>.

  \<^bold>\<open>Theories.\<close>

  \<^item> \<open>Irys_Prelude\<close>: results, loops, maps and byte codecs; the collections \<open>result_simps\<close> and others.

  \<^item> \<open>Block_Types\<close>: headers, ledgers, transactions, sealed blocks and the small functions on them
  (\<open>crates/types/src/block.rs\<close>, \<open>transaction.rs\<close>, \<open>commitment_v2.rs\<close>).

  \<^item> \<open>Block_Tree\<close>: the block tree, one definition per method. Walks along parents take as fuel the number
  of blocks plus one. \<open>Block_Forest\<close>, \<open>Block_Tree_Inv\<close>, \<open>_Marks\<close>, \<open>_Tip\<close>, \<open>_Add\<close>, \<open>_Remove\<close>, \<open>_Prune\<close>
  and \<open>_Query\<close> develop the ancestor relation, the invariant \<open>tree_inv\<close> and the lemmas of each group of
  methods; \<open>Block_Tree_Correct\<close> states the properties: every method keeps the invariant, marking a tip
  makes exactly its ancestors canonical, removal takes out a subtree, pruning keeps the window, the
  splits, the chain and the heaviest block are the intended ones, and no walk runs out of fuel.

  \<^item> \<open>Block_Index\<close> and \<open>Block_Index_Correct\<close>: the index of migrated blocks with its cumulative chunk
  totals, the binary search for the block that holds a chunk offset, truncation, the legacy file.

  \<^item> \<open>Fork_Choice\<close>: the markers and the finality heights, which are computed in two places and agree.

  \<^item> \<open>Consensus_Config\<close>, \<open>Storage_Pricing\<close>, \<open>Token_Supply\<close>: parameters and forks, prices and fees, the
  emission curve, the supply state with its file, the backfill after a restart, and the step relation
  of migrations, rollbacks, backfills and restarts that keeps the supply exact.

  \<^item> \<open>Ema_Snapshot\<close>: the price snapshot and its quotes. Rebuilding it from the headers after a restart
  gives the snapshot of following the chain, and a quote holds through the next price interval.

  \<^item> \<open>Data_Ledgers\<close>: the ledgers and their slots, one definition per method; \<open>None\<close> is a panic.
  \<open>Ledger_Correct\<close> has the contract of the access to the slots of one ledger, the locale \<open>slot_store\<close>
  with its instance, and the effect of each operation; \<open>Ledger_Props\<close> states which slots expire and
  that the recycled slots are the settled ones, each of them once.

  \<^item> \<open>Simple_Rng\<close>: the xorshift generator. The rejection loop of a bounded draw is a partial function,
  and it ends: the generator is linear over bits, and the masks of its first 33 iterates exclude that
  all of them have the top bit set.

  \<^item> \<open>Irys_Database\<close> and \<open>Block_Migration\<close>: the tables and the migration service. \<open>Tables_Correct\<close>
  and \<open>Migration_Correct\<close> develop \<open>tables_wf\<close>, the agreement of index, headers and metadata rows;
  \<open>Migration_Props\<close> states the properties: lookups are exact, migration extends the index along the
  branch, recovery and the clearing of metadata restore well-formed tables.

  \<^item> \<open>Block_Tree_Service\<close>: the service with its message loop and the drain at shutdown. \<open>Service_Correct\<close>
  proves its invariant and where the tip ends up, \<open>Migrated_Chain\<close> relates the index to an
  append-only list of hashes with bounded rollback, \<open>Canonical_Index\<close> and \<open>Canonical_Steps\<close> relate
  the tree and the tables, \<open>Service_Runs\<close> lifts the contracts of one message to runs through the
  locale \<open>outcome_inv\<close>, and \<open>Service_Props\<close> states the properties over whole runs.

  \<^bold>\<open>What is assumed of the environment.\<close> The messages of a run are \<open>admissible\<close>: a new block whose parent
  is in the tree has the next height and a higher cumulative difficulty, and a block is reported valid
  only after its ancestors, which is what block discovery and the validation service wait for. The
  property on the tables assumes in addition \<open>new_block_ok\<close>: a block keeps the ledgers of its parent
  and repeats no transaction of its chain, which block validation checks. The snapshots computed for a
  new block, the database environment, the execution layer and the storage modules are parameters or
  logs. A database transaction is atomic and a read does not fail.

  \<^bold>\<open>Bounds and fuel.\<close> \<open>fuel_of bs\<close> is the number of blocks plus one; heights along parents decrease, so
  a walk visits each block once, and the theorems state that the result is never the divergence error.
  The binary search of the index and the fixed-point loops recurse on a decreasing measure. The index
  is well formed up to 2^64 blocks, the range of its keys.

  \<^bold>\<open>Not modelled.\<close> Metrics, logging, tracing and timestamps have no effect on the state. The durable
  block stream is modelled in its disabled setting. Codecs derived by macros, signatures, hashing and
  entropy packing call external libraries. Gossip, HTTP and GPU code is input and output.
  The assignment of partitions to slots and miners at an epoch block and the pending commitments
  (\<open>crates/domain/src/snapshots/epoch_snapshot\<close>, \<open>commitment_snapshot.rs\<close>) are not modelled; they are
  arguments of the block tree. The theorems on expiry assume \<open>ledgers_ok\<close>, the set of ledgers that
  \<open>ledgers_new\<close> and \<open>activate_cascade\<close> produce, and \<open>epoch_lengths_fit\<close>, that no epoch length
  overflows. The mempool, block production, block validation, the VDF and the storage modules are separate
  services; the manifest lists them with what would be needed to model them.
\<close>

end
